(* ===== verification/Prelude.thy ===== *)
theory Prelude
  imports Main "HOL-Library.Word" "HOL-Library.Multiset"
begin

text \<open>
  Shared vocabulary of the development: the machine types of the C++ sources
  (\<^verbatim>\<open>std::size_t\<close> as a 64-bit word, \<^verbatim>\<open>std::ptrdiff_t\<close> subtraction with its undefined
  overflow made a value), the faults a C++ operation can run into, the sequencing of
  operations that may fault, and the arithmetic of ring-buffer indices (a word masked with
  \<open>N - 1\<close>, for \<open>N\<close> a power of two) that the three queues of \<^verbatim>\<open>include/queue.h\<close> share.
\<close>

unbundle bit_operations_syntax

section \<open>Types and faults\<close>

type_synonym size_t = "64 word"
type_synonym uint32 = "32 word"

text \<open>An address of a heap object or of a coroutine frame; the null pointer is \<open>None\<close>.\<close>

type_synonym addr = nat
type_synonym handle = nat

text \<open>What a C++ operation does instead of returning when its behaviour is undefined, or it ends the program.\<close>

datatype fault =
    UseAfterFree addr
  | DoubleResume handle
  | NullDeref
  | SignedOverflow
  | OutOfRange
  | BadVariantAccess
  | DestroyRunning handle
  | Terminate

type_synonym 'a res = "fault + 'a"

primrec res_bind :: "'a res \<Rightarrow> ('a \<Rightarrow> 'b res) \<Rightarrow> 'b res" where
  "res_bind (Inl e) f = Inl e"
| "res_bind (Inr x) f = f x"

lemma res_bind_Inr_iff:
  "res_bind m f = Inr y \<longleftrightarrow> (\<exists>x. m = Inr x \<and> f x = Inr y)"
  by (cases m) auto

lemma res_bind_Inl_iff:
  "res_bind m f = Inl e \<longleftrightarrow> m = Inl e \<or> (\<exists>x. m = Inr x \<and> f x = Inl e)"
  by (cases m) auto

lemma res_bind_assoc: "res_bind (res_bind m f) g = res_bind m (\<lambda>x. res_bind (f x) g)"
  by (cases m) auto

text \<open>
  A computation with loops: \<open>None\<close> when it has not returned within the steps it was given,
  otherwise a fault or a result.
\<close>

type_synonym 'a run = "'a res option"

definition run_bind :: "'a run \<Rightarrow> ('a \<Rightarrow> 'b run) \<Rightarrow> 'b run" where
  "run_bind m f = (case m of None \<Rightarrow> None | Some (Inl e) \<Rightarrow> Some (Inl e) | Some (Inr x) \<Rightarrow> f x)"

definition run_ret :: "'a \<Rightarrow> 'a run" where
  "run_ret x = Some (Inr x)"

definition run_res :: "'a res \<Rightarrow> 'a run" where
  "run_res r = Some r"

named_theorems run_simps \<open>sequencing of computations that return\<close>

lemma run_bind_simps [run_simps]:
  "run_bind (Some (Inr x)) f = f x" "run_bind (Some (Inl e)) f = Some (Inl e)" "run_bind None f = None"
  "run_bind (run_ret x) f = f x" "run_bind (run_res (Inr x)) f = f x"
  "run_bind (run_res (Inl e)) f = Some (Inl e)"
  by (simp_all add: run_bind_def run_ret_def run_res_def)

lemma run_bind_Inr_iff:
  "run_bind m f = Some (Inr y) \<longleftrightarrow> (\<exists>x. m = Some (Inr x) \<and> f x = Some (Inr y))"
  by (auto simp: run_bind_def split: option.splits sum.splits)

section \<open>Signed and unsigned readings of indices\<close>

text \<open>
  \<^verbatim>\<open>static_cast<std::ptrdiff_t>(a) - static_cast<std::ptrdiff_t>(b)\<close>: both operands are
  read as two's complement and subtracted as signed 64-bit integers; a difference outside
  the signed range is undefined behaviour.
\<close>

definition ptrdiff_sub :: "size_t \<Rightarrow> size_t \<Rightarrow> int res" where
  "ptrdiff_sub a b =
     (let d = sint a - sint b
      in if - (2 ^ 63) \<le> d \<and> d < 2 ^ 63 then Inr d else Inl SignedOverflow)"

text \<open>Indices below \<open>2 ^ 63\<close> have the same signed and unsigned reading.\<close>

abbreviation index_limit :: nat where
  "index_limit \<equiv> 2 ^ 63"

named_theorems idx_simps \<open>conversions between machine indices and natural numbers\<close>

lemma unat_of_nat64 [idx_simps]: "k < 2 ^ 64 \<Longrightarrow> unat (of_nat k :: size_t) = k"
  by (simp add: unat_of_nat take_bit_nat_eq_self)

lemma unat_of_nat_limit [idx_simps]: "k < index_limit \<Longrightarrow> unat (of_nat k :: size_t) = k"
  by (rule unat_of_nat64) simp

lemma sint_of_nat_limit [idx_simps]:
  assumes "k < index_limit"
  shows "sint (of_nat k :: size_t) = int k"
proof -
  have "int k < 2 ^ 63" using assms by (metis of_nat_less_iff of_nat_numeral of_nat_power)
  then show ?thesis
    by (simp add: signed_of_nat signed_take_bit_int_eq_self)
qed

lemma of_nat_eq_limit [idx_simps]:
  assumes "j < 2 ^ 64" "k < 2 ^ 64"
  shows "(of_nat j :: size_t) = of_nat k \<longleftrightarrow> j = k"
  using assms by (metis unat_of_nat64)

lemma ptrdiff_sub_of_nat [idx_simps]:
  assumes "j < index_limit" "k < index_limit"
  shows "ptrdiff_sub (of_nat j) (of_nat k) = Inr (int j - int k)"
proof -
  have "int j < 2 ^ 63" "int k < 2 ^ 63"
    using assms by (metis of_nat_less_iff of_nat_numeral of_nat_power)+
  moreover have "sint (of_nat j :: size_t) = int j" "sint (of_nat k :: size_t) = int k"
    using assms by (simp_all add: sint_of_nat_limit)
  ultimately show ?thesis by (simp add: ptrdiff_sub_def)
qed

lemma ptrdiff_sub_unat [idx_simps]:
  "unat a < index_limit \<Longrightarrow> unat b < index_limit \<Longrightarrow>
   ptrdiff_sub a b = Inr (int (unat a) - int (unat b))"
  using ptrdiff_sub_of_nat [of "unat a" "unat b"] by simp

lemma unat_less_word: "unat (w :: size_t) < 2 ^ 64"
  using unsigned_less [of w] by simp

lemma of_nat_of_unat: "unat (w :: size_t) = k \<Longrightarrow> w = of_nat k"
  by auto

lemma unat_plus_one:
  assumes "unat (w :: size_t) < index_limit"
  shows "unat (w + 1) = Suc (unat w)"
  using assms by (subst unat_plus_simple [THEN iffD1])
    (simp_all add: word_le_nat_alt unat_word_ariths)

section \<open>Ring-buffer positions\<close>

text \<open>
  \<^verbatim>\<open>index & (N - 1)\<close> is the index modulo \<open>N\<close> when \<open>N\<close> is a power of two.
\<close>

definition has_single_bit :: "size_t \<Rightarrow> bool" where
  "has_single_bit n \<longleftrightarrow> (\<exists>k<64. n = 2 ^ k)"

lemma unat_pow2: "k < 64 \<Longrightarrow> unat (2 ^ k :: size_t) = 2 ^ k"
  by (metis of_nat_numeral of_nat_power power_strict_increasing_iff unat_of_nat64 one_less_numeral_iff semiring_norm(76))

lemma and_mask_pow2:
  assumes "k < 64"
  shows "unat ((x :: size_t) AND (2 ^ k - 1)) = unat x mod 2 ^ k"
proof -
  have "x AND (2 ^ k - 1) = take_bit k x"
    by (simp add: take_bit_eq_mask mask_eq_exp_minus_1)
  moreover have "unat (take_bit k x) = take_bit k (unat x)"
    by (simp only: unsigned_take_bit_eq)
  ultimately show ?thesis
    by (simp only: take_bit_eq_mod)
qed

lemma unat_and_mask:
  assumes "has_single_bit n"
  shows "unat (x AND (n - 1)) = unat x mod unat n"
  using assms by (auto simp: has_single_bit_def and_mask_pow2 unat_pow2)

lemma has_single_bit_pos: "has_single_bit n \<Longrightarrow> 0 < unat n"
  by (auto simp: has_single_bit_def unat_pow2)

lemma unat_and_mask_less: "has_single_bit n \<Longrightarrow> unat (x AND (n - 1)) < unat n"
  by (simp add: unat_and_mask has_single_bit_pos)

lemma unat_dvd_word: "has_single_bit n \<Longrightarrow> unat n dvd 2 ^ 64"
  unfolding has_single_bit_def by (metis le_imp_power_dvd less_imp_le unat_pow2)

lemma unat_index_plus:
  assumes "has_single_bit n"
  shows "unat ((a + of_nat i) AND (n - 1)) = (unat a + i) mod unat n"
proof -
  have "unat (a + of_nat i :: size_t) = (unat a + i) mod 2 ^ 64"
    by (simp add: unat_word_ariths unat_of_nat take_bit_eq_mod mod_simps)
  then show ?thesis
    using unat_dvd_word [OF assms] by (simp add: unat_and_mask [OF assms] mod_mod_cancel)
qed

lemma unat_index_of_nat:
  "has_single_bit n \<Longrightarrow> unat (of_nat k AND (n - 1)) = k mod unat n"
  using unat_index_plus [of n 0 k] by simp

text \<open>Two indices that are less than \<open>N\<close> apart and share a slot are equal.\<close>

lemma mod_window_eq:
  fixes i j n :: nat
  assumes "i mod n = j mod n" "i \<le> j" "j < i + n"
  shows "i = j"
proof -
  have "n dvd j - i" using assms(1,2) by (metis mod_eq_dvd_iff_nat)
  moreover have "j - i < n" using assms(2,3) by arith
  ultimately have "j - i = 0" by (metis dvd_imp_le not_gr_zero leD)
  then show ?thesis using assms(2) by simp
qed

lemma mod_window_inj:
  fixes a i j n :: nat
  assumes "a \<le> i" "i < a + n" "a \<le> j" "j < a + n" "i mod n = j mod n"
  shows "i = j"
proof (cases "i \<le> j")
  case True
  then show ?thesis using assms mod_window_eq [of i n j] by auto
next
  case False
  then show ?thesis using assms mod_window_eq [of j n i] by auto
qed

lemma mod_window_ex:
  fixes a k n :: nat
  assumes "0 < n"
  shows "\<exists>k'. a \<le> k' \<and> k' < a + n \<and> k' mod n = k mod n"
proof (intro exI conjI)
  let ?k' = "a + (k + (n - a mod n)) mod n"
  show "a \<le> ?k'" "?k' < a + n" using assms by simp_all
  have "?k' mod n = (a + (k + (n - a mod n))) mod n" by (simp add: mod_add_right_eq)
  also have "a + (k + (n - a mod n)) = k + (n * (a div n) + n)"
    using mod_less_divisor [OF assms, of a] mult_div_mod_eq [of n a] by linarith
  also have "\<dots> mod n = (k + n * Suc (a div n)) mod n" by (simp add: algebra_simps)
  also have "\<dots> = k mod n" by (rule mod_mult_self2)
  finally show "?k' mod n = k mod n" .
qed

section \<open>Lists\<close>

lemma length_filter_update:
  "i < length xs \<Longrightarrow>
   length (filter P (xs[i := x])) + (if P (xs ! i) then 1 else 0) =
   length (filter P xs) + (if P x then 1 else 0)"
proof (induction xs arbitrary: i)
  case (Cons a xs)
  then show ?case by (cases i) auto
qed simp

text \<open>Removing the element at a position.\<close>

definition drop_nth :: "nat \<Rightarrow> 'a list \<Rightarrow> 'a list" where
  "drop_nth j xs = take j xs @ drop (Suc j) xs"

lemma set_drop_nth: "j < length xs \<Longrightarrow> insert (xs ! j) (set (drop_nth j xs)) = set xs"
  unfolding drop_nth_def by (metis Un_insert_right id_take_nth_drop list.simps(15) set_append)

text \<open>A sum over a list, with one summand singled out.\<close>

lemma sum_list_split:
  fixes f :: "'a \<Rightarrow> 'b :: comm_monoid_add"
  assumes "i < length xs"
  shows "\<exists>R. sum_list (map f xs) = f (xs ! i) + R \<and> (\<forall>y. sum_list (map f (xs[i := y])) = f y + R)"
proof -
  let ?R = "sum_list (map f (take i xs)) + sum_list (map f (drop (Suc i) xs))"
  have "xs = take i xs @ xs ! i # drop (Suc i) xs" using assms by (rule id_take_nth_drop)
  then have "sum_list (map f xs) = f (xs ! i) + ?R"
    by (metis (no_types, lifting) add.left_commute list.simps(9) map_append sum_list.Cons sum_list.append)
  moreover have "sum_list (map f (xs[i := y])) = f y + ?R" for y
    using assms by (simp add: upd_conv_take_nth_drop add.left_commute)
  ultimately show ?thesis by blast
qed

lemma mset_drop_nth: "j < length xs \<Longrightarrow> mset xs = add_mset (xs ! j) (mset (drop_nth j xs))"
  unfolding drop_nth_def by (subst (1) id_take_nth_drop [of j xs]) simp_all

end
