(* ===== verification/Helper.thy ===== *)
theory Helper
  imports Prelude
begin

text \<open>
  \<^verbatim>\<open>include/helper.h\<close>: the process-wide actor identifier counter. The logger of the same
  file only writes log lines through the bundled logging library and is not modelled.
\<close>

section \<open>Actor identifiers\<close>

text \<open>The function-local atomic \<^verbatim>\<open>__count\<close> starts at 1; a call returns it and adds 1.\<close>

definition unique_id_init :: size_t where
  "unique_id_init = 1"

definition generate_unique_id :: "size_t \<Rightarrow> size_t \<times> size_t" where
  "generate_unique_id cnt = (cnt, cnt + 1)"

text \<open>The identifiers handed out by \<open>n\<close> calls in a row, in the order of the calls.\<close>

fun generate_ids :: "nat \<Rightarrow> size_t \<Rightarrow> size_t list" where
  "generate_ids 0 cnt = []"
| "generate_ids (Suc n) cnt =
     (let (i, cnt') = generate_unique_id cnt in i # generate_ids n cnt')"

lemma generate_ids_eq: "generate_ids n cnt = map (\<lambda>k. cnt + of_nat k) [0..<n]"
proof (induction n arbitrary: cnt)
  case 0
  show ?case by simp
next
  case (Suc n)
  have "[0..<Suc n] = 0 # map Suc [0..<n]"
    by (simp add: map_Suc_upt upt_conv_Cons del: upt_Suc)
  then have "map (\<lambda>k. cnt + of_nat k) [0..<Suc n] = cnt # map (\<lambda>k. cnt + 1 + of_nat k) [0..<n]"
    by (simp add: add.assoc comp_def del: upt_Suc)
  with Suc show ?case by (simp add: generate_unique_id_def)
qed

lemma generate_ids_from_init: "generate_ids n unique_id_init = map (\<lambda>k. of_nat (Suc k)) [0..<n]"
  by (simp add: generate_ids_eq unique_id_init_def)

lemma unat_of_nat_Suc: "k < n \<Longrightarrow> n < 2 ^ 64 \<Longrightarrow> unat (of_nat (Suc k) :: size_t) = Suc k"
  by (rule unat_of_nat64) simp

lemma of_nat_Suc_inj_on:
  assumes "n < 2 ^ 64"
  shows "inj_on (\<lambda>k. of_nat (Suc k) :: size_t) {0..<n}"
proof (rule inj_onI)
  fix j k
  assume "j \<in> {0..<n}" "k \<in> {0..<n}" and eq: "(of_nat (Suc j) :: size_t) = of_nat (Suc k)"
  then have "j < n" "k < n" by simp_all
  then have "Suc j = unat (of_nat (Suc j) :: size_t)" "unat (of_nat (Suc k) :: size_t) = Suc k"
    using unat_of_nat_Suc assms by metis+
  with eq show "j = k" by (metis Suc_inject)
qed

text \<open>
  The identifiers handed out since the process started are pairwise different and none
  of them is 0, for as many calls as the 64-bit counter has non-zero values. The value 0 is
  the marker that \<^verbatim>\<open>ActorManager::__reload_module\<close> takes for "not loaded yet", so an actor
  must never get it.
\<close>

theorem generated_ids_unique:
  assumes "n < 2 ^ 64"
  shows "distinct (generate_ids n unique_id_init) \<and> 0 \<notin> set (generate_ids n unique_id_init)"
proof
  show "distinct (generate_ids n unique_id_init)"
    using assms by (simp add: generate_ids_from_init distinct_map of_nat_Suc_inj_on del: of_nat_Suc)
  have "(of_nat (Suc k) :: size_t) \<noteq> 0" if "k < n" for k
    using unat_of_nat_Suc [OF that assms] by (metis Zero_not_Suc unat_0)
  then have "\<forall>k\<in>{0..<n}. (0 :: size_t) \<noteq> of_nat (Suc k)"
    by (metis atLeastLessThan_iff)
  then show "0 \<notin> set (generate_ids n unique_id_init)"
    by (auto simp only: generate_ids_from_init set_map set_upt image_iff)
qed

end
