(* ===== verification/Event_Message.thy ===== *)
theory Event_Message
  imports Prelude
begin

text \<open>
  \<^verbatim>\<open>include/event_message.h\<close>: the event types with their wire values and names, the event
  message with its reference count and payload, and the release function through which every
  holder gives up its reference. Messages live in a store of heap cells, so that a broadcast
  message is one shared object and releasing it once too often is a fault of the model.
\<close>

section \<open>Event types\<close>

text \<open>
  \<^verbatim>\<open>enum class EventType : uint8_t\<close>: the seven enumerators of \<^verbatim>\<open>EVENT_TYPE_MAP\<close>, and the
  other values an object of the type may hold.
\<close>

datatype EventType =
    kEventNone
  | kEventCmdExit
  | kEventCmdModuleStop
  | kEventCmdModuleReload
  | kEventCmdModuleRemove
  | kEventModuleExited
  | kEventCrashReport
  | kEventUnnamed "8 word"

primrec event_type_value :: "EventType \<Rightarrow> 8 word" where
  "event_type_value kEventNone = 0x00"
| "event_type_value kEventCmdExit = 0x01"
| "event_type_value kEventCmdModuleStop = 0x02"
| "event_type_value kEventCmdModuleReload = 0x03"
| "event_type_value kEventCmdModuleRemove = 0x04"
| "event_type_value kEventModuleExited = 0x80"
| "event_type_value kEventCrashReport = 0x81"
| "event_type_value (kEventUnnamed v) = v"

definition event_type_of_value :: "8 word \<Rightarrow> EventType" where
  "event_type_of_value v =
     (if v = 0x00 then kEventNone
      else if v = 0x01 then kEventCmdExit
      else if v = 0x02 then kEventCmdModuleStop
      else if v = 0x03 then kEventCmdModuleReload
      else if v = 0x04 then kEventCmdModuleRemove
      else if v = 0x80 then kEventModuleExited
      else if v = 0x81 then kEventCrashReport
      else kEventUnnamed v)"

primrec event_type_to_string :: "EventType \<Rightarrow> string" where
  "event_type_to_string kEventNone = ''NOP Event''"
| "event_type_to_string kEventCmdExit = ''Exit Command Event''"
| "event_type_to_string kEventCmdModuleStop = ''Module Stop Command Event''"
| "event_type_to_string kEventCmdModuleReload = ''Module Reload Command Event''"
| "event_type_to_string kEventCmdModuleRemove = ''Module Remove Command Event''"
| "event_type_to_string kEventModuleExited = ''Module Exited Event''"
| "event_type_to_string kEventCrashReport = ''Crash Report Event''"
| "event_type_to_string (kEventUnnamed v) = ''Unknown Event Type''"

text \<open>The classification in the comment above the table: top bit clear means a control message.\<close>

definition is_control :: "EventType \<Rightarrow> bool" where
  "is_control t \<longleftrightarrow> \<not> bit (event_type_value t) 7"

section \<open>Messages\<close>

text \<open>
  The type-erased payload is null or a \<^verbatim>\<open>Payload<std::string>\<close>, the only instance the program
  stores.
\<close>

record EventMessage =
  msg_ref :: size_t
  msg_type :: EventType
  msg_sender_id :: size_t
  msg_payload :: "string option"

text \<open>The heap cells that hold messages, with a bump allocator standing for \<^verbatim>\<open>operator new\<close>.\<close>

record msg_store =
  heap :: "addr \<rightharpoonup> EventMessage"
  next_addr :: addr

definition store_wf :: "msg_store \<Rightarrow> bool" where
  "store_wf st \<longleftrightarrow> (\<forall>a\<in>dom (heap st). a < next_addr st)"

definition empty_store :: msg_store where
  "empty_store = \<lparr>heap = Map.empty, next_addr = 0\<rparr>"

definition new_message :: "size_t \<Rightarrow> EventType \<Rightarrow> size_t \<Rightarrow> msg_store \<Rightarrow> addr \<times> msg_store" where
  "new_message ref_count type sender_id st =
     (next_addr st,
      st\<lparr>heap := (heap st)(next_addr st \<mapsto>
              \<lparr>msg_ref = ref_count, msg_type = type, msg_sender_id = sender_id, msg_payload = None\<rparr>),
         next_addr := Suc (next_addr st)\<rparr>)"

definition load_message :: "addr \<Rightarrow> msg_store \<Rightarrow> EventMessage res" where
  "load_message a st = (case heap st a of None \<Rightarrow> Inl (UseAfterFree a) | Some m \<Rightarrow> Inr m)"

definition set_payload :: "addr \<Rightarrow> string \<Rightarrow> msg_store \<Rightarrow> msg_store res" where
  "set_payload a v st =
     res_bind (load_message a st)
       (\<lambda>m. Inr (st\<lparr>heap := (heap st)(a \<mapsto> m\<lparr>msg_payload := Some v\<rparr>)\<rparr>))"

definition get_payload :: "addr \<Rightarrow> msg_store \<Rightarrow> string res" where
  "get_payload a st =
     res_bind (load_message a st)
       (\<lambda>m. case msg_payload m of None \<Rightarrow> Inl NullDeref | Some v \<Rightarrow> Inr v)"

text \<open>
  \<^verbatim>\<open>event_message_release(EventMessage **msg)\<close>: the argument is the caller's pointer variable
  (\<open>None\<close> when the outer pointer is null); the variable is nulled, the count drops by one and
  the caller that saw the count at 1 deletes the object.
\<close>

definition event_message_release ::
    "addr option option \<Rightarrow> msg_store \<Rightarrow> (addr option option \<times> msg_store) res" where
  "event_message_release msg st =
     (case msg of
        None \<Rightarrow> Inr (None, st)
      | Some None \<Rightarrow> Inr (Some None, st)
      | Some (Some a) \<Rightarrow>
          res_bind (load_message a st)
            (\<lambda>m. Inr (Some None,
                   if msg_ref m = 1 then st\<lparr>heap := (heap st)(a := None)\<rparr>
                   else st\<lparr>heap := (heap st)(a \<mapsto> m\<lparr>msg_ref := msg_ref m - 1\<rparr>)\<rparr>)))"

text \<open>\<^verbatim>\<open>event_message_release(&p)\<close> for a caller that drops its pointer variable afterwards.\<close>

definition release_ptr :: "addr \<Rightarrow> msg_store \<Rightarrow> msg_store res" where
  "release_ptr a st = res_bind (event_message_release (Some (Some a)) st) (\<lambda>(p, st'). Inr st')"

fun release_times :: "nat \<Rightarrow> addr \<Rightarrow> msg_store \<Rightarrow> msg_store res" where
  "release_times 0 a st = Inr st"
| "release_times (Suc n) a st = res_bind (release_ptr a st) (release_times n a)"

section \<open>Lemmas\<close>

named_theorems msg_simps \<open>unfolding of the message operations\<close>

lemma load_message_Inr [msg_simps]: "load_message a st = Inr m \<longleftrightarrow> heap st a = Some m"
  by (auto simp: load_message_def split: option.splits)

lemma load_message_Some [msg_simps]: "heap st a = Some m \<Longrightarrow> load_message a st = Inr m"
  by (simp add: load_message_def)

lemma load_message_None [msg_simps]: "heap st a = None \<Longrightarrow> load_message a st = Inl (UseAfterFree a)"
  by (simp add: load_message_def)

lemma release_ptr_last [msg_simps]:
  "heap st a = Some m \<Longrightarrow> msg_ref m = 1 \<Longrightarrow>
   release_ptr a st = Inr (st\<lparr>heap := (heap st)(a := None)\<rparr>)"
  by (simp add: release_ptr_def event_message_release_def load_message_Some)

lemma release_ptr_dec [msg_simps]:
  "heap st a = Some m \<Longrightarrow> msg_ref m \<noteq> 1 \<Longrightarrow>
   release_ptr a st = Inr (st\<lparr>heap := (heap st)(a \<mapsto> m\<lparr>msg_ref := msg_ref m - 1\<rparr>)\<rparr>)"
  by (simp add: release_ptr_def event_message_release_def load_message_Some)

lemma release_ptr_freed [msg_simps]:
  "heap st a = None \<Longrightarrow> release_ptr a st = Inl (UseAfterFree a)"
  by (simp add: release_ptr_def event_message_release_def load_message_None)

lemma release_ptr_frame:
  "release_ptr a st = Inr st' \<Longrightarrow> b \<noteq> a \<Longrightarrow> heap st' b = heap st b"
  by (auto simp: release_ptr_def event_message_release_def res_bind_Inr_iff split: if_splits)

lemma unat_minus_one64: "(x :: size_t) \<noteq> 0 \<Longrightarrow> unat (x - 1) = unat x - 1"
  by (rule unat_minus_one)

definition dec_ref :: "nat \<Rightarrow> EventMessage \<Rightarrow> EventMessage" where
  "dec_ref k m = m\<lparr>msg_ref := msg_ref m - of_nat k\<rparr>"

lemma dec_ref_Suc: "dec_ref k (m\<lparr>msg_ref := msg_ref m - 1\<rparr>) = dec_ref (Suc k) m"
  by (simp add: dec_ref_def)

lemma msg_ref_dec_ref [simp]: "msg_ref (dec_ref k m) = msg_ref m - of_nat k"
  by (simp add: dec_ref_def)

lemma release_times_partial:
  assumes "heap st a = Some m" and "k < unat (msg_ref m)"
  shows "\<exists>st'. release_times k a st = Inr st' \<and> heap st' = (heap st)(a \<mapsto> dec_ref k m)"
  using assms
proof (induction k arbitrary: st m)
  case 0
  then show ?case by (auto simp: dec_ref_def)
next
  case (Suc k)
  let ?m = "m\<lparr>msg_ref := msg_ref m - 1\<rparr>"
  let ?st = "st\<lparr>heap := (heap st)(a \<mapsto> ?m)\<rparr>"
  have nz: "msg_ref m \<noteq> 0" and n1: "msg_ref m \<noteq> 1" using Suc.prems(2) by auto
  have rel: "release_ptr a st = Inr ?st" using Suc.prems(1) n1 by (simp add: msg_simps)
  have "heap ?st a = Some ?m" by simp
  moreover have "k < unat (msg_ref ?m)" using Suc.prems(2) nz by (simp add: unat_minus_one64)
  ultimately obtain st' where st': "release_times k a ?st = Inr st'"
    "heap st' = (heap ?st)(a \<mapsto> dec_ref k ?m)"
    using Suc.IH [of ?st ?m] by blast
  have "heap ?st = (heap st)(a \<mapsto> ?m)" by simp
  then have "heap st' = (heap st)(a \<mapsto> dec_ref (Suc k) m)"
    by (simp only: st'(2) dec_ref_Suc fun_upd_upd)
  then show ?case using rel st'(1) by auto
qed

lemma release_times_add:
  "release_times (j + k) a st = res_bind (release_times j a st) (release_times k a)"
proof (induction j arbitrary: st)
  case (Suc j)
  then show ?case by (cases "release_ptr a st") simp_all
qed simp

lemma new_message_fresh: "store_wf st \<Longrightarrow> new_message r t s st = (a, st') \<Longrightarrow> heap st a = None"
  by (auto simp: new_message_def store_wf_def)

lemma new_message_wf: "store_wf st \<Longrightarrow> new_message r t s st = (a, st') \<Longrightarrow> store_wf st'"
  by (auto simp: new_message_def store_wf_def dest!: bspec intro: less_SucI)

lemma release_ptr_wf: "store_wf st \<Longrightarrow> release_ptr a st = Inr st' \<Longrightarrow> store_wf st'"
  by (auto simp: release_ptr_def event_message_release_def res_bind_Inr_iff store_wf_def
      load_message_Inr split: if_splits)

section \<open>Properties\<close>

text \<open>
  C30: a message lives exactly as long as its reference count says. While fewer than
  \<open>msg_ref\<close> holders have released it, it is still there with the count that is left and an
  unchanged body; the last release frees it and touches nothing else; one release more is a
  use after free.
\<close>

theorem message_lifetime:
  assumes "heap st a = Some m" and "0 < unat (msg_ref m)"
  shows "(\<forall>k<unat (msg_ref m). \<exists>st'. release_times k a st = Inr st'
             \<and> heap st' = (heap st)(a \<mapsto> dec_ref k m))
       \<and> (\<exists>st'. release_times (unat (msg_ref m)) a st = Inr st' \<and> heap st' = (heap st)(a := None))
       \<and> release_times (Suc (unat (msg_ref m))) a st = Inl (UseAfterFree a)"
proof -
  let ?n = "unat (msg_ref m)"
  obtain st1 where st1: "release_times (?n - 1) a st = Inr st1"
    "heap st1 = (heap st)(a \<mapsto> dec_ref (?n - 1) m)"
    using release_times_partial [OF assms(1), of "?n - 1"] assms(2) by auto
  have one: "msg_ref (dec_ref (?n - 1) m) = 1"
    using assms(2) by (simp add: of_nat_diff Suc_leI)
  let ?st2 = "st1\<lparr>heap := (heap st1)(a := None)\<rparr>"
  have rel: "release_ptr a st1 = Inr ?st2"
    using st1(2) one by (intro release_ptr_last [of _ _ "dec_ref (?n - 1) m"]) simp_all
  have last: "release_times ?n a st = Inr ?st2"
    using release_times_add [of "?n - 1" 1 a st] assms(2) st1(1) rel by simp
  moreover have "release_times (Suc ?n) a st = Inl (UseAfterFree a)"
    using release_times_add [of ?n 1 a st] last by (simp add: release_ptr_freed)
  moreover have "heap ?st2 = (heap st)(a := None)"
    using st1(2) by simp
  ultimately show ?thesis
    using release_times_partial [OF assms(1)] by blast
qed

definition demo_store :: msg_store where
  "demo_store = snd (new_message 3 kEventCmdModuleStop 0 empty_store)"

theorem message_lifetime_witness:
  "release_times 4 0 demo_store = Inl (UseAfterFree 0)"
proof -
  let ?m = "\<lparr>msg_ref = 3, msg_type = kEventCmdModuleStop, msg_sender_id = 0, msg_payload = None\<rparr>"
  have 1: "heap demo_store 0 = Some ?m" and 2: "0 < unat (msg_ref ?m)"
    by (simp_all add: demo_store_def new_message_def empty_store_def)
  have "Suc (unat (msg_ref ?m)) = 4" by simp
  then show ?thesis using message_lifetime [OF 1 2] by metis
qed

text \<open>
  The enumerators and their wire values correspond one to one: reading back the value of
  any enumerator gives that enumerator, every byte is the value of the type it is read as, and
  the top bit of the value separates the two data events from the named control events, as the
  comment above the table says.
\<close>

lemma event_type_value_roundtrip:
  "event_type_value (event_type_of_value v) = v
   \<and> ((\<nexists>u. t = kEventUnnamed u) \<longrightarrow>
        event_type_of_value (event_type_value t) = t
        \<and> (is_control t \<longleftrightarrow> t \<noteq> kEventModuleExited \<and> t \<noteq> kEventCrashReport))"
  by (cases t) (simp_all add: event_type_of_value_def is_control_def bit_numeral_rec)

end
