(* ===== verification/Queue_Interface.thy ===== *)
theory Queue_Interface
  imports Prelude
begin

text \<open>
  What the ring buffers of \<^verbatim>\<open>include/queue.h\<close> promise to a client that calls them one operation
  at a time: a first-in first-out queue of a fixed capacity. The contract is a locale; each
  ring buffer is proved to meet it in its own theory.
\<close>

section \<open>Sequences of operations\<close>

datatype 'a queue_op = Enqueue 'a | Dequeue
datatype 'b queue_ret = Enqueued bool | Dequeued "'b option"

text \<open>The specification: a list of at most \<open>cap\<close> elements.\<close>

fun fifo_exec :: "nat \<Rightarrow> 'a queue_op list \<Rightarrow> 'a list \<Rightarrow> 'a queue_ret list \<times> 'a list" where
  "fifo_exec cap [] xs = ([], xs)"
| "fifo_exec cap (Enqueue x # ops) xs =
     (let ok = length xs < cap;
          (rs, ys) = fifo_exec cap ops (if ok then xs @ [x] else xs)
      in (Enqueued ok # rs, ys))"
| "fifo_exec cap (Dequeue # ops) xs =
     (let (rs, ys) = fifo_exec cap ops (tl xs)
      in (Dequeued (if xs = [] then None else Some (hd xs)) # rs, ys))"

text \<open>
  The same operations on an implementation whose calls may fault (\<open>Inl\<close>) or not return
  (\<open>None\<close>).
\<close>

fun queue_exec ::
    "('a \<Rightarrow> 'q \<Rightarrow> (bool \<times> 'q) res option) \<Rightarrow> ('q \<Rightarrow> ('b option \<times> 'q) res option)
     \<Rightarrow> 'a queue_op list \<Rightarrow> 'q \<Rightarrow> ('b queue_ret list \<times> 'q) res option" where
  "queue_exec enq deq [] q = Some (Inr ([], q))"
| "queue_exec enq deq (Enqueue x # ops) q =
     (case enq x q of
        None \<Rightarrow> None
      | Some (Inl e) \<Rightarrow> Some (Inl e)
      | Some (Inr (ok, q')) \<Rightarrow>
          (case queue_exec enq deq ops q' of
             None \<Rightarrow> None
           | Some (Inl e) \<Rightarrow> Some (Inl e)
           | Some (Inr (rs, q'')) \<Rightarrow> Some (Inr (Enqueued ok # rs, q''))))"
| "queue_exec enq deq (Dequeue # ops) q =
     (case deq q of
        None \<Rightarrow> None
      | Some (Inl e) \<Rightarrow> Some (Inl e)
      | Some (Inr (r, q')) \<Rightarrow>
          (case queue_exec enq deq ops q' of
             None \<Rightarrow> None
           | Some (Inl e) \<Rightarrow> Some (Inl e)
           | Some (Inr (rs, q'')) \<Rightarrow> Some (Inr (Dequeued r # rs, q''))))"

section \<open>The contract\<close>

text \<open>
  \<open>rep b xs q\<close>: the queue \<open>q\<close> holds \<open>xs\<close>, oldest first, and stays within the range of its
  indices for at least \<open>b\<close> more operations. \<open>out\<close> is how a dequeued element is handed out.
\<close>

locale bounded_fifo =
  fixes enq :: "'a \<Rightarrow> 'q \<Rightarrow> (bool \<times> 'q) res option"
    and deq :: "'q \<Rightarrow> ('b option \<times> 'q) res option"
    and out :: "'a \<Rightarrow> 'b"
    and cap :: nat
    and rep :: "nat \<Rightarrow> 'a list \<Rightarrow> 'q \<Rightarrow> bool"
  assumes rep_length: "rep b xs q \<Longrightarrow> length xs \<le> cap"
    and enq_room: "rep (Suc b) xs q \<Longrightarrow> length xs < cap \<Longrightarrow>
          \<exists>q'. enq x q = Some (Inr (True, q')) \<and> rep b (xs @ [x]) q'"
    and enq_full: "rep (Suc b) xs q \<Longrightarrow> length xs = cap \<Longrightarrow>
          \<exists>q'. enq x q = Some (Inr (False, q')) \<and> rep b xs q'"
    and deq_empty: "rep (Suc b) [] q \<Longrightarrow> \<exists>q'. deq q = Some (Inr (None, q')) \<and> rep b [] q'"
    and deq_next: "rep (Suc b) (x # xs) q \<Longrightarrow>
          \<exists>q'. deq q = Some (Inr (Some (out x), q')) \<and> rep b xs q'"
begin

lemma enqueue_step:
  assumes "rep (Suc b) xs q"
  shows "\<exists>q'. enq x q = Some (Inr (length xs < cap, q'))
            \<and> rep b (if length xs < cap then xs @ [x] else xs) q'"
proof (cases "length xs < cap")
  case True
  then show ?thesis using enq_room [OF assms] by auto
next
  case False
  then have "length xs = cap" using rep_length [OF assms] by simp
  then show ?thesis using enq_full [OF assms] by auto
qed

lemma dequeue_step:
  assumes "rep (Suc b) xs q"
  shows "\<exists>q'. deq q = Some (Inr (if xs = [] then None else Some (out (hd xs)), q'))
            \<and> rep b (tl xs) q'"
  using assms deq_empty deq_next by (cases xs) auto

text \<open>Any sequence of operations returns, without a fault, what the list specification says.\<close>

lemma exec_refines_fifo:
  assumes "rep (length ops + b) xs q" and "fifo_exec cap ops xs = (rs, ys)"
  shows "\<exists>q'. queue_exec enq deq ops q = Some (Inr (map (map_queue_ret out) rs, q')) \<and> rep b ys q'"
  using assms
proof (induction ops arbitrary: xs q rs)
  case Nil
  then show ?case by auto
next
  case (Cons oper ops)
  have budget: "rep (Suc (length ops + b)) xs q" using Cons.prems(1) by simp
  show ?case
  proof (cases oper)
    case (Enqueue x)
    obtain q1 where q1: "enq x q = Some (Inr (length xs < cap, q1))"
      "rep (length ops + b) (if length xs < cap then xs @ [x] else xs) q1"
      using enqueue_step [OF budget] by blast
    obtain rs1 where rs1: "fifo_exec cap ops (if length xs < cap then xs @ [x] else xs) = (rs1, ys)"
      and rs: "rs = Enqueued (length xs < cap) # rs1"
      using Cons.prems(2) Enqueue by (auto simp: Let_def split: prod.splits)
    show ?thesis using Cons.IH [OF q1(2) rs1] q1(1) rs Enqueue by auto
  next
    case Dequeue
    obtain q1 where q1: "deq q = Some (Inr (if xs = [] then None else Some (out (hd xs)), q1))"
      "rep (length ops + b) (tl xs) q1"
      using dequeue_step [OF budget] by blast
    obtain rs1 where rs1: "fifo_exec cap ops (tl xs) = (rs1, ys)"
      and rs: "rs = Dequeued (if xs = [] then None else Some (hd xs)) # rs1"
      using Cons.prems(2) Dequeue by (auto simp: Let_def split: prod.splits)
    show ?thesis using Cons.IH [OF q1(2) rs1] q1(1) rs Dequeue by auto
  qed
qed

end

end
