(* ===== verification/Mail_Queue.thy ===== *)
theory Mail_Queue
  imports Event_Message Queue_Interface
begin

text \<open>
  The bounded multi-producer single-consumer queue \<^verbatim>\<open>MailQueue\<close> of \<^verbatim>\<open>include/queue.h\<close>.
  Every access to an atomic or to a slot is one step of a small machine, so the same
  definitions are run to completion by one thread (the sequential behaviour) and interleaved
  between any number of producers and the consumer (theory \<open>Mail_Queue_Concurrent\<close>).
\<close>

section \<open>Data\<close>

record Slot =
  slot_sequence :: size_t
  slot_message :: "addr option"

record mail_queue =
  mq_write_index :: size_t
  mq_read_index :: size_t
  mq_queue :: "Slot list"
  mq_size :: size_t
  mq_mask :: size_t

text \<open>
  \<^verbatim>\<open>std::bit_ceil\<close>: the least power of two that is not below the argument; undefined when
  it does not fit.
\<close>

definition bit_ceil :: "size_t \<Rightarrow> size_t res" where
  "bit_ceil x =
     (case find (\<lambda>k. x \<le> 2 ^ k) [0..<64] of None \<Rightarrow> Inl OutOfRange | Some k \<Rightarrow> Inr (2 ^ k))"

definition mail_queue_new :: "size_t \<Rightarrow> mail_queue res" where
  "mail_queue_new sz =
     res_bind (bit_ceil sz) (\<lambda>n. Inr
       \<lparr>mq_write_index = 0, mq_read_index = 0,
        mq_queue = map (\<lambda>i. \<lparr>slot_sequence = of_nat i, slot_message = None\<rparr>) [0..<unat n],
        mq_size = n, mq_mask = n - 1\<rparr>)"

definition slot_pos :: "mail_queue \<Rightarrow> size_t \<Rightarrow> nat" where
  "slot_pos q idx = unat (idx AND mq_mask q)"

definition mq_slot :: "mail_queue \<Rightarrow> size_t \<Rightarrow> Slot" where
  "mq_slot q idx = mq_queue q ! slot_pos q idx"

definition mq_set_slot :: "mail_queue \<Rightarrow> size_t \<Rightarrow> Slot \<Rightarrow> mail_queue" where
  "mq_set_slot q idx sl = q\<lparr>mq_queue := (mq_queue q)[slot_pos q idx := sl]\<rparr>"

section \<open>try_enqueue\<close>

text \<open>
  Where a thread is inside \<^verbatim>\<open>try_enqueue\<close>, with the local variable \<^verbatim>\<open>write_idx\<close>: about to load
  \<^verbatim>\<open>write_index_\<close> (on entry and at the end of every round of the loop), about to load the
  slot's sequence, about to compare and swap, about to store the message, about to publish
  the sequence, returned.
\<close>

datatype enq_pc =
    EnqStart
  | EnqSeq size_t
  | EnqCas size_t
  | EnqMsg size_t
  | EnqPub size_t
  | EnqRet bool

text \<open>
  One step of \<^verbatim>\<open>try_enqueue(message)\<close>. \<open>spurious\<close> is the weak compare-exchange failing
  although the value matches.
\<close>

primrec enq_step :: "bool \<Rightarrow> addr \<Rightarrow> mail_queue \<Rightarrow> enq_pc \<Rightarrow> (mail_queue \<times> enq_pc) res" where
  "enq_step spurious message q EnqStart = Inr (q, EnqSeq (mq_write_index q))"
| "enq_step spurious message q (EnqSeq write_idx) =
     res_bind (ptrdiff_sub (slot_sequence (mq_slot q write_idx)) write_idx)
       (\<lambda>diff. Inr (q, if diff < 0 then EnqRet False
                       else if diff = 0 then EnqCas write_idx
                       else EnqStart))"
| "enq_step spurious message q (EnqCas write_idx) =
     (if mq_write_index q = write_idx \<and> \<not> spurious
      then Inr (q\<lparr>mq_write_index := write_idx + 1\<rparr>, EnqMsg write_idx)
      else Inr (q, EnqStart))"
| "enq_step spurious message q (EnqMsg write_idx) =
     Inr (mq_set_slot q write_idx ((mq_slot q write_idx)\<lparr>slot_message := Some message\<rparr>),
          EnqPub write_idx)"
| "enq_step spurious message q (EnqPub write_idx) =
     Inr (mq_set_slot q write_idx ((mq_slot q write_idx)\<lparr>slot_sequence := write_idx + 1\<rparr>),
          EnqRet True)"
| "enq_step spurious message q (EnqRet b) = Inr (q, EnqRet b)"

text \<open>
  A thread running \<^verbatim>\<open>try_enqueue\<close> alone. The list gives, step by step, whether a weak
  compare-exchange at that step fails spuriously; a run that has not returned when the list is
  used up is \<open>None\<close>.
\<close>

fun enq_run :: "bool list \<Rightarrow> addr \<Rightarrow> mail_queue \<Rightarrow> enq_pc \<Rightarrow> (bool \<times> mail_queue) res option" where
  "enq_run os message q (EnqRet b) = Some (Inr (b, q))"
| "enq_run [] message q pc = None"
| "enq_run (spurious # os) message q pc =
     (case enq_step spurious message q pc of
        Inl e \<Rightarrow> Some (Inl e)
      | Inr (q', pc') \<Rightarrow> enq_run os message q' pc')"

text \<open>The uncontended call: five steps when no compare-exchange fails spuriously.\<close>

definition try_enqueue :: "addr \<Rightarrow> mail_queue \<Rightarrow> (bool \<times> mail_queue) res option" where
  "try_enqueue message q = enq_run (replicate 5 False) message q EnqStart"

section \<open>try_dequeue and can_dequeue\<close>

text \<open>
  Where the consumer is inside \<^verbatim>\<open>try_dequeue\<close>: about to load the read index, the slot's
  sequence, the message; about to null the slot, to advance the read index, to release the
  slot; returned, with the message unless the queue was empty.
\<close>

datatype deq_pc =
    DeqStart
  | DeqSeq size_t
  | DeqMsg size_t
  | DeqNull size_t "addr option"
  | DeqIdx size_t "addr option"
  | DeqRel size_t "addr option"
  | DeqRet "addr option option"

primrec deq_step :: "mail_queue \<Rightarrow> deq_pc \<Rightarrow> (mail_queue \<times> deq_pc) res" where
  "deq_step q DeqStart = Inr (q, DeqSeq (mq_read_index q))"
| "deq_step q (DeqSeq read_idx) =
     res_bind (ptrdiff_sub (slot_sequence (mq_slot q read_idx)) (read_idx + 1))
       (\<lambda>diff. Inr (q, if diff < 0 then DeqRet None else DeqMsg read_idx))"
| "deq_step q (DeqMsg read_idx) = Inr (q, DeqNull read_idx (slot_message (mq_slot q read_idx)))"
| "deq_step q (DeqNull read_idx m) =
     Inr (mq_set_slot q read_idx ((mq_slot q read_idx)\<lparr>slot_message := None\<rparr>),
          DeqIdx read_idx m)"
| "deq_step q (DeqIdx read_idx m) = Inr (q\<lparr>mq_read_index := read_idx + 1\<rparr>, DeqRel read_idx m)"
| "deq_step q (DeqRel read_idx m) =
     Inr (mq_set_slot q read_idx ((mq_slot q read_idx)\<lparr>slot_sequence := read_idx + mq_size q\<rparr>),
          DeqRet (Some m))"
| "deq_step q (DeqRet r) = Inr (q, DeqRet r)"

fun deq_run :: "nat \<Rightarrow> mail_queue \<Rightarrow> deq_pc \<Rightarrow> (addr option option \<times> mail_queue) res option" where
  "deq_run k q (DeqRet r) = Some (Inr (r, q))"
| "deq_run 0 q pc = None"
| "deq_run (Suc k) q pc =
     (case deq_step q pc of
        Inl e \<Rightarrow> Some (Inl e)
      | Inr (q', pc') \<Rightarrow> deq_run k q' pc')"

text \<open>\<^verbatim>\<open>try_dequeue\<close> has no loop: at most six steps.\<close>

definition try_dequeue :: "mail_queue \<Rightarrow> (addr option option \<times> mail_queue) res option" where
  "try_dequeue q = deq_run 6 q DeqStart"

definition can_dequeue :: "mail_queue \<Rightarrow> bool res" where
  "can_dequeue q =
     (let read_idx = mq_read_index q
      in res_bind (ptrdiff_sub (slot_sequence (mq_slot q read_idx)) (read_idx + 1))
           (\<lambda>diff. Inr (diff \<ge> 0)))"

section \<open>Slots\<close>

text \<open>The shape that the constructor sets up and no operation changes.\<close>

definition mq_shape :: "nat \<Rightarrow> mail_queue \<Rightarrow> bool" where
  "mq_shape n q \<longleftrightarrow>
     has_single_bit (of_nat n) \<and> 2 \<le> n \<and> n < index_limit
     \<and> mq_size q = of_nat n \<and> mq_mask q = of_nat n - 1 \<and> length (mq_queue q) = n"

lemma mq_shape_pos: "mq_shape n q \<Longrightarrow> 0 < n"
  by (simp add: mq_shape_def)

lemma slot_pos_of_nat:
  assumes "mq_shape n q" "k < index_limit"
  shows "slot_pos q (of_nat k) = k mod n"
proof -
  have "unat (of_nat n :: size_t) = n" "unat (of_nat k :: size_t) = k"
    using assms by (simp_all add: mq_shape_def unat_of_nat_limit)
  moreover have "has_single_bit (of_nat n)" "mq_mask q = of_nat n - 1"
    using assms(1) by (simp_all add: mq_shape_def)
  ultimately show ?thesis
    using unat_and_mask [of "of_nat n" "of_nat k"] by (simp add: slot_pos_def)
qed

lemma slot_pos_unat:
  assumes "mq_shape n q"
  shows "slot_pos q idx = unat idx mod n"
proof -
  have "has_single_bit (of_nat n)" "mq_mask q = of_nat n - 1" "unat (of_nat n :: size_t) = n"
    using assms by (simp_all add: mq_shape_def unat_of_nat_limit)
  then show ?thesis
    using unat_and_mask [of "of_nat n" idx] by (simp add: slot_pos_def)
qed

lemma mq_slot_of_nat:
  "mq_shape n q \<Longrightarrow> k < index_limit \<Longrightarrow> mq_slot q (of_nat k) = mq_queue q ! (k mod n)"
  by (simp add: mq_slot_def slot_pos_of_nat)

lemma mq_shape_slot_pos: "mq_shape n q \<Longrightarrow> slot_pos q idx < n"
  using unat_and_mask_less [of "of_nat n" idx]
  by (simp add: mq_shape_def slot_pos_def unat_of_nat_limit)

lemma mq_set_slot_simps [simp]:
  "mq_write_index (mq_set_slot q idx sl) = mq_write_index q"
  "mq_read_index (mq_set_slot q idx sl) = mq_read_index q"
  "mq_size (mq_set_slot q idx sl) = mq_size q"
  "mq_mask (mq_set_slot q idx sl) = mq_mask q"
  "mq_queue (mq_set_slot q idx sl) = (mq_queue q)[slot_pos q idx := sl]"
  by (simp_all add: mq_set_slot_def)

lemma Slot_written [simp]:
  "sl\<lparr>slot_message := m, slot_sequence := i\<rparr> = \<lparr>slot_sequence = i, slot_message = m\<rparr>"
  by (cases sl) simp

lemma mq_shape_set_slot [simp]: "mq_shape n (mq_set_slot q idx sl) = mq_shape n q"
  by (simp add: mq_shape_def)

lemma mq_shape_indices [simp]:
  "mq_shape n (q\<lparr>mq_write_index := i\<rparr>) = mq_shape n q"
  "mq_shape n (q\<lparr>mq_read_index := i\<rparr>) = mq_shape n q"
  by (simp_all add: mq_shape_def)

lemma enq_step_shape: "enq_step sp m q pc = Inr (q', pc') \<Longrightarrow> mq_shape n q' = mq_shape n q"
  by (cases pc) (auto simp: res_bind_Inr_iff split: if_splits)

lemma deq_step_shape: "deq_step q pc = Inr (q', pc') \<Longrightarrow> mq_shape n q' = mq_shape n q"
  by (cases pc) (auto simp: res_bind_Inr_iff split: if_splits)

section \<open>The queue between calls\<close>

text \<open>
  What the words in memory mean while no thread is inside an operation: the contents \<open>xs\<close>,
  oldest first, with \<open>R\<close> messages dequeued before them. The slot of ticket \<open>k\<close> carries the
  sequence \<open>k + 1\<close> and a message when it is filled, and the sequence \<open>k\<close> when it is free.
\<close>

definition slot_holds :: "nat \<Rightarrow> addr list \<Rightarrow> nat \<Rightarrow> Slot \<Rightarrow> bool" where
  "slot_holds R xs k sl \<longleftrightarrow>
     (if k < R + length xs
      then sl = \<lparr>slot_sequence = of_nat (Suc k), slot_message = Some (xs ! (k - R))\<rparr>
      else slot_sequence sl = of_nat k)"

definition mq_rep :: "nat \<Rightarrow> nat \<Rightarrow> addr list \<Rightarrow> mail_queue \<Rightarrow> bool" where
  "mq_rep n R xs q \<longleftrightarrow>
     mq_shape n q \<and> length xs \<le> n \<and> R + length xs + n < index_limit
     \<and> mq_read_index q = of_nat R \<and> mq_write_index q = of_nat (R + length xs)
     \<and> (\<forall>k. R \<le> k \<and> k < R + n \<longrightarrow> slot_holds R xs k (mq_queue q ! (k mod n)))"

lemma mq_rep_shape: "mq_rep n R xs q \<Longrightarrow> mq_shape n q"
  by (simp add: mq_rep_def)

lemma mq_rep_filled:
  "mq_rep n R xs q \<Longrightarrow> i < length xs \<Longrightarrow>
   mq_slot q (of_nat (R + i)) = \<lparr>slot_sequence = of_nat (Suc (R + i)), slot_message = Some (xs ! i)\<rparr>"
  using mq_slot_of_nat [of n q "R + i"] by (auto simp: mq_rep_def slot_holds_def)

lemma mq_rep_unique:
  assumes "mq_rep n R xs q" "mq_rep n R' xs' q"
  shows "R = R' \<and> xs = xs'"
proof -
  have small: "unat (of_nat k :: size_t) = k" if "k < index_limit" for k using that by (intro unat_of_nat64) simp
  have idx: "unat (mq_read_index q) = S" "unat (mq_write_index q) = S + length ys" if "mq_rep n S ys q" for S ys
  proof -
    have "S < index_limit" "S + length ys < index_limit" "mq_read_index q = of_nat S" "mq_write_index q = of_nat (S + length ys)"
      using that by (auto simp: mq_rep_def)
    then show "unat (mq_read_index q) = S" "unat (mq_write_index q) = S + length ys" using small by metis+
  qed
  have R: "R = R'" "length xs = length xs'" using idx [OF assms(1)] idx [OF assms(2)] by simp_all
  have "xs ! i = xs' ! i" if "i < length xs" for i
    using mq_rep_filled [OF assms(1) that] mq_rep_filled [OF assms(2), of i] that R by simp
  then show ?thesis using R by (simp add: nth_equalityI)
qed

lemma mq_rep_free:
  "mq_rep n R xs q \<Longrightarrow> length xs \<le> i \<Longrightarrow> i < n \<Longrightarrow>
   slot_sequence (mq_slot q (of_nat (R + i))) = of_nat (R + i)"
  using mq_slot_of_nat [of n q "R + i"] by (auto simp: mq_rep_def slot_holds_def)

text \<open>A full ring: the slot of the next ticket is the one of the oldest message.\<close>

lemma mq_rep_wrapped:
  assumes "mq_rep n R xs q" "length xs = n"
  shows "mq_slot q (of_nat (R + n)) = mq_slot q (of_nat R)"
  using assms mq_slot_of_nat [of n q "R + n"] mq_slot_of_nat [of n q R]
  by (simp add: mq_rep_def)

text \<open>Filling the slot at the end and freeing the slot at the front.\<close>

lemma mq_rep_append:
  assumes rep: "mq_rep n R xs q" and "length xs < n" "R + length xs + n + 1 < index_limit"
    and q': "q' = q\<lparr>mq_write_index := of_nat (Suc (R + length xs)),
                   mq_queue := (mq_queue q)[(R + length xs) mod n :=
                     \<lparr>slot_sequence = of_nat (Suc (R + length xs)), slot_message = Some m\<rparr>]\<rparr>"
  shows "mq_rep n R (xs @ [m]) q'"
proof -
  have shape: "mq_shape n q" using rep by (simp add: mq_rep_def)
  have "slot_holds R (xs @ [m]) k (mq_queue q' ! (k mod n))"
    if k: "R \<le> k" "k < R + n" for k
  proof (cases "k = R + length xs")
    case True
    then show ?thesis using shape mq_shape_pos [OF shape] by (simp add: q' mq_shape_def slot_holds_def)
  next
    case False
    have "k mod n \<noteq> (R + length xs) mod n"
      using mod_window_eq [of k n "R + length xs"] mod_window_eq [of "R + length xs" n k] k False
        assms(2) by (cases "k \<le> R + length xs") auto
    moreover have "k < Suc (R + length xs) \<longleftrightarrow> k < R + length xs"
      "k < R + length xs \<Longrightarrow> k - R < length xs" using False k by auto
    ultimately show ?thesis using rep k by (simp add: q' mq_rep_def slot_holds_def nth_append)
  qed
  then show ?thesis using rep assms(2,3) shape by (simp add: q' mq_rep_def mq_shape_def)
qed

lemma mq_rep_pop:
  assumes rep: "mq_rep n R (x # xs) q" and "R + length xs + 1 + n < index_limit"
    and q': "q' = q\<lparr>mq_read_index := of_nat (Suc R),
                   mq_queue := (mq_queue q)[R mod n :=
                     \<lparr>slot_sequence = of_nat (R + n), slot_message = None\<rparr>]\<rparr>"
  shows "mq_rep n (Suc R) xs q'"
proof -
  have shape: "mq_shape n q" using rep by (simp add: mq_rep_def)
  have "slot_holds (Suc R) xs k (mq_queue q' ! (k mod n))"
    if k: "Suc R \<le> k" "k < Suc R + n" for k
  proof (cases "k = R + n")
    case True
    then show ?thesis using shape rep mq_shape_pos [OF shape]
      by (simp add: q' mq_shape_def mq_rep_def slot_holds_def)
  next
    case False
    have "k mod n \<noteq> R mod n"
      using mod_window_eq [of R n k] k False by auto
    then show ?thesis using rep k False by (auto simp: q' mq_rep_def slot_holds_def Suc_diff_Suc nth_Cons')
  qed
  then show ?thesis using rep assms(2) shape by (simp add: q' mq_rep_def mq_shape_def)
qed

section \<open>The uncontended operations\<close>

lemma enq_run_EnqStart:
  "enq_run (sp # os) m q EnqStart = enq_run os m q (EnqSeq (mq_write_index q))"
  by simp

lemma try_dequeue_unfold: "try_dequeue q = deq_run (Suc (Suc (Suc (Suc (Suc (Suc 0)))))) q DeqStart"
  by (simp add: try_dequeue_def eval_nat_numeral)

lemma try_enqueue_unfold:
  "try_enqueue m q = enq_run [False, False, False, False, False] m q EnqStart"
  by (simp add: try_enqueue_def eval_nat_numeral)

lemma try_enqueue_full:
  assumes rep: "mq_rep n R xs q" and "length xs = n"
  shows "try_enqueue m q = Some (Inr (False, q))"
proof -
  have lim: "R + n < index_limit" "Suc R < index_limit" "2 \<le> n"
    using assms by (auto simp: mq_rep_def mq_shape_def)
  have w: "mq_write_index q = of_nat (R + n)" using assms by (simp add: mq_rep_def)
  have "slot_sequence (mq_slot q (of_nat (R + n))) = of_nat (Suc R)"
    using mq_rep_wrapped [OF assms] mq_rep_filled [OF rep, of 0] assms(2) lim(3) by simp
  then have "ptrdiff_sub (slot_sequence (mq_slot q (of_nat (R + n)))) (of_nat (R + n))
      = Inr (int (Suc R) - int (R + n))"
    using ptrdiff_sub_of_nat [OF lim(2,1)] by simp
  then show ?thesis
    using lim(3) by (simp add: try_enqueue_unfold w del: of_nat_add of_nat_Suc)
qed

lemma enq_from_free_slot:
  assumes rep: "mq_rep n R xs q" and room: "length xs < n"
  shows "ptrdiff_sub (slot_sequence (mq_slot q (of_nat (R + length xs)))) (of_nat (R + length xs)) = Inr 0"
  using mq_rep_free [OF rep le_refl room] ptrdiff_sub_of_nat [of "R + length xs" "R + length xs"] rep
  by (simp add: mq_rep_def del: of_nat_add)

lemma enq_commit:
  assumes rep: "mq_rep n R xs q" and room: "length xs < n" "R + length xs + n + 1 < index_limit"
  shows "\<exists>q'. enq_run [a, b] m (q\<lparr>mq_write_index := of_nat (R + length xs) + 1\<rparr>)
               (EnqMsg (of_nat (R + length xs))) = Some (Inr (True, q'))
            \<and> mq_rep n R (xs @ [m]) q'"
proof -
  let ?W = "R + length xs"
  have shape: "mq_shape n q" using rep by (rule mq_rep_shape)
  have lim: "?W < index_limit" using room(2) by simp
  have pos: "slot_pos q' (of_nat ?W) = ?W mod n" if "mq_mask q' = mq_mask q" for q'
    using slot_pos_of_nat [OF shape lim] that by (simp add: slot_pos_def)
  have len: "?W mod n < length (mq_queue q)"
    using shape mq_shape_pos [OF shape] by (simp add: mq_shape_def)
  show ?thesis
    by (intro exI conjI, simp del: of_nat_add)
      (rule mq_rep_append [OF rep room],
       simp add: mq_set_slot_def mq_slot_def pos len add.commute del: of_nat_add)
qed

lemma enq_run_claim:
  assumes rep: "mq_rep n R xs q" and room: "length xs < n"
  shows "enq_run (a # b # sp # os) m q EnqStart =
    (if sp then enq_run os m q EnqStart
     else enq_run os m (q\<lparr>mq_write_index := of_nat (R + length xs) + 1\<rparr>)
            (EnqMsg (of_nat (R + length xs))))"
proof -
  have "mq_write_index q = of_nat (R + length xs)" using rep by (simp add: mq_rep_def)
  then show ?thesis
    using enq_from_free_slot [OF assms] by (simp del: of_nat_add)
qed

lemma try_enqueue_room:
  assumes "mq_rep n R xs q" "length xs < n" "R + length xs + n + 1 < index_limit"
  shows "\<exists>q'. try_enqueue m q = Some (Inr (True, q')) \<and> mq_rep n R (xs @ [m]) q'"
  using enq_run_claim [OF assms(1,2)] enq_commit [OF assms]
  by (simp add: try_enqueue_unfold del: of_nat_add enq_run.simps)

text \<open>Compare-exchange operations that fail spuriously only cost further rounds of the loop.\<close>

lemma enq_run_spurious:
  assumes "mq_rep n R xs q" "length xs < n"
  shows "enq_run (concat (replicate j [False, False, True]) @ replicate 5 False) m q EnqStart =
    try_enqueue m q"
proof (induction j)
  case 0
  show ?case by (simp add: try_enqueue_def)
next
  case (Suc j)
  then show ?case using enq_run_claim [OF assms] by (simp del: enq_run.simps)
qed

lemma deq_head_diff:
  assumes rep: "mq_rep n R (x # xs) q"
  shows "ptrdiff_sub (slot_sequence (mq_slot q (of_nat R))) (of_nat R + 1) = Inr 0"
  using mq_rep_filled [OF rep, of 0] ptrdiff_sub_of_nat [of "Suc R" "Suc R"] rep
  by (simp add: mq_rep_def add.commute)

lemma deq_empty_diff:
  assumes rep: "mq_rep n R [] q"
  shows "ptrdiff_sub (slot_sequence (mq_slot q (of_nat R))) (of_nat R + 1) = Inr (- 1)"
  using mq_rep_free [OF rep, of 0] ptrdiff_sub_of_nat [of R "Suc R"] rep
  by (simp add: mq_rep_def mq_shape_def add.commute)

lemma try_dequeue_empty: "mq_rep n R [] q \<Longrightarrow> try_dequeue q = Some (Inr (None, q))"
  using deq_empty_diff [of n R q] by (simp add: try_dequeue_unfold mq_rep_def)

lemma try_dequeue_next:
  assumes rep: "mq_rep n R (x # xs) q" and lim: "R + length xs + 1 + n < index_limit"
  shows "\<exists>q'. try_dequeue q = Some (Inr (Some (Some x), q')) \<and> mq_rep n (Suc R) xs q'"
proof -
  have shape: "mq_shape n q" and r: "mq_read_index q = of_nat R" and sz: "mq_size q = of_nat n"
    using rep by (simp_all add: mq_rep_def mq_shape_def)
  have msg: "slot_message (mq_slot q (of_nat R)) = Some x"
    using mq_rep_filled [OF rep, of 0] by simp
  have pos: "slot_pos q' (of_nat R) = R mod n" if "mq_mask q' = mq_mask q" for q'
    using slot_pos_of_nat [OF shape, of R] lim that by (simp add: slot_pos_def)
  have len: "R mod n < length (mq_queue q)"
    using shape mq_shape_pos [OF shape] by (simp add: mq_shape_def)
  show ?thesis
    by (intro exI conjI, simp add: try_dequeue_unfold r deq_head_diff [OF rep] msg)
      (rule mq_rep_pop [OF rep lim],
       simp add: mq_set_slot_def mq_slot_def pos len sz add.commute)
qed

lemma can_dequeue_rep:
  assumes "mq_rep n R xs q"
  shows "can_dequeue q = Inr (xs \<noteq> [])"
proof -
  have "mq_read_index q = of_nat R" using assms by (simp add: mq_rep_def)
  then show ?thesis
    using assms deq_empty_diff [of n R q] deq_head_diff [of n R _ _ q]
    by (cases xs) (simp_all add: can_dequeue_def)
qed

section \<open>Construction\<close>

lemma bit_ceil_pow2:
  assumes "x \<le> 2 ^ k" "k < 64" "\<And>j. j < k \<Longrightarrow> \<not> x \<le> 2 ^ j"
  shows "bit_ceil x = Inr (2 ^ k)"
proof -
  have "find (\<lambda>k. x \<le> 2 ^ k) [0..<64] = Some k"
    unfolding find_Some_iff
    by (intro exI [of _ k] conjI) (use assms in auto)
  then show ?thesis by (simp add: bit_ceil_def)
qed

text \<open>The default size, \<^verbatim>\<open>kMailBoxSize\<close>, is already a power of two.\<close>

definition kMailBoxSize :: size_t where
  "kMailBoxSize = push_bit 8 1"

lemma bit_ceil_Inr: "bit_ceil sz = Inr n \<Longrightarrow> has_single_bit n \<and> sz \<le> n"
  by (auto simp: bit_ceil_def has_single_bit_def find_Some_iff split: option.splits)

lemma unat_single_bit_bound: "has_single_bit n \<Longrightarrow> unat n \<le> index_limit"
proof -
  assume "has_single_bit n"
  then obtain k where "k < 64" "n = 2 ^ k" by (auto simp: has_single_bit_def)
  moreover have "(2 :: nat) ^ k \<le> 2 ^ 63" using \<open>k < 64\<close> by (intro power_increasing) auto
  ultimately show ?thesis by (simp add: unat_pow2)
qed

lemma mail_queue_new_rep:
  assumes new: "mail_queue_new sz = Inr q" and "2 \<le> unat sz" and lim: "unat (mq_size q) < index_limit"
  shows "mq_rep (unat (mq_size q)) 0 [] q"
proof -
  obtain m where m: "bit_ceil sz = Inr m" "mq_size q = m" "mq_mask q = m - 1"
    "mq_queue q = map (\<lambda>i. \<lparr>slot_sequence = of_nat i, slot_message = None\<rparr>) [0..<unat m]"
    "mq_write_index q = 0" "mq_read_index q = 0"
    using new by (auto simp: mail_queue_new_def res_bind_Inr_iff)
  have "has_single_bit m" "sz \<le> m" using bit_ceil_Inr [OF m(1)] by auto
  then have "2 \<le> unat m" using assms(2) by (simp add: word_le_nat_alt)
  then show ?thesis using m lim \<open>has_single_bit m\<close> by (simp add: mq_rep_def mq_shape_def slot_holds_def)
qed

section \<open>The queue meets its contract\<close>

text \<open>A representation with room for \<open>b\<close> more operations below the index limit.\<close>

definition mq_contents :: "nat \<Rightarrow> nat \<Rightarrow> addr list \<Rightarrow> mail_queue \<Rightarrow> bool" where
  "mq_contents n b xs q \<longleftrightarrow> (\<exists>R. mq_rep n R xs q \<and> R + length xs + n + b < index_limit)"

interpretation mail_fifo: bounded_fifo try_enqueue try_dequeue Some n "mq_contents n" for n
proof
  show "length xs \<le> n" if "mq_contents n b xs q" for b xs q
    using that by (auto simp: mq_contents_def mq_rep_def)
next
  fix b xs q x
  assume "mq_contents n (Suc b) xs q" and room: "length xs < n"
  then obtain R where R: "mq_rep n R xs q" "R + length xs + n + Suc b < index_limit"
    by (auto simp: mq_contents_def)
  then obtain q' where "try_enqueue x q = Some (Inr (True, q'))" "mq_rep n R (xs @ [x]) q'"
    using try_enqueue_room [OF R(1) room] by auto
  then show "\<exists>q'. try_enqueue x q = Some (Inr (True, q')) \<and> mq_contents n b (xs @ [x]) q'"
    using R(2) by (auto simp: mq_contents_def)
next
  fix b xs q x
  assume "mq_contents n (Suc b) xs q" and full: "length xs = n"
  then obtain R where R: "mq_rep n R xs q" "R + length xs + n + Suc b < index_limit"
    by (auto simp: mq_contents_def)
  then have "mq_contents n b xs q" by (auto simp: mq_contents_def)
  then show "\<exists>q'. try_enqueue x q = Some (Inr (False, q')) \<and> mq_contents n b xs q'"
    using try_enqueue_full [OF R(1) full] by blast
next
  fix b q
  assume "mq_contents n (Suc b) [] q"
  then obtain R where R: "mq_rep n R [] q" "R + n + Suc b < index_limit"
    by (auto simp: mq_contents_def)
  then have "mq_contents n b [] q" by (auto simp: mq_contents_def)
  then show "\<exists>q'. try_dequeue q = Some (Inr (None, q')) \<and> mq_contents n b [] q'"
    using try_dequeue_empty [OF R(1)] by blast
next
  fix b x xs q
  assume "mq_contents n (Suc b) (x # xs) q"
  then obtain R where R: "mq_rep n R (x # xs) q" "R + length (x # xs) + n + Suc b < index_limit"
    by (auto simp: mq_contents_def)
  then obtain q' where "try_dequeue q = Some (Inr (Some (Some x), q'))" "mq_rep n (Suc R) xs q'"
    using try_dequeue_next [OF R(1)] by auto
  then show "\<exists>q'. try_dequeue q = Some (Inr (Some (Some x), q')) \<and> mq_contents n b xs q'"
    using R(2) by (auto simp: mq_contents_def)
qed

section \<open>Properties\<close>

text \<open>
  C26: a mail queue built for two or more messages and used one call at a time is a bounded
  first-in first-out queue whose capacity is the requested size rounded up to a power of two.
  Every sequence of calls returns what the list specification says, no call faults or fails to
  return, and afterwards \<^verbatim>\<open>can_dequeue\<close> tells whether something is left.
\<close>

theorem mail_queue_refines_fifo:
  assumes "mail_queue_new sz = Inr q" and "2 \<le> unat sz"
    and "unat (mq_size q) + length ops < index_limit"
    and "fifo_exec (unat (mq_size q)) ops [] = (rs, ys)"
  shows "\<exists>q'. queue_exec try_enqueue try_dequeue ops q = Some (Inr (map (map_queue_ret Some) rs, q'))
            \<and> can_dequeue q' = Inr (ys \<noteq> [])"
proof -
  let ?n = "unat (mq_size q)"
  have "mq_rep ?n 0 [] q" using mail_queue_new_rep [OF assms(1,2)] assms(3) by simp
  then have "mq_contents ?n (length ops + 0) [] q" using assms(3) by (auto simp: mq_contents_def)
  from mail_fifo.exec_refines_fifo [OF this assms(4)] obtain q' where
    q': "queue_exec try_enqueue try_dequeue ops q = Some (Inr (map (map_queue_ret Some) rs, q'))"
    "mq_contents ?n 0 ys q'" by blast
  then have "can_dequeue q' = Inr (ys \<noteq> [])" by (auto simp: mq_contents_def can_dequeue_rep)
  with q'(1) show ?thesis by blast
qed

theorem mail_queue_refines_fifo_witness:
  "\<exists>q q'. mail_queue_new 2 = Inr q \<and> queue_exec try_enqueue try_dequeue
       [Enqueue 7, Enqueue 8, Enqueue 9, Dequeue] q =
     Some (Inr ([Enqueued True, Enqueued True, Enqueued False, Dequeued (Some (Some 7))], q'))
     \<and> can_dequeue q' = Inr True"
proof -
  have new: "bit_ceil 2 = Inr 2" by code_simp
  then obtain q where q: "mail_queue_new 2 = Inr q" "mq_size q = 2"
    by (simp add: mail_queue_new_def)
  have spec: "fifo_exec (unat (mq_size q)) [Enqueue (7::addr), Enqueue 8, Enqueue 9, Dequeue] [] =
      ([Enqueued True, Enqueued True, Enqueued False, Dequeued (Some 7)], [8])"
    by (simp add: q(2))
  show ?thesis
    using mail_queue_refines_fifo [OF q(1) _ _ spec] q by auto
qed

text \<open>
  The weak compare-exchange of \<^verbatim>\<open>try_enqueue\<close> may fail spuriously any number of times: with
  room in the queue the call still returns, and with the same result.
\<close>

theorem try_enqueue_spurious_failures:
  assumes "mq_rep n R xs q" and "length xs < n" and "R + length xs + n + 1 < index_limit"
  shows "\<exists>q'. enq_run (concat (replicate j [False, False, True]) @ replicate 5 False) m q EnqStart
               = Some (Inr (True, q'))
            \<and> mq_rep n R (xs @ [m]) q'"
  using enq_run_spurious [OF assms(1,2)] try_enqueue_room [OF assms] by simp

text \<open>
  C38: a mail queue of one slot does not work, although the constructor accepts the size: a
  filled slot carries the sequence that a free slot would, so a second \<^verbatim>\<open>try_enqueue\<close> reports
  success and overwrites the message that was not delivered yet.
\<close>

theorem one_slot_queue_loses_message:
  "\<exists>q q'. mail_queue_new 1 = Inr q \<and> mq_size q = 1
     \<and> queue_exec try_enqueue try_dequeue [Enqueue m, Enqueue m', Dequeue, Dequeue] q =
         Some (Inr ([Enqueued True, Enqueued True, Dequeued (Some (Some m')), Dequeued None], q'))"
proof -
  have "bit_ceil 1 = Inr 1" by code_simp
  then have q: "mail_queue_new 1 = Inr \<lparr>mq_write_index = 0, mq_read_index = 0,
      mq_queue = [\<lparr>slot_sequence = 0, slot_message = None\<rparr>], mq_size = 1, mq_mask = 0\<rparr>"
    by (simp add: mail_queue_new_def)
  show ?thesis
    by (intro exI conjI, rule q)
      (simp_all add: try_enqueue_unfold try_dequeue_unfold ptrdiff_sub_def mq_slot_def slot_pos_def
        mq_set_slot_def)
qed

end
