(* ===== verification/Schedules.thy ===== *)
theory Schedules
  imports Prelude
begin

text \<open>
  What the concurrent models have in common. Each has actions, a function that performs one of them, and a function that
  performs a list of them, a schedule. The locales below state this as an interface, with the induction over
  schedules done once; the queues, the scheduler, the mailbox protocol, the event bus and the
  tasks are instances.
\<close>

section \<open>Schedules as relations\<close>

text \<open>\<open>step a s t\<close>: action \<open>a\<close> leads from \<open>s\<close> to \<open>t\<close>; \<open>exec\<close> is the same for a schedule.\<close>

locale schedules =
  fixes step :: "'a \<Rightarrow> 's \<Rightarrow> 's \<Rightarrow> bool" and exec :: "'a list \<Rightarrow> 's \<Rightarrow> 's \<Rightarrow> bool"
  assumes exec_Nil: "exec [] s t \<longleftrightarrow> t = s"
    and exec_Cons: "exec (a # acts) s t \<longleftrightarrow> (\<exists>u. step a s u \<and> exec acts u t)"
begin

lemma exec_append: "exec (acts @ acts') s t \<longleftrightarrow> (\<exists>u. exec acts s u \<and> exec acts' u t)"
  by (induction acts arbitrary: s) (auto simp: exec_Nil exec_Cons)

text \<open>A property kept by every action holds after every schedule.\<close>

lemma exec_invariant:
  assumes "\<And>a s t. I s \<Longrightarrow> step a s t \<Longrightarrow> I t"
  shows "exec acts s t \<Longrightarrow> I s \<Longrightarrow> I t"
  by (induction acts arbitrary: s) (auto simp: exec_Nil exec_Cons dest: assms)

text \<open>
  Progress: when every action is possible and leads from the \<open>c\<close>-th property to the next, up to a limit, every
  schedule that stays within the limit is possible.
\<close>

lemma exec_budget:
  assumes "\<And>c a s. I c s \<Longrightarrow> c < lim \<Longrightarrow> \<exists>t. step a s t \<and> I (Suc c) t"
  shows "I c s \<Longrightarrow> c + length acts \<le> lim \<Longrightarrow> \<exists>t. exec acts s t \<and> I (c + length acts) t"
proof (induction acts arbitrary: c s)
  case (Cons a acts)
  then obtain u where "step a s u" "I (Suc c) u" using assms [of c s a] by auto
  then show ?case using Cons.IH [of "Suc c" u] Cons.prems(2) by (auto simp: exec_Cons)
qed (simp add: exec_Nil)

text \<open>The same with the remaining budget, when an action may be possible only in some states.\<close>

lemma exec_guarded:
  assumes "\<And>a s. I s \<Longrightarrow> ok a s \<Longrightarrow> \<exists>t. step a s t \<and> I t"
    and "\<And>acts s t a. guard (a # acts) s \<Longrightarrow> ok a s \<and> (step a s t \<longrightarrow> guard acts t)"
  shows "I s \<Longrightarrow> guard acts s \<Longrightarrow> \<exists>t. exec acts s t \<and> I t"
proof (induction acts arbitrary: s)
  case (Cons a acts)
  then have "ok a s" using assms(2) by blast
  then obtain u where "step a s u" "I u" using assms(1) Cons.prems(1) by blast
  then show ?case using Cons.IH [of u] assms(2) Cons.prems(2) by (auto simp: exec_Cons)
qed (simp add: exec_Nil)

text \<open>
  A rank that every action lowers bounds the length of a schedule; the rank is of something the state corresponds to, or of the
  state itself.
\<close>

lemma exec_ranked:
  assumes "\<And>a s t r. I r s \<Longrightarrow> step a s t \<Longrightarrow> \<exists>r'. I r' t \<and> rank r' < (rank r :: nat)"
  shows "exec acts s t \<Longrightarrow> I r s \<Longrightarrow> \<exists>r'. I r' t \<and> length acts + rank r' \<le> rank r"
proof (induction acts arbitrary: s r)
  case (Cons a acts)
  then obtain u where u: "step a s u" "exec acts u t" by (auto simp: exec_Cons)
  obtain r1 where r1: "I r1 u" "rank r1 < rank r" using assms [OF Cons.prems(2) u(1)] by blast
  obtain r' where "I r' t" "length acts + rank r' \<le> rank r1" using Cons.IH [OF u(2) r1(1)] by blast
  then show ?case using r1(2) by (intro exI [of _ r']) simp
qed (auto simp: exec_Nil)

lemma exec_measure:
  assumes "\<And>a s t. I s \<Longrightarrow> step a s t \<Longrightarrow> I t \<and> f t < (f s :: nat)"
  shows "exec acts s t \<Longrightarrow> I s \<Longrightarrow> length acts + f t \<le> f s"
  using exec_ranked [where I = "\<lambda>r s. I s \<and> r = f s" and rank = id, of acts s t "f s"] assms by simp

text \<open>Where schedules are bounded, one of them leads to a state without further actions.\<close>

lemma exec_maximal:
  assumes "\<And>acts t. exec acts s t \<Longrightarrow> length acts \<le> n"
  shows "\<exists>acts t. exec acts s t \<and> (\<forall>a u. \<not> step a t u)"
proof (rule ccontr)
  assume more: "\<nexists>acts t. exec acts s t \<and> (\<forall>a u. \<not> step a t u)"
  have "\<exists>acts t. exec acts s t \<and> length acts = k" for k
  proof (induction k)
    case (Suc k)
    then obtain acts t where acts: "exec acts s t" "length acts = k" by blast
    then obtain a u where "step a t u" using more by blast
    then have "exec (acts @ [a]) s u" using acts(1) by (auto simp: exec_append exec_Nil exec_Cons)
    then show ?case using acts(2) by (intro exI [of _ "acts @ [a]"] exI [of _ u]) simp
  qed (auto simp: exec_Nil)
  then obtain acts t where "exec acts s t" "length acts = Suc n" by blast
  then show False using assms by fastforce
qed

end

section \<open>Schedules of actions that may fault\<close>

locale faulting_schedules =
  fixes act :: "'a \<Rightarrow> 's \<Rightarrow> 's res" and run :: "'a list \<Rightarrow> 's \<Rightarrow> 's res"
  assumes run_Nil: "run [] s = Inr s"
    and run_Cons: "run (a # acts) s = res_bind (act a s) (run acts)"
begin

sublocale schedules "\<lambda>a s t. act a s = Inr t" "\<lambda>acts s t. run acts s = Inr t"
  by unfold_locales (auto simp: run_Nil run_Cons res_bind_Inr_iff)

text \<open>A fault of a schedule is one an action has in a state with the invariant.\<close>

lemma run_fault:
  assumes "\<And>a s t. I s \<Longrightarrow> act a s = Inr t \<Longrightarrow> I t" and "\<And>a s. I s \<Longrightarrow> act a s = Inl e \<Longrightarrow> P e"
  shows "run acts s = Inl e \<Longrightarrow> I s \<Longrightarrow> P e"
  by (induction acts arbitrary: s) (auto simp: run_Nil run_Cons res_bind_Inl_iff dest: assms)

end

end
