(* ===== verification/Mail_Queue_Concurrent.thy ===== *)
theory Mail_Queue_Concurrent
  imports Mail_Queue Schedules
begin

text \<open>
  Any number of producers inside \<^verbatim>\<open>try_enqueue\<close> and the one consumer inside \<^verbatim>\<open>try_dequeue\<close>,
  interleaved one atomic access at a time (sequentially consistent order). The state carries
  two history lists that the code does not have: the messages in the order in which their
  producers won the compare-exchange on \<^verbatim>\<open>write_index_\<close>, and the pointers that the consumer
  has read out of the slots.
\<close>

section \<open>The interleaved system\<close>

record mq_sys =
  sys_q :: mail_queue
  sys_prod :: "nat \<Rightarrow> (addr \<times> enq_pc) option"
  sys_cons :: "deq_pc option"
  sys_claimed :: "addr list"
  sys_taken :: "addr option list"

definition sys_start :: "mail_queue \<Rightarrow> mq_sys" where
  "sys_start q = \<lparr>sys_q = q, sys_prod = (\<lambda>_. None), sys_cons = None,
                  sys_claimed = [], sys_taken = []\<rparr>"

text \<open>What a step adds to the histories.\<close>

definition claims :: "addr \<Rightarrow> enq_pc \<Rightarrow> enq_pc \<Rightarrow> addr list" where
  "claims m pc pc' = (case (pc, pc') of (EnqCas _, EnqMsg _) \<Rightarrow> [m] | _ \<Rightarrow> [])"

definition takes :: "deq_pc \<Rightarrow> deq_pc \<Rightarrow> addr option list" where
  "takes pc pc' = (case (pc, pc') of (DeqMsg _, DeqNull _ m) \<Rightarrow> [m] | _ \<Rightarrow> [])"

inductive mq_step :: "mq_sys \<Rightarrow> mq_sys \<Rightarrow> bool" where
  enq_call: "sys_prod s p = None \<Longrightarrow>
     mq_step s (s\<lparr>sys_prod := (sys_prod s)(p \<mapsto> (m, EnqStart))\<rparr>)"
| enq_act: "sys_prod s p = Some (m, pc) \<Longrightarrow> enq_step sp m (sys_q s) pc = Inr (q', pc') \<Longrightarrow>
     mq_step s (s\<lparr>sys_q := q', sys_prod := (sys_prod s)(p \<mapsto> (m, pc')),
                 sys_claimed := sys_claimed s @ claims m pc pc'\<rparr>)"
| enq_return: "sys_prod s p = Some (m, EnqRet b) \<Longrightarrow>
     mq_step s (s\<lparr>sys_prod := (sys_prod s)(p := None)\<rparr>)"
| deq_call: "sys_cons s = None \<Longrightarrow> mq_step s (s\<lparr>sys_cons := Some DeqStart\<rparr>)"
| deq_act: "sys_cons s = Some pc \<Longrightarrow> deq_step (sys_q s) pc = Inr (q', pc') \<Longrightarrow>
     mq_step s (s\<lparr>sys_q := q', sys_cons := Some pc', sys_taken := sys_taken s @ takes pc pc'\<rparr>)"
| deq_return: "sys_cons s = Some (DeqRet r) \<Longrightarrow> mq_step s (s\<lparr>sys_cons := None\<rparr>)"

inductive mq_reachable :: "mail_queue \<Rightarrow> mq_sys \<Rightarrow> bool" for q where
  reach_start: "mq_reachable q (sys_start q)"
| reach_step: "mq_reachable q s \<Longrightarrow> mq_step s t \<Longrightarrow> mq_reachable q t"

text \<open>A scheduler's choices, and the run they give.\<close>

datatype mq_action =
    ProdCall nat addr | ProdStep nat bool | ProdReturn nat | ConsCall | ConsStep | ConsReturn

fun mq_act :: "mq_action \<Rightarrow> mq_sys \<Rightarrow> mq_sys option" where
  "mq_act (ProdCall p m) s = (case sys_prod s p of
      None \<Rightarrow> Some (s\<lparr>sys_prod := (sys_prod s)(p \<mapsto> (m, EnqStart))\<rparr>) | Some _ \<Rightarrow> None)"
| "mq_act (ProdStep p sp) s = (case sys_prod s p of
      None \<Rightarrow> None
    | Some (m, pc) \<Rightarrow> (case enq_step sp m (sys_q s) pc of
          Inl e \<Rightarrow> None
        | Inr (q', pc') \<Rightarrow> Some (s\<lparr>sys_q := q', sys_prod := (sys_prod s)(p \<mapsto> (m, pc')),
                                 sys_claimed := sys_claimed s @ claims m pc pc'\<rparr>)))"
| "mq_act (ProdReturn p) s = (case sys_prod s p of
      Some (m, EnqRet b) \<Rightarrow> Some (s\<lparr>sys_prod := (sys_prod s)(p := None)\<rparr>) | _ \<Rightarrow> None)"
| "mq_act ConsCall s = (case sys_cons s of
      None \<Rightarrow> Some (s\<lparr>sys_cons := Some DeqStart\<rparr>) | Some _ \<Rightarrow> None)"
| "mq_act ConsStep s = (case sys_cons s of
      None \<Rightarrow> None
    | Some pc \<Rightarrow> (case deq_step (sys_q s) pc of
          Inl e \<Rightarrow> None
        | Inr (q', pc') \<Rightarrow> Some (s\<lparr>sys_q := q', sys_cons := Some pc',
                                 sys_taken := sys_taken s @ takes pc pc'\<rparr>)))"
| "mq_act ConsReturn s = (case sys_cons s of
      Some (DeqRet r) \<Rightarrow> Some (s\<lparr>sys_cons := None\<rparr>) | _ \<Rightarrow> None)"

fun mq_run :: "mq_action list \<Rightarrow> mq_sys \<Rightarrow> mq_sys option" where
  "mq_run [] s = Some s"
| "mq_run (a # as) s = (case mq_act a s of None \<Rightarrow> None | Some t \<Rightarrow> mq_run as t)"

interpretation producers_consumer: schedules "\<lambda>a s t. mq_act a s = Some t" "\<lambda>as s t. mq_run as s = Some t"
  by unfold_locales (auto split: option.splits)

lemma mq_act_step: "mq_act a s = Some t \<Longrightarrow> mq_step s t"
  by (cases a) (auto split: option.splits sum.splits prod.splits enq_pc.splits deq_pc.splits
      intro: mq_step.intros)

lemma mq_step_act: "mq_step s t \<Longrightarrow> \<exists>a. mq_act a s = Some t"
proof (induction rule: mq_step.induct)
  case (enq_call s p m)
  then show ?case by (intro exI [of _ "ProdCall p m"]) simp
next
  case (enq_act s p m pc sp q' pc')
  then show ?case by (intro exI [of _ "ProdStep p sp"]) simp
next
  case (enq_return s p m b)
  then show ?case by (intro exI [of _ "ProdReturn p"]) simp
next
  case (deq_call s)
  then show ?case by (intro exI [of _ ConsCall]) simp
next
  case (deq_act s pc q' pc')
  then show ?case by (intro exI [of _ ConsStep]) simp
next
  case (deq_return s r)
  then show ?case by (intro exI [of _ ConsReturn]) simp
qed

lemma mq_run_reachable:
  "mq_run as s = Some t \<Longrightarrow> mq_reachable q s \<Longrightarrow> mq_reachable q t"
  by (erule producers_consumer.exec_invariant [rotated]) (auto intro: reach_step dest: mq_act_step)

section \<open>The invariant\<close>

abbreviation n_claimed :: "mq_sys \<Rightarrow> nat" where
  "n_claimed s \<equiv> length (sys_claimed s)"

abbreviation n_taken :: "mq_sys \<Rightarrow> nat" where
  "n_taken s \<equiv> length (sys_taken s)"

text \<open>Tickets whose slot has been given back to the producers.\<close>

definition mid_dequeue :: "mq_sys \<Rightarrow> bool" where
  "mid_dequeue s = (case sys_cons s of
      Some (DeqNull _ _) \<Rightarrow> True | Some (DeqIdx _ _) \<Rightarrow> True | Some (DeqRel _ _) \<Rightarrow> True
    | _ \<Rightarrow> False)"

definition released :: "mq_sys \<Rightarrow> nat" where
  "released s = (if mid_dequeue s then n_taken s - 1 else n_taken s)"

text \<open>A producer that has claimed ticket \<open>k\<close> and not published it yet.\<close>

definition holds_ticket :: "enq_pc \<Rightarrow> nat \<Rightarrow> bool" where
  "holds_ticket pc k = (case pc of EnqMsg w \<Rightarrow> unat w = k | EnqPub w \<Rightarrow> unat w = k | _ \<Rightarrow> False)"

definition pending :: "mq_sys \<Rightarrow> nat \<Rightarrow> bool" where
  "pending s k \<longleftrightarrow> (\<exists>p m pc. sys_prod s p = Some (m, pc) \<and> holds_ticket pc k)"

definition prod_ok :: "nat \<Rightarrow> mq_sys \<Rightarrow> addr \<Rightarrow> enq_pc \<Rightarrow> bool" where
  "prod_ok n s m pc = (case pc of
      EnqSeq w \<Rightarrow> unat w \<le> n_claimed s
    | EnqCas w \<Rightarrow> unat w \<le> n_claimed s \<and> (unat w = n_claimed s \<longrightarrow> n_claimed s < released s + n)
    | EnqMsg w \<Rightarrow> n_taken s \<le> unat w \<and> unat w < n_claimed s \<and> sys_claimed s ! unat w = m
    | EnqPub w \<Rightarrow> n_taken s \<le> unat w \<and> unat w < n_claimed s \<and> sys_claimed s ! unat w = m
                 \<and> slot_message (mq_queue (sys_q s) ! (unat w mod n)) = Some m
    | _ \<Rightarrow> True)"

definition cons_ok :: "mq_sys \<Rightarrow> bool" where
  "cons_ok s = (case sys_cons s of
       Some (DeqSeq i) \<Rightarrow> unat i = n_taken s \<and> mq_read_index (sys_q s) = i
     | Some (DeqMsg i) \<Rightarrow> unat i = n_taken s \<and> mq_read_index (sys_q s) = i
                         \<and> n_taken s < n_claimed s \<and> \<not> pending s (n_taken s)
     | Some (DeqNull i m) \<Rightarrow> Suc (unat i) = n_taken s \<and> mq_read_index (sys_q s) = i
     | Some (DeqIdx i m) \<Rightarrow> Suc (unat i) = n_taken s \<and> mq_read_index (sys_q s) = i
     | Some (DeqRel i m) \<Rightarrow> Suc (unat i) = n_taken s \<and> unat (mq_read_index (sys_q s)) = n_taken s
     | _ \<Rightarrow> unat (mq_read_index (sys_q s)) = n_taken s)"

definition slot_ok :: "nat \<Rightarrow> mq_sys \<Rightarrow> nat \<Rightarrow> bool" where
  "slot_ok n s k \<longleftrightarrow>
     unat (slot_sequence (mq_queue (sys_q s) ! (k mod n))) =
       (if k < n_claimed s \<and> \<not> pending s k then Suc k else k)
     \<and> (n_taken s \<le> k \<and> k < n_claimed s \<and> \<not> pending s k \<longrightarrow>
          slot_message (mq_queue (sys_q s) ! (k mod n)) = Some (sys_claimed s ! k))"

definition mq_inv :: "nat \<Rightarrow> mq_sys \<Rightarrow> bool" where
  "mq_inv n s \<longleftrightarrow>
     mq_shape n (sys_q s)
     \<and> n_claimed s + n < index_limit
     \<and> unat (mq_write_index (sys_q s)) = n_claimed s
     \<and> n_taken s \<le> n_claimed s
     \<and> sys_taken s = map Some (take (n_taken s) (sys_claimed s))
     \<and> n_claimed s \<le> released s + n
     \<and> cons_ok s
     \<and> (\<forall>p m pc. sys_prod s p = Some (m, pc) \<longrightarrow> prod_ok n s m pc)
     \<and> (\<forall>p p' m m' pc pc' k. sys_prod s p = Some (m, pc) \<longrightarrow> sys_prod s p' = Some (m', pc') \<longrightarrow>
           holds_ticket pc k \<longrightarrow> holds_ticket pc' k \<longrightarrow> p = p')
     \<and> (\<forall>k. released s \<le> k \<and> k < released s + n \<longrightarrow> slot_ok n s k)"

text \<open>Reading the invariant.\<close>

lemma mq_invD:
  assumes "mq_inv n s"
  shows "mq_shape n (sys_q s)" "n_claimed s + n < index_limit"
    "unat (mq_write_index (sys_q s)) = n_claimed s" "n_taken s \<le> n_claimed s"
    "sys_taken s = map Some (take (n_taken s) (sys_claimed s))"
    "n_claimed s \<le> released s + n" "cons_ok s"
  using assms by (auto simp: mq_inv_def)

lemma mq_invI:
  assumes "mq_shape n (sys_q s)" "n_claimed s + n < index_limit"
    "unat (mq_write_index (sys_q s)) = n_claimed s" "n_taken s \<le> n_claimed s"
    "sys_taken s = map Some (take (n_taken s) (sys_claimed s))"
    "n_claimed s \<le> released s + n" "cons_ok s"
    "\<And>p m pc. sys_prod s p = Some (m, pc) \<Longrightarrow> prod_ok n s m pc"
    "\<And>p p' m m' pc pc' k. sys_prod s p = Some (m, pc) \<Longrightarrow> sys_prod s p' = Some (m', pc') \<Longrightarrow>
       holds_ticket pc k \<Longrightarrow> holds_ticket pc' k \<Longrightarrow> p = p'"
    "\<And>k. released s \<le> k \<Longrightarrow> k < released s + n \<Longrightarrow> slot_ok n s k"
  shows "mq_inv n s"
  unfolding mq_inv_def using assms by blast

lemma mq_inv_prod: "mq_inv n s \<Longrightarrow> sys_prod s p = Some (m, pc) \<Longrightarrow> prod_ok n s m pc"
  by (simp add: mq_inv_def)

lemma mq_inv_excl:
  "mq_inv n s \<Longrightarrow> sys_prod s p = Some (m, pc) \<Longrightarrow> sys_prod s p' = Some (m', pc') \<Longrightarrow>
   holds_ticket pc k \<Longrightarrow> holds_ticket pc' k \<Longrightarrow> p = p'"
  unfolding mq_inv_def by blast

lemma mq_inv_slot: "mq_inv n s \<Longrightarrow> released s \<le> k \<Longrightarrow> k < released s + n \<Longrightarrow> slot_ok n s k"
  by (simp add: mq_inv_def)

lemma released_le: "released s \<le> n_taken s"
  by (simp add: released_def)

lemma holds_ticket_simps [simp]:
  "\<not> holds_ticket EnqStart k" "\<not> holds_ticket (EnqSeq w) k" "\<not> holds_ticket (EnqCas w) k"
  "\<not> holds_ticket (EnqRet b) k" "holds_ticket (EnqMsg w) k \<longleftrightarrow> unat w = k"
  "holds_ticket (EnqPub w) k \<longleftrightarrow> unat w = k"
  by (simp_all add: holds_ticket_def)

lemma pendingI: "sys_prod s p = Some (m, pc) \<Longrightarrow> holds_ticket pc k \<Longrightarrow> pending s k"
  by (auto simp: pending_def)

lemma mq_inv_start:
  assumes "mq_rep n 0 [] q" "n < index_limit"
  shows "mq_inv n (sys_start q)"
  using assms
  by (auto simp: mq_inv_def sys_start_def mq_rep_def cons_ok_def released_def mid_dequeue_def
      slot_ok_def slot_holds_def pending_def intro!: unat_of_nat_limit)

text \<open>The parts of the invariant only look at these components of the state.\<close>

lemma inv_parts_cong:
  assumes "sys_q t = sys_q s" "sys_cons t = sys_cons s" "sys_claimed t = sys_claimed s"
    "sys_taken t = sys_taken s" "pending t = pending s"
  shows "released t = released s" "cons_ok t = cons_ok s" "prod_ok n t = prod_ok n s"
    "slot_ok n t = slot_ok n s"
proof -
  show rel: "released t = released s"
    unfolding released_def mid_dequeue_def assms ..
  show "cons_ok t = cons_ok s" unfolding cons_ok_def assms ..
  show "prod_ok n t = prod_ok n s" unfolding prod_ok_def [abs_def] assms rel ..
  show "slot_ok n t = slot_ok n s" unfolding slot_ok_def [abs_def] assms ..
qed

section \<open>Steps of a producer\<close>

text \<open>A change of one producer's position that neither takes nor gives up a ticket.\<close>

lemma pending_swap:
  assumes "\<forall>m pc k. sys_prod s p = Some (m, pc) \<longrightarrow> \<not> holds_ticket pc k"
    and "\<forall>m pc k. v = Some (m, pc) \<longrightarrow> \<not> holds_ticket pc k"
  shows "pending (s\<lparr>sys_prod := (sys_prod s)(p := v)\<rparr>) = pending s"
proof
  fix k
  show "pending (s\<lparr>sys_prod := (sys_prod s)(p := v)\<rparr>) k = pending s k"
  proof
    assume "pending (s\<lparr>sys_prod := (sys_prod s)(p := v)\<rparr>) k"
    then show "pending s k" using assms(2) by (auto simp: pending_def split: if_splits)
  next
    assume "pending s k"
    then obtain p' m pc where h: "sys_prod s p' = Some (m, pc)" "holds_ticket pc k"
      by (auto simp: pending_def)
    then have "p' \<noteq> p" using assms(1) by auto
    then show "pending (s\<lparr>sys_prod := (sys_prod s)(p := v)\<rparr>) k"
      using h by (auto simp: pending_def)
  qed
qed

lemma mq_inv_swap:
  assumes inv: "mq_inv n s"
    and "\<forall>m pc k. sys_prod s p = Some (m, pc) \<longrightarrow> \<not> holds_ticket pc k"
    and "\<forall>m pc k. v = Some (m, pc) \<longrightarrow> \<not> holds_ticket pc k"
    and "\<forall>m pc. v = Some (m, pc) \<longrightarrow> prod_ok n s m pc"
  shows "mq_inv n (s\<lparr>sys_prod := (sys_prod s)(p := v)\<rparr>)"
proof -
  let ?t = "s\<lparr>sys_prod := (sys_prod s)(p := v)\<rparr>"
  have pend: "pending ?t = pending s" using assms(2,3) by (rule pending_swap)
  have same: "released ?t = released s" "cons_ok ?t = cons_ok s" "prod_ok n ?t = prod_ok n s"
      "slot_ok n ?t = slot_ok n s"
    by (rule inv_parts_cong; simp add: pend)+
  show ?thesis
  proof (rule mq_invI, unfold same)
    show "mq_shape n (sys_q ?t)" "n_claimed ?t + n < index_limit"
      "unat (mq_write_index (sys_q ?t)) = n_claimed ?t" "n_taken ?t \<le> n_claimed ?t"
      "sys_taken ?t = map Some (take (n_taken ?t) (sys_claimed ?t))"
      "n_claimed ?t \<le> released s + n" "cons_ok s"
      using mq_invD [OF inv] by simp_all
    show "prod_ok n s m pc" if "sys_prod ?t p' = Some (m, pc)" for p' m pc
      using that assms(4) mq_inv_prod [OF inv] by (auto split: if_splits)
    show "p1 = p2" if "sys_prod ?t p1 = Some (m1, pc1)" "sys_prod ?t p2 = Some (m2, pc2)"
      "holds_ticket pc1 k" "holds_ticket pc2 k" for p1 p2 m1 m2 pc1 pc2 k
      using that assms(3) mq_inv_excl [OF inv] by (auto split: if_splits)
    show "slot_ok n s k" if "released s \<le> k" "k < released s + n" for k
      using that by (rule mq_inv_slot [OF inv])
  qed
qed

text \<open>
  What a producer sees when it loads the sequence of the slot of a ticket it may be late
  for: a ticket that has been released or filled reads as a larger sequence, a full ring as a
  smaller one.
\<close>

lemma slot_sequence_window:
  assumes inv: "mq_inv n s" and "released s \<le> k'" "k' < released s + n" "k' mod n = k mod n"
  shows "unat (slot_sequence (mq_queue (sys_q s) ! (k mod n))) \<in> {k', Suc k'}"
proof -
  have "slot_ok n s k'" using inv assms(2,3) by (rule mq_inv_slot)
  then show ?thesis by (auto simp: slot_ok_def assms(4) split: if_splits)
qed

lemma enq_seq_result:
  assumes inv: "mq_inv n s" and w: "unat w \<le> n_claimed s"
  shows "\<exists>d. ptrdiff_sub (slot_sequence (mq_slot (sys_q s) w)) w = Inr d
           \<and> (d = 0 \<longrightarrow> unat w < released s + n) \<and> (d < 0 \<longrightarrow> n_claimed s = released s + n)"
proof -
  note shape = mq_invD(1) [OF inv]
  have n2: "2 \<le> n" and n0: "0 < n" using shape by (auto simp: mq_shape_def)
  let ?k = "unat w"
  obtain k' where k': "released s \<le> k'" "k' < released s + n" "k' mod n = ?k mod n"
    using mod_window_ex [OF n0] by blast
  define sq where "sq = slot_sequence (mq_slot (sys_q s) w)"
  have j: "unat sq \<in> {k', Suc k'}"
    using slot_sequence_window [OF inv k'] by (simp add: sq_def mq_slot_def slot_pos_unat [OF shape])
  have bounds: "?k < index_limit" "unat sq < index_limit"
    using mq_invD(2,4) [OF inv] w k'(2) j released_le [of s] n2 by auto
  have room: "?k < released s + n" if "unat sq = ?k"
  proof (rule ccontr)
    assume "\<not> ?k < released s + n"
    then have full: "?k = released s + n" using w mq_invD(6) [OF inv] by simp
    then have "k' = released s"
      using mod_window_inj [of "released s" k' n "released s"] k' n0 by simp
    then show False using that j n2 full by auto
  qed
  have full: "n_claimed s = released s + n" if "unat sq < ?k"
  proof (rule ccontr)
    assume "n_claimed s \<noteq> released s + n"
    then have "?k < released s + n" using w mq_invD(6) [OF inv] by simp
    then have "?k \<le> k'"
      using mod_window_inj [of "released s" k' n ?k] k' by (cases "released s \<le> ?k") auto
    then show False using that j by auto
  qed
  have "int (unat sq) - int ?k = 0 \<longrightarrow> ?k < released s + n"
    "int (unat sq) - int ?k < 0 \<longrightarrow> n_claimed s = released s + n" using room full by linarith+
  then show ?thesis using ptrdiff_sub_unat [OF bounds(2,1)] unfolding sq_def by blast
qed

text \<open>The compare-exchange that succeeds: the producer now owns ticket \<open>n_claimed s\<close>.\<close>

lemma pending_after_claim:
  assumes "sys_prod s p = Some (m, EnqCas w)"
    and "sys_prod t = (sys_prod s)(p \<mapsto> (m, EnqMsg w))"
  shows "pending t k \<longleftrightarrow> pending s k \<or> k = unat w"
proof
  assume "pending t k"
  then show "pending s k \<or> k = unat w"
    using assms(2) by (auto simp: pending_def split: if_splits)
next
  assume "pending s k \<or> k = unat w"
  then show "pending t k"
  proof
    assume "pending s k"
    then obtain p' m' pc' where h: "sys_prod s p' = Some (m', pc')" "holds_ticket pc' k"
      by (auto simp: pending_def)
    then have "p' \<noteq> p" using assms(1) by auto
    then show ?thesis using h assms(2) by (auto simp: pending_def)
  next
    assume "k = unat w"
    then show ?thesis using assms(2) by (auto simp: pending_def intro: exI [of _ p])
  qed
qed

lemma mq_inv_claim:
  assumes inv: "mq_inv n s" and p: "sys_prod s p = Some (m, EnqCas w)"
    and eq: "mq_write_index (sys_q s) = w" and lim: "Suc (n_claimed s) + n < index_limit"
    and t: "t = s\<lparr>sys_q := (sys_q s)\<lparr>mq_write_index := w + 1\<rparr>,
                  sys_prod := (sys_prod s)(p \<mapsto> (m, EnqMsg w)),
                  sys_claimed := sys_claimed s @ [m]\<rparr>"
  shows "mq_inv n t"
proof -
  let ?W = "n_claimed s"
  note D = mq_invD [OF inv]
  have uw: "unat w = ?W" using D(3) eq by simp
  have uw1: "unat (w + 1) = Suc ?W" using uw lim by (simp add: unat_plus_one)
  have room: "?W < released s + n" using mq_inv_prod [OF inv p] uw by (simp add: prod_ok_def)
  have pend: "pending t k \<longleftrightarrow> pending s k \<or> k = ?W" for k
    using pending_after_claim [OF p] t uw by simp
  have fields: "sys_cons t = sys_cons s" "sys_taken t = sys_taken s"
    "sys_claimed t = sys_claimed s @ [m]" "mq_queue (sys_q t) = mq_queue (sys_q s)"
    "mq_read_index (sys_q t) = mq_read_index (sys_q s)" "mq_write_index (sys_q t) = w + 1"
    "mq_shape n (sys_q t) = mq_shape n (sys_q s)"
    by (simp_all add: t)
  have rel: "released t = released s" by (simp add: fields released_def mid_dequeue_def)
  have old: "prod_ok n t m' pc" if "prod_ok n s m' pc" for m' pc
    using that D(4) by (auto simp: prod_ok_def fields rel nth_append split: enq_pc.splits)
  have tickets: "holds_ticket pc k \<Longrightarrow> k < ?W" if "sys_prod s p' = Some (m', pc)" for p' m' pc k
    using mq_inv_prod [OF inv that] by (auto simp: prod_ok_def split: enq_pc.splits)
  show ?thesis
  proof (rule mq_invI)
    show "mq_shape n (sys_q t)" "n_claimed t + n < index_limit" "n_taken t \<le> n_claimed t"
      "unat (mq_write_index (sys_q t)) = n_claimed t" "n_claimed t \<le> released t + n"
      using D lim room rel uw1 by (simp_all add: fields)
    show "sys_taken t = map Some (take (n_taken t) (sys_claimed t))"
      using D(4,5) by (simp add: fields)
    show "cons_ok t" using D(4,7) unfolding cons_ok_def
      by (auto simp: pend Let_def fields split: option.splits deq_pc.splits)
    show "slot_ok n t k" if "released t \<le> k" "k < released t + n" for k
      using mq_inv_slot [OF inv, of k] that D(4)
      by (auto simp: slot_ok_def pend rel fields nth_append less_Suc_eq)
    show "prod_ok n t m' pc" if "sys_prod t p' = Some (m', pc)" for p' m' pc
    proof (cases "p' = p")
      case True
      then show ?thesis using that D(4) uw by (auto simp: t prod_ok_def nth_append)
    next
      case False
      then show ?thesis using that old mq_inv_prod [OF inv] by (simp add: t)
    qed
    show "p1 = p2" if "sys_prod t p1 = Some (m1, pc1)" "sys_prod t p2 = Some (m2, pc2)"
      "holds_ticket pc1 k" "holds_ticket pc2 k" for p1 p2 m1 m2 pc1 pc2 k
    proof (cases "p1 = p \<or> p2 = p")
      case True
      then have "k = ?W" using that uw by (auto simp: t)
      then show ?thesis using that tickets by (auto simp: t split: if_splits)
    next
      case False
      then show ?thesis using that mq_inv_excl [OF inv] by (simp add: t)
    qed
  qed
qed

text \<open>Writing the slot of one ticket leaves the slots of the other live tickets alone.\<close>

lemma other_slot:
  assumes "a \<le> j" "j < a + n" "a \<le> k" "k < a + n" "j \<noteq> k"
  shows "xs[j mod n := sl] ! (k mod n) = xs ! (k mod n)"
  using assms mod_window_inj [of a j n k] by (auto intro: nth_list_update_neq)

lemma ticket_window:
  assumes inv: "mq_inv n s" and p: "sys_prod s p = Some (m, pc)" and "holds_ticket pc k"
  shows "n_taken s \<le> k" "k < n_claimed s" "released s \<le> k" "k < released s + n"
    "sys_claimed s ! k = m"
proof -
  have "n_taken s \<le> k \<and> k < n_claimed s \<and> sys_claimed s ! k = m"
    using mq_inv_prod [OF inv p] assms(3) by (auto simp: prod_ok_def split: enq_pc.splits)
  then show "n_taken s \<le> k" "k < n_claimed s" "released s \<le> k" "k < released s + n"
    "sys_claimed s ! k = m"
    using mq_invD(6) [OF inv] released_le [of s] by auto
qed

lemma pending_same_ticket:
  assumes p: "sys_prod s p = Some (m, EnqMsg w)" and t: "sys_prod t = (sys_prod s)(p \<mapsto> (m, EnqPub w))"
  shows "pending t = pending s"
proof
  fix k
  have "(\<exists>m' pc. sys_prod t p' = Some (m', pc) \<and> holds_ticket pc k) \<longleftrightarrow>
      (\<exists>m' pc. sys_prod s p' = Some (m', pc) \<and> holds_ticket pc k)" for p'
    using p t by (cases "p' = p") auto
  then show "pending t k = pending s k" by (simp add: pending_def)
qed

lemma mq_inv_store:
  assumes inv: "mq_inv n s" and p: "sys_prod s p = Some (m, EnqMsg w)"
    and t: "t = s\<lparr>sys_q := mq_set_slot (sys_q s) w ((mq_slot (sys_q s) w)\<lparr>slot_message := Some m\<rparr>),
                  sys_prod := (sys_prod s)(p \<mapsto> (m, EnqPub w))\<rparr>"
  shows "mq_inv n t"
proof -
  note D = mq_invD [OF inv] and shape = mq_invD(1) [OF inv]
  let ?k = "unat w"
  have k: "n_taken s \<le> ?k" "?k < n_claimed s" "released s \<le> ?k" "?k < released s + n"
    "sys_claimed s ! ?k = m"
    using ticket_window [OF inv p] by auto
  have len: "?k mod n < length (mq_queue (sys_q s))"
    using shape mq_shape_pos [OF shape] by (simp add: mq_shape_def)
  have pend: "pending t = pending s" using pending_same_ticket [OF p] by (simp add: t)
  have fields: "sys_cons t = sys_cons s" "sys_taken t = sys_taken s"
    "sys_claimed t = sys_claimed s"
    "mq_queue (sys_q t) = (mq_queue (sys_q s))[?k mod n :=
        (mq_queue (sys_q s) ! (?k mod n))\<lparr>slot_message := Some m\<rparr>]"
    "mq_read_index (sys_q t) = mq_read_index (sys_q s)"
    "mq_write_index (sys_q t) = mq_write_index (sys_q s)"
    "mq_shape n (sys_q t) = mq_shape n (sys_q s)"
    by (simp_all add: t mq_slot_def slot_pos_unat [OF shape])
  have rel: "released t = released s" by (simp add: fields released_def mid_dequeue_def)
  have other: "mq_queue (sys_q t) ! (k mod n) = mq_queue (sys_q s) ! (k mod n)"
    if "released s \<le> k" "k < released s + n" "k \<noteq> ?k" for k
    unfolding fields using k(3,4) that by (intro other_slot) auto
  have pk: "pending s ?k" using pendingI [OF p] by simp
  show ?thesis
  proof (rule mq_invI)
    show "mq_shape n (sys_q t)" "n_claimed t + n < index_limit" "n_taken t \<le> n_claimed t"
      "unat (mq_write_index (sys_q t)) = n_claimed t" "n_claimed t \<le> released t + n"
      "sys_taken t = map Some (take (n_taken t) (sys_claimed t))"
      using D rel by (simp_all add: fields)
    show "cons_ok t" using D(7) unfolding cons_ok_def pend fields .
    show "slot_ok n t j" if j: "released t \<le> j" "j < released t + n" for j
    proof (cases "j = ?k")
      case True
      then show ?thesis using mq_inv_slot [OF inv k(3,4)] pk len by (simp add: slot_ok_def pend fields)
    next
      case False
      then show ?thesis using mq_inv_slot [OF inv, of j] j rel other [of j]
        unfolding slot_ok_def pend fields(1-3) by metis
    qed
    show "prod_ok n t m' pc" if q: "sys_prod t p' = Some (m', pc)" for p' m' pc
    proof (cases "p' = p")
      case True
      then show ?thesis using q k len by (auto simp: t prod_ok_def mq_slot_def slot_pos_unat [OF shape])
    next
      case False
      then have q: "sys_prod s p' = Some (m', pc)" using q by (simp add: t)
      have "mq_queue (sys_q t) ! (unat v mod n) = mq_queue (sys_q s) ! (unat v mod n)"
        if "pc = EnqPub v" for v
        using ticket_window [OF inv q, of "unat v"] other [of "unat v"] that
          mq_inv_excl [OF inv p q, of ?k] False by auto
      then show ?thesis using mq_inv_prod [OF inv q] unfolding prod_ok_def rel fields(1-3)
        by (cases pc) auto
    qed
    show "p1 = p2" if "sys_prod t p1 = Some (m1, pc1)" "sys_prod t p2 = Some (m2, pc2)"
      "holds_ticket pc1 k" "holds_ticket pc2 k" for p1 p2 m1 m2 pc1 pc2 k
      using that mq_inv_excl [OF inv p, of _ _ _ k] mq_inv_excl [OF inv, of p1 m1 pc1 p2 m2 pc2 k]
      by (auto simp: t split: if_splits)
  qed
qed

text \<open>Publishing: the slot's sequence becomes readable for the consumer.\<close>

lemma pending_after_publish:
  assumes inv: "mq_inv n s" and p: "sys_prod s p = Some (m, EnqPub w)"
    and t: "sys_prod t = (sys_prod s)(p \<mapsto> (m, EnqRet True))"
  shows "pending t k \<longleftrightarrow> pending s k \<and> k \<noteq> unat w"
proof
  assume "pending t k"
  then obtain p' m' pc where h: "sys_prod t p' = Some (m', pc)" "holds_ticket pc k"
    by (auto simp: pending_def)
  then have "p' \<noteq> p" using t by auto
  then have q: "sys_prod s p' = Some (m', pc)" using h(1) t by simp
  moreover have "k \<noteq> unat w" using mq_inv_excl [OF inv p q, of k] h(2) \<open>p' \<noteq> p\<close> by auto
  ultimately show "pending s k \<and> k \<noteq> unat w" using h(2) pendingI by blast
next
  assume k: "pending s k \<and> k \<noteq> unat w"
  then obtain p' m' pc where h: "sys_prod s p' = Some (m', pc)" "holds_ticket pc k"
    by (auto simp: pending_def)
  then have "p' \<noteq> p" using p k by auto
  then show "pending t k" using pendingI [of t p' m' pc k] h t by simp
qed

lemma mq_inv_publish:
  assumes inv: "mq_inv n s" and p: "sys_prod s p = Some (m, EnqPub w)"
    and t: "t = s\<lparr>sys_q := mq_set_slot (sys_q s) w ((mq_slot (sys_q s) w)\<lparr>slot_sequence := w + 1\<rparr>),
                  sys_prod := (sys_prod s)(p \<mapsto> (m, EnqRet True))\<rparr>"
  shows "mq_inv n t"
proof -
  note D = mq_invD [OF inv] and shape = mq_invD(1) [OF inv]
  let ?k = "unat w"
  have k: "n_taken s \<le> ?k" "?k < n_claimed s" "released s \<le> ?k" "?k < released s + n"
    "sys_claimed s ! ?k = m"
    using ticket_window [OF inv p] by auto
  have len: "?k mod n < length (mq_queue (sys_q s))"
    using shape mq_shape_pos [OF shape] by (simp add: mq_shape_def)
  have w1: "unat (w + 1) = Suc ?k" using k(2) D(2) by (simp add: unat_plus_one)
  have msg: "slot_message (mq_queue (sys_q s) ! (?k mod n)) = Some m"
    using mq_inv_prod [OF inv p] by (simp add: prod_ok_def)
  have pend: "pending t j \<longleftrightarrow> pending s j \<and> j \<noteq> ?k" for j
    using pending_after_publish [OF inv p] by (simp add: t)
  have fields: "sys_cons t = sys_cons s" "sys_taken t = sys_taken s"
    "sys_claimed t = sys_claimed s"
    "mq_queue (sys_q t) = (mq_queue (sys_q s))[?k mod n :=
        (mq_queue (sys_q s) ! (?k mod n))\<lparr>slot_sequence := w + 1\<rparr>]"
    "mq_read_index (sys_q t) = mq_read_index (sys_q s)"
    "mq_write_index (sys_q t) = mq_write_index (sys_q s)"
    "mq_shape n (sys_q t) = mq_shape n (sys_q s)"
    by (simp_all add: t mq_slot_def slot_pos_unat [OF shape])
  have rel: "released t = released s" by (simp add: fields released_def mid_dequeue_def)
  have other: "mq_queue (sys_q t) ! (k mod n) = mq_queue (sys_q s) ! (k mod n)"
    if "released s \<le> k" "k < released s + n" "k \<noteq> ?k" for k
    unfolding fields using k(3,4) that by (intro other_slot) auto
  have msgs: "slot_message (mq_queue (sys_q t) ! (j mod n)) = slot_message (mq_queue (sys_q s) ! (j mod n))"
    for j
    using len by (cases "j mod n = ?k mod n") (simp_all add: fields)
  show ?thesis
  proof (rule mq_invI)
    show "mq_shape n (sys_q t)" "n_claimed t + n < index_limit" "n_taken t \<le> n_claimed t"
      "unat (mq_write_index (sys_q t)) = n_claimed t" "n_claimed t \<le> released t + n"
      "sys_taken t = map Some (take (n_taken t) (sys_claimed t))"
      using D rel by (simp_all add: fields)
    show "cons_ok t" using D(7) unfolding cons_ok_def pend fields
      by (auto simp: Let_def split: option.splits deq_pc.splits)
    show "slot_ok n t j" if j: "released t \<le> j" "j < released t + n" for j
    proof (cases "j = ?k")
      case True
      then show ?thesis using k w1 len msg by (simp add: slot_ok_def pend fields)
    next
      case False
      then show ?thesis using mq_inv_slot [OF inv, of j] j rel other [of j]
        unfolding slot_ok_def pend fields(1-3) by metis
    qed
    show "prod_ok n t m' pc" if q: "sys_prod t p' = Some (m', pc)" for p' m' pc
    proof (cases "p' = p")
      case True
      then show ?thesis using q by (auto simp: t prod_ok_def)
    next
      case False
      then have "prod_ok n s m' pc" using q mq_inv_prod [OF inv] by (simp add: t)
      then show ?thesis unfolding prod_ok_def rel fields(1-3) msgs .
    qed
    show "p1 = p2" if "sys_prod t p1 = Some (m1, pc1)" "sys_prod t p2 = Some (m2, pc2)"
      "holds_ticket pc1 k" "holds_ticket pc2 k" for p1 p2 m1 m2 pc1 pc2 k
      using that mq_inv_excl [OF inv, of p1 m1 pc1 p2 m2 pc2 k] by (auto simp: t split: if_splits)
  qed
qed

section \<open>Steps of the consumer\<close>

lemma pending_cons: "sys_prod t = sys_prod s \<Longrightarrow> pending t = pending s"
  by (simp add: pending_def fun_eq_iff)

text \<open>Steps that neither take a message nor touch a slot.\<close>

lemma mq_inv_cons_move:
  assumes inv: "mq_inv n s" and t: "t = s\<lparr>sys_q := q', sys_cons := c\<rparr>"
    and q': "mq_queue q' = mq_queue (sys_q s)" "mq_write_index q' = mq_write_index (sys_q s)"
      "mq_shape n q' = mq_shape n (sys_q s)"
    and mid: "mid_dequeue t = mid_dequeue s" and ok: "cons_ok t"
  shows "mq_inv n t"
proof -
  have "sys_prod t = sys_prod s" "sys_taken t = sys_taken s" "sys_claimed t = sys_claimed s"
    "mq_queue (sys_q t) = mq_queue (sys_q s)"
    by (simp_all add: t q')
  note fields = this pending_cons [OF this(1)]
  have rel: "released t = released s" unfolding released_def mid fields ..
  have same: "prod_ok n t = prod_ok n s" "slot_ok n t = slot_ok n s"
    unfolding prod_ok_def [abs_def] slot_ok_def [abs_def] fields rel by (rule refl)+
  show ?thesis
  proof (rule mq_invI, unfold same rel fields)
    show "mq_shape n (sys_q t)" "n_claimed s + n < index_limit"
      "unat (mq_write_index (sys_q t)) = n_claimed s" "n_taken s \<le> n_claimed s"
      "sys_taken s = map Some (take (n_taken s) (sys_claimed s))" "n_claimed s \<le> released s + n"
      using mq_invD [OF inv] by (simp_all add: t q')
    show "cons_ok t" by (rule ok)
  qed (fact mq_inv_prod [OF inv] mq_inv_slot [OF inv] mq_inv_excl [OF inv])+
qed

lemma deq_seq_result:
  assumes inv: "mq_inv n s" and c: "sys_cons s = Some (DeqSeq i)"
  shows "\<exists>d. ptrdiff_sub (slot_sequence (mq_slot (sys_q s) i)) (i + 1) = Inr d
           \<and> (0 \<le> d \<longleftrightarrow> n_taken s < n_claimed s \<and> \<not> pending s (n_taken s))"
proof -
  note D = mq_invD [OF inv]
  have i: "unat i = n_taken s" using D(7) c by (simp add: cons_ok_def)
  have rel: "released s = n_taken s" using c by (simp add: released_def mid_dequeue_def)
  have n0: "0 < n" using mq_shape_pos [OF D(1)] .
  define sq where "sq = slot_sequence (mq_slot (sys_q s) i)"
  have sq: "unat sq = (if n_taken s < n_claimed s \<and> \<not> pending s (n_taken s)
      then Suc (n_taken s) else n_taken s)"
    using mq_inv_slot [OF inv, of "n_taken s"] rel n0 i
    by (simp add: slot_ok_def sq_def mq_slot_def slot_pos_unat [OF D(1)])
  have i1: "unat (i + 1) = Suc (n_taken s)" using D(2,4) i by (simp add: unat_plus_one)
  have "unat sq < index_limit" "unat (i + 1) < index_limit" using sq i1 D(2,4) n0 by auto
  then have "ptrdiff_sub sq (i + 1) = Inr (int (unat sq) - int (Suc (n_taken s)))"
    using ptrdiff_sub_unat [of sq "i + 1"] i1 by simp
  then show ?thesis using sq unfolding sq_def by (auto split: if_splits)
qed

text \<open>Reading the message out of the oldest published slot.\<close>

lemma mq_inv_take:
  assumes inv: "mq_inv n s" and c: "sys_cons s = Some (DeqMsg i)"
    and t: "t = s\<lparr>sys_cons := Some (DeqNull i (slot_message (mq_slot (sys_q s) i))),
                  sys_taken := sys_taken s @ [slot_message (mq_slot (sys_q s) i)]\<rparr>"
  shows "mq_inv n t"
proof -
  note D = mq_invD [OF inv]
  have c': "unat i = n_taken s" "mq_read_index (sys_q s) = i" "n_taken s < n_claimed s"
    "\<not> pending s (n_taken s)" using D(7) c by (simp_all add: cons_ok_def)
  have rel_s: "released s = n_taken s" using c by (simp add: released_def mid_dequeue_def)
  have "slot_ok n s (n_taken s)" using mq_inv_slot [OF inv] rel_s mq_shape_pos [OF D(1)] by simp
  then have msg: "slot_message (mq_slot (sys_q s) i) = Some (sys_claimed s ! n_taken s)"
    using c' by (simp add: slot_ok_def mq_slot_def slot_pos_unat [OF D(1)])
  have "sys_prod t = sys_prod s" "sys_claimed t = sys_claimed s" "sys_q t = sys_q s"
    "n_taken t = Suc (n_taken s)"
    by (simp_all add: t)
  note fields = this pending_cons [OF this(1)]
  have rel: "released t = released s"
    by (simp add: t rel_s) (simp add: released_def mid_dequeue_def)
  show ?thesis
  proof (rule mq_invI, unfold fields rel)
    show "mq_shape n (sys_q s)" "n_claimed s + n < index_limit" "Suc (n_taken s) \<le> n_claimed s"
      "unat (mq_write_index (sys_q s)) = n_claimed s" "n_claimed s \<le> released s + n"
      using D c'(3) by simp_all
    show "sys_taken t = map Some (take (Suc (n_taken s)) (sys_claimed s))"
      using D(5) c'(3) msg by (simp add: t take_Suc_conv_app_nth)
    show "cons_ok t" using c' by (simp add: cons_ok_def t)
    show "prod_ok n t m pc" if q: "sys_prod s p = Some (m, pc)" for p m pc
    proof -
      have "k \<noteq> n_taken s" if "holds_ticket pc k" for k
        using that pendingI [OF q] c'(4) by auto
      then show ?thesis using mq_inv_prod [OF inv q]
        unfolding prod_ok_def fields rel by (cases pc) (auto simp: Suc_le_eq le_neq_implies_less)
    qed
    show "p1 = p2" if "sys_prod s p1 = Some (m1, pc1)" "sys_prod s p2 = Some (m2, pc2)"
      "holds_ticket pc1 k" "holds_ticket pc2 k" for p1 p2 m1 m2 pc1 pc2 k
      using that by (rule mq_inv_excl [OF inv])
    show "slot_ok n t k" if "released s \<le> k" "k < released s + n" for k
      using mq_inv_slot [OF inv that] unfolding slot_ok_def fields by auto
  qed
qed

text \<open>Nulling the slot that was just read, and giving it back to the producers.\<close>

lemma mq_inv_null:
  assumes inv: "mq_inv n s" and c: "sys_cons s = Some (DeqNull i m)"
    and t: "t = s\<lparr>sys_q := mq_set_slot (sys_q s) i ((mq_slot (sys_q s) i)\<lparr>slot_message := None\<rparr>),
                  sys_cons := Some (DeqIdx i m)\<rparr>"
  shows "mq_inv n t"
proof -
  note D = mq_invD [OF inv] and shape = mq_invD(1) [OF inv]
  have i: "Suc (unat i) = n_taken s" using D(7) c by (simp add: cons_ok_def)
  have rel_s: "released s = unat i" using c i by (simp add: released_def mid_dequeue_def)
  have n0: "0 < n" and len: "unat i mod n < length (mq_queue (sys_q s))"
    using shape mq_shape_pos [OF shape] by (simp_all add: mq_shape_def)
  have "sys_prod t = sys_prod s" "sys_claimed t = sys_claimed s" "sys_taken t = sys_taken s"
    "mq_queue (sys_q t) = (mq_queue (sys_q s))[unat i mod n :=
        (mq_queue (sys_q s) ! (unat i mod n))\<lparr>slot_message := None\<rparr>]"
    by (simp_all add: t mq_slot_def slot_pos_unat [OF shape])
  note fields = this pending_cons [OF this(1)]
  have rel: "released t = released s"
    using rel_s i by (simp add: t released_def mid_dequeue_def)
  have sq: "slot_sequence (mq_queue (sys_q t) ! (k mod n)) = slot_sequence (mq_queue (sys_q s) ! (k mod n))"
    for k using len by (cases "k mod n = unat i mod n") (simp_all add: fields)
  have other: "mq_queue (sys_q t) ! (k mod n) = mq_queue (sys_q s) ! (k mod n)"
    if "n_taken s \<le> k" "k < released s + n" for k
    unfolding fields using that i rel_s n0 by (intro other_slot [of "released s"]) auto
  show ?thesis
  proof (rule mq_invI, unfold fields(1-3) rel)
    show "mq_shape n (sys_q t)" "n_claimed s + n < index_limit" "n_taken s \<le> n_claimed s"
      "unat (mq_write_index (sys_q t)) = n_claimed s" "n_claimed s \<le> released s + n"
      "sys_taken s = map Some (take (n_taken s) (sys_claimed s))"
      using D by (simp_all add: t)
    show "cons_ok t" using D(7) c by (simp add: cons_ok_def t)
    show "prod_ok n t m' pc" if q: "sys_prod s p = Some (m', pc)" for p m' pc
    proof -
      have "mq_queue (sys_q t) ! (unat v mod n) = mq_queue (sys_q s) ! (unat v mod n)"
        if "pc = EnqPub v" for v
        using ticket_window [OF inv q, of "unat v"] other that by simp
      then show ?thesis using mq_inv_prod [OF inv q]
        unfolding prod_ok_def fields(1-3) rel by (cases pc) auto
    qed
    show "slot_ok n t k" if "released s \<le> k" "k < released s + n" for k
      using mq_inv_slot [OF inv that] that other [of k] sq [of k]
      unfolding slot_ok_def fields(2,3,5) by metis
  qed (fact mq_inv_excl [OF inv])
qed

lemma mq_inv_release:
  assumes inv: "mq_inv n s" and c: "sys_cons s = Some (DeqRel i m)"
    and t: "t = s\<lparr>sys_q := mq_set_slot (sys_q s) i
                     ((mq_slot (sys_q s) i)\<lparr>slot_sequence := i + mq_size (sys_q s)\<rparr>),
                  sys_cons := Some (DeqRet (Some m))\<rparr>"
  shows "mq_inv n t"
proof -
  note D = mq_invD [OF inv] and shape = mq_invD(1) [OF inv]
  have i: "Suc (unat i) = n_taken s" using D(7) c by (simp add: cons_ok_def)
  have rel_s: "released s = unat i" using c i by (simp add: released_def mid_dequeue_def)
  have n0: "0 < n" and len: "unat i mod n < length (mq_queue (sys_q s))" and size: "mq_size (sys_q s) = of_nat n"
    using shape mq_shape_pos [OF shape] by (simp_all add: mq_shape_def)
  have in_lim: "unat i + n < index_limit" using i D(2,4) by simp
  have isz: "unat (i + of_nat n) = unat i + n"
    using in_lim unat_of_nat_limit [of "unat i + n"] by simp
  have "sys_prod t = sys_prod s" "sys_claimed t = sys_claimed s" "sys_taken t = sys_taken s"
    "mq_queue (sys_q t) = (mq_queue (sys_q s))[unat i mod n :=
        (mq_queue (sys_q s) ! (unat i mod n))\<lparr>slot_sequence := i + of_nat n\<rparr>]"
    by (simp_all add: t mq_slot_def slot_pos_unat [OF shape] size)
  note fields = this pending_cons [OF this(1)]
  have rel: "released t = Suc (unat i)"
    using i by (simp add: t released_def mid_dequeue_def)
  have msgs: "slot_message (mq_queue (sys_q t) ! (k mod n)) = slot_message (mq_queue (sys_q s) ! (k mod n))"
    for k using len by (cases "k mod n = unat i mod n") (simp_all add: fields)
  show ?thesis
  proof (rule mq_invI, unfold fields(1-3) rel)
    show "mq_shape n (sys_q t)" "n_claimed s + n < index_limit" "n_taken s \<le> n_claimed s"
      "unat (mq_write_index (sys_q t)) = n_claimed s" "n_claimed s \<le> Suc (unat i) + n"
      "sys_taken s = map Some (take (n_taken s) (sys_claimed s))"
      using D rel_s by (simp_all add: t)
    show "cons_ok t" using D(7) c by (simp add: cons_ok_def t)
    show "prod_ok n t m' pc" if q: "sys_prod s p = Some (m', pc)" for p m' pc
      using mq_inv_prod [OF inv q] rel_s unfolding prod_ok_def fields(1-3) rel msgs
      by (cases pc) auto
    show "slot_ok n t k" if k: "Suc (unat i) \<le> k" "k < Suc (unat i) + n" for k
    proof (cases "k = unat i + n")
      case True
      then have "\<not> k < n_claimed s" using D(6) rel_s by simp
      then show ?thesis using True isz len by (simp add: slot_ok_def fields)
    next
      case False
      then have "mq_queue (sys_q t) ! (k mod n) = mq_queue (sys_q s) ! (k mod n)"
        unfolding fields using k n0 by (intro other_slot [of "unat i"]) auto
      then show ?thesis using mq_inv_slot [OF inv, of k] k rel_s False
        unfolding slot_ok_def fields(2,3,5) by simp
    qed
  qed (fact mq_inv_excl [OF inv])
qed

section \<open>Every step keeps the invariant\<close>

lemma sys_update_idle:
  "s\<lparr>sys_q := sys_q s, sys_prod := f, sys_claimed := sys_claimed s\<rparr> = s\<lparr>sys_prod := f\<rparr>"
  "s\<lparr>sys_q := q, sys_prod := f, sys_claimed := sys_claimed s\<rparr> = s\<lparr>sys_q := q, sys_prod := f\<rparr>"
  "s\<lparr>sys_q := q, sys_cons := c, sys_taken := sys_taken s\<rparr> = s\<lparr>sys_q := q, sys_cons := c\<rparr>"
  "s\<lparr>sys_q := sys_q s, sys_cons := c, sys_taken := ts\<rparr> = s\<lparr>sys_cons := c, sys_taken := ts\<rparr>"
  "s\<lparr>sys_q := sys_q s, sys_cons := c\<rparr> = s\<lparr>sys_cons := c\<rparr>"
  by (cases s; simp)+

lemma mq_inv_idle_move:
  assumes inv: "mq_inv n s" and p: "sys_prod s p = Some (m, pc)"
    and "\<forall>k. \<not> holds_ticket pc k" "\<forall>k. \<not> holds_ticket pc' k" "prod_ok n s m pc'"
  shows "mq_inv n (s\<lparr>sys_prod := (sys_prod s)(p \<mapsto> (m, pc'))\<rparr>)"
  using assms by (intro mq_inv_swap) auto

lemma mq_inv_enq_act:
  assumes inv: "mq_inv n s" and p: "sys_prod s p = Some (m, pc)"
    and step: "enq_step sp m (sys_q s) pc = Inr (q', pc')"
    and t: "t = s\<lparr>sys_q := q', sys_prod := (sys_prod s)(p \<mapsto> (m, pc')),
                  sys_claimed := sys_claimed s @ claims m pc pc'\<rparr>"
    and lim: "n_claimed t + n < index_limit"
  shows "mq_inv n t"
proof -
  have stay: ?thesis if "q' = sys_q s" "claims m pc pc' = []" "prod_ok n s m pc'"
    "\<forall>k. \<not> holds_ticket pc k" "\<forall>k. \<not> holds_ticket pc' k"
  proof -
    have "t = s\<lparr>sys_prod := (sys_prod s)(p \<mapsto> (m, pc'))\<rparr>"
      using t that(1,2) by (simp add: sys_update_idle)
    then show ?thesis using mq_inv_idle_move [OF inv p] that by simp
  qed
  show ?thesis
  proof (cases pc)
    case EnqStart
    then show ?thesis using step mq_invD(3) [OF inv]
      by (intro stay) (auto simp: claims_def prod_ok_def)
  next
    case (EnqSeq w)
    have w: "unat w \<le> n_claimed s" using mq_inv_prod [OF inv p] EnqSeq by (simp add: prod_ok_def)
    obtain d where d: "ptrdiff_sub (slot_sequence (mq_slot (sys_q s) w)) w = Inr d"
      "d = 0 \<longrightarrow> unat w < released s + n"
      using enq_seq_result [OF inv w] by blast
    have "q' = sys_q s"
      "pc' = (if d < 0 then EnqRet False else if d = 0 then EnqCas w else EnqStart)"
      using step EnqSeq d(1) by auto
    then show ?thesis using d(2) w EnqSeq
      by (intro stay) (auto simp: claims_def prod_ok_def)
  next
    case (EnqCas w)
    show ?thesis
    proof (cases "mq_write_index (sys_q s) = w \<and> \<not> sp")
      case True
      then have "t = s\<lparr>sys_q := (sys_q s)\<lparr>mq_write_index := w + 1\<rparr>,
          sys_prod := (sys_prod s)(p \<mapsto> (m, EnqMsg w)), sys_claimed := sys_claimed s @ [m]\<rparr>"
        using step t EnqCas by (auto simp: claims_def)
      then show ?thesis using True lim p EnqCas by (intro mq_inv_claim [OF inv]) auto
    next
      case False
      then show ?thesis using step EnqCas by (intro stay) (auto simp: claims_def prod_ok_def)
    qed
  next
    case (EnqMsg w)
    then show ?thesis using step t p
      by (intro mq_inv_store [OF inv, of p m w]) (auto simp: claims_def sys_update_idle)
  next
    case (EnqPub w)
    then show ?thesis using step t p
      by (intro mq_inv_publish [OF inv, of p m w]) (auto simp: claims_def sys_update_idle)
  next
    case (EnqRet b)
    then show ?thesis using step by (intro stay) (auto simp: claims_def prod_ok_def)
  qed
qed

lemma mq_inv_deq_act:
  assumes inv: "mq_inv n s" and c: "sys_cons s = Some pc"
    and step: "deq_step (sys_q s) pc = Inr (q', pc')"
    and t: "t = s\<lparr>sys_q := q', sys_cons := Some pc', sys_taken := sys_taken s @ takes pc pc'\<rparr>"
  shows "mq_inv n t"
proof -
  note ok = mq_invD(7) [OF inv]
  have move: "mq_inv n (s\<lparr>sys_q := q1, sys_cons := c1\<rparr>)"
    if "mq_queue q1 = mq_queue (sys_q s)" "mq_write_index q1 = mq_write_index (sys_q s)"
      "mq_shape n q1 = mq_shape n (sys_q s)"
      "mid_dequeue (s\<lparr>sys_q := q1, sys_cons := c1\<rparr>) = mid_dequeue s"
      "cons_ok (s\<lparr>sys_q := q1, sys_cons := c1\<rparr>)" for q1 c1
    using that by (intro mq_inv_cons_move [OF inv refl])
  show ?thesis
  proof (cases pc)
    case DeqStart
    then show ?thesis using step t ok c move [of "sys_q s" "Some pc'"]
      by (auto simp: takes_def sys_update_idle cons_ok_def mid_dequeue_def)
  next
    case (DeqSeq i)
    obtain d where d: "ptrdiff_sub (slot_sequence (mq_slot (sys_q s) i)) (i + 1) = Inr d"
      "0 \<le> d \<longleftrightarrow> n_taken s < n_claimed s \<and> \<not> pending s (n_taken s)"
      using deq_seq_result [OF inv] c DeqSeq by blast
    have pend: "pending (s\<lparr>sys_cons := c1\<rparr>) = pending s" for c1
      by (rule pending_cons) simp
    have "q' = sys_q s" "pc' = DeqRet None \<or> pc' = DeqMsg i \<and> 0 \<le> d"
      using step DeqSeq d(1) by (auto split: if_splits)
    then show ?thesis using t d(2) ok c DeqSeq move [of "sys_q s" "Some pc'"]
      by (auto simp: takes_def sys_update_idle cons_ok_def mid_dequeue_def pend)
  next
    case (DeqMsg i)
    then show ?thesis using step t c mq_inv_take [OF inv, of i t] by (auto simp: takes_def sys_update_idle)
  next
    case (DeqNull i m)
    then show ?thesis using step t c mq_inv_null [OF inv, of i m t] by (auto simp: takes_def sys_update_idle)
  next
    case (DeqIdx i m)
    have "unat (i + 1) = Suc (unat i)"
      using ok c DeqIdx mq_invD(2,4) [OF inv] by (intro unat_plus_one) (simp add: cons_ok_def)
    then show ?thesis using DeqIdx step t ok c move [of q' "Some pc'"]
      by (auto simp: takes_def sys_update_idle cons_ok_def mid_dequeue_def)
  next
    case (DeqRel i m)
    then show ?thesis using step t c mq_inv_release [OF inv, of i m t] by (auto simp: takes_def sys_update_idle)
  next
    case (DeqRet r)
    then show ?thesis using step t ok c move [of "sys_q s" "Some pc'"]
      by (auto simp: takes_def sys_update_idle cons_ok_def mid_dequeue_def)
  qed
qed

lemma mq_step_claimed: "mq_step s t \<Longrightarrow> n_claimed s \<le> n_claimed t"
  by (induction rule: mq_step.induct) auto

lemma mq_inv_cons_return:
  assumes inv: "mq_inv n s"
    and "sys_cons s = None \<and> c = Some DeqStart \<or> (\<exists>r. sys_cons s = Some (DeqRet r)) \<and> c = None"
  shows "mq_inv n (s\<lparr>sys_cons := c\<rparr>)"
proof (rule mq_inv_cons_move [OF inv])
  show "s\<lparr>sys_cons := c\<rparr> = s\<lparr>sys_q := sys_q s, sys_cons := c\<rparr>" by (simp add: sys_update_idle)
  show "mid_dequeue (s\<lparr>sys_cons := c\<rparr>) = mid_dequeue s" "cons_ok (s\<lparr>sys_cons := c\<rparr>)"
    using assms(2) mq_invD(7) [OF inv] by (auto simp: mid_dequeue_def cons_ok_def)
qed simp_all

lemma mq_step_inv:
  assumes "mq_step s t" "mq_inv n s" "n_claimed t + n < index_limit"
  shows "mq_inv n t"
  using assms
proof (induction rule: mq_step.induct)
  case (enq_call s p m)
  then show ?case by (intro mq_inv_swap) (auto simp: prod_ok_def)
next
  case (enq_act s p m pc sp q' pc')
  then show ?case by (blast intro: mq_inv_enq_act)
next
  case (enq_return s p m b)
  then show ?case by (intro mq_inv_swap) auto
next
  case (deq_call s)
  then show ?case by (intro mq_inv_cons_return) auto
next
  case (deq_act s pc q' pc')
  then show ?case by (blast intro: mq_inv_deq_act)
next
  case (deq_return s r)
  then show ?case by (intro mq_inv_cons_return) auto
qed

lemma mq_reachable_inv:
  assumes "mq_reachable q s" "mq_rep n 0 [] q" "n_claimed s + n < index_limit"
  shows "mq_inv n s"
  using assms
proof (induction rule: mq_reachable.induct)
  case reach_start
  then show ?case by (intro mq_inv_start) (auto simp: sys_start_def)
next
  case (reach_step s t)
  then show ?case using mq_step_claimed [OF reach_step.hyps(2)] by (auto intro: mq_step_inv)
qed

section \<open>Properties\<close>

text \<open>The slot a producer is about to write, and the slot the consumer is using.\<close>

definition prod_slot :: "mail_queue \<Rightarrow> enq_pc \<Rightarrow> nat option" where
  "prod_slot q pc = (case pc of
      EnqMsg w \<Rightarrow> Some (slot_pos q w) | EnqPub w \<Rightarrow> Some (slot_pos q w) | _ \<Rightarrow> None)"

definition cons_slot :: "mail_queue \<Rightarrow> deq_pc \<Rightarrow> nat option" where
  "cons_slot q pc = (case pc of
      DeqMsg i \<Rightarrow> Some (slot_pos q i) | DeqNull i _ \<Rightarrow> Some (slot_pos q i)
    | DeqIdx i _ \<Rightarrow> Some (slot_pos q i) | DeqRel i _ \<Rightarrow> Some (slot_pos q i) | _ \<Rightarrow> None)"

lemma prod_slot_ticket:
  assumes inv: "mq_inv n s" and p: "sys_prod s p = Some (m, pc)" and "prod_slot (sys_q s) pc = Some j"
  shows "\<exists>k. holds_ticket pc k \<and> j = k mod n"
  using assms(3) slot_pos_unat [OF mq_invD(1) [OF inv]]
  by (auto simp: prod_slot_def split: enq_pc.splits)

lemma cons_slot_ticket:
  assumes inv: "mq_inv n s" and c: "sys_cons s = Some pc" and "cons_slot (sys_q s) pc = Some j"
  shows "\<exists>k. released s \<le> k \<and> k < released s + n \<and> \<not> pending s k \<and> j = k mod n"
proof -
  note D = mq_invD [OF inv]
  have n0: "0 < n" using mq_shape_pos [OF D(1)] .
  have old: "\<not> pending s k" if "k < n_taken s" for k
    using that ticket_window(1) [OF inv] by (force simp: pending_def)
  obtain i m where i: "j = unat i mod n" "pc \<in> {DeqMsg i, DeqNull i m, DeqIdx i m, DeqRel i m}"
    using assms(3) slot_pos_unat [OF D(1)] by (auto simp: cons_slot_def split: deq_pc.splits)
  then have "released s = unat i" "\<not> pending s (unat i)"
    using D(7) c old [of "unat i"] by (auto simp: cons_ok_def released_def mid_dequeue_def)
  then show ?thesis using i(1) n0 by auto
qed

lemma new_queue_inv:
  assumes "mail_queue_new sz = Inr q" "2 \<le> unat sz" "mq_reachable q s"
    "n_claimed s + unat (mq_size q) < index_limit"
  shows "mq_inv (unat (mq_size q)) s"
  using assms mail_queue_new_rep [OF assms(1,2)] by (intro mq_reachable_inv) auto

lemma run_witness:
  "map_option f (mq_run as (sys_start q)) = Some v \<Longrightarrow> \<exists>s. mq_reachable q s \<and> f s = v"
  using mq_run_reachable [OF _ reach_start] by (auto simp: map_option_case split: option.splits)

text \<open>A ring with two slots, for concrete runs.\<close>

definition ring2 :: mail_queue where
  "ring2 = \<lparr>mq_write_index = 0, mq_read_index = 0,
     mq_queue = [\<lparr>slot_sequence = 0, slot_message = None\<rparr>, \<lparr>slot_sequence = 1, slot_message = None\<rparr>],
     mq_size = 2, mq_mask = 1\<rparr>"

lemma bit_ceil_2: "bit_ceil 2 = Inr 2"
  by code_simp

lemma ring2_new: "mail_queue_new 2 = Inr ring2"
  by (simp add: mail_queue_new_def bit_ceil_2 ring2_def upt_rec)

lemma ring2_size [simp]: "unat (mq_size ring2) = 2"
  by (simp add: ring2_def)

lemma ring2_arg: "2 \<le> unat (2 :: size_t)"
  by simp

text \<open>
  C4: the mail queue is first-in first-out under any interleaving of producers with the
  consumer. What the consumer has read out so far is exactly the oldest part of the messages in
  the order in which their producers claimed a place: nothing is lost, doubled, reordered or
  read before it is written, and at most \<^verbatim>\<open>size_\<close> messages are in the ring. The bound on the number
  of claimed places is the range in which the indices are read the same signed and unsigned.
\<close>

theorem mail_queue_fifo:
  assumes "mail_queue_new sz = Inr q" and "2 \<le> unat sz" and "mq_reachable q s"
    and "length (sys_claimed s) + unat (mq_size q) < index_limit"
  shows "sys_taken s = map Some (take (length (sys_taken s)) (sys_claimed s))
       \<and> length (sys_taken s) \<le> length (sys_claimed s)
       \<and> length (sys_claimed s) \<le> length (sys_taken s) + unat (mq_size q)"
  using mq_invD [OF new_queue_inv [OF assms]] released_le [of s] by auto

theorem mail_queue_fifo_witness:
  "\<exists>s. mq_reachable ring2 s \<and> sys_claimed s = [7, 8] \<and> sys_taken s = [Some 7]
     \<and> sys_taken s = map Some (take (length (sys_taken s)) (sys_claimed s))"
proof -
  have "map_option (\<lambda>s. (sys_claimed s, sys_taken s))
      (mq_run ([ProdCall 0 7, ProdCall 1 8] @ replicate 5 (ProdStep 0 False) @ replicate 4 (ProdStep 1 False)
        @ ConsCall # replicate 4 ConsStep) (sys_start ring2)) = Some ([7, 8], [Some 7])"
    by code_simp
  from run_witness [OF this] obtain s where s: "mq_reachable ring2 s" "sys_claimed s = [7, 8]"
    "sys_taken s = [Some 7]" by auto
  have "length (sys_claimed s) + unat (mq_size ring2) < index_limit" using s by simp
  from mail_queue_fifo [OF ring2_new ring2_arg s(1) this] s show ?thesis by blast
qed

text \<open>
  C16: no two threads ever meet in a slot of the mail queue. A producer that is about to write
  or publish a slot is the only producer at that slot, and the consumer is not at it; so the
  plain (non-atomic) message pointer in a slot is never accessed by two threads at once.
\<close>

theorem mail_queue_race_free:
  assumes "mail_queue_new sz = Inr q" and "2 \<le> unat sz" and "mq_reachable q s"
    and "length (sys_claimed s) + unat (mq_size q) < index_limit"
    and p: "sys_prod s p = Some (m, pc)" and j: "prod_slot (sys_q s) pc = Some j"
  shows "(\<forall>p' m' pc'. p' \<noteq> p \<and> sys_prod s p' = Some (m', pc') \<longrightarrow> prod_slot (sys_q s) pc' \<noteq> Some j)
       \<and> (\<forall>cpc. sys_cons s = Some cpc \<longrightarrow> cons_slot (sys_q s) cpc \<noteq> Some j)"
proof -
  define n where "n = unat (mq_size q)"
  have inv: "mq_inv n s" using new_queue_inv [OF assms(1-4)] by (simp add: n_def)
  obtain k where k: "holds_ticket pc k" "j = k mod n" using prod_slot_ticket [OF inv p j] by blast
  note w = ticket_window(3,4) [OF inv p k(1)]
  show ?thesis
  proof (intro conjI allI impI notI)
    fix p' m' pc'
    assume p': "p' \<noteq> p \<and> sys_prod s p' = Some (m', pc')" and "prod_slot (sys_q s) pc' = Some j"
    then obtain k' where k': "holds_ticket pc' k'" "j = k' mod n"
      using prod_slot_ticket [OF inv] by blast
    have "released s \<le> k'" "k' < released s + n" using ticket_window(3,4) [OF inv _ k'(1)] p' by blast+
    moreover have "k' mod n = k mod n" using k'(2) k(2) by metis
    ultimately have "k' = k" using w by (metis mod_window_inj)
    then show False using mq_inv_excl [OF inv p, of p' m' pc' k] p' k k' by auto
  next
    fix cpc
    assume "sys_cons s = Some cpc" "cons_slot (sys_q s) cpc = Some j"
    then obtain k' where k': "released s \<le> k'" "k' < released s + n" "\<not> pending s k'" "j = k' mod n"
      using cons_slot_ticket [OF inv] by blast
    have "k' mod n = k mod n" using k'(4) k(2) by metis
    with k'(1,2) w have "k' = k" by (rule mod_window_inj)
    then show False using k'(3) pendingI [OF p k(1)] by simp
  qed
qed

theorem mail_queue_race_free_witness:
  "\<exists>s. mq_reachable ring2 s \<and> sys_prod s 0 = Some (7, EnqMsg 0) \<and> sys_prod s 1 = Some (8, EnqPub 1)
     \<and> prod_slot (sys_q s) (EnqMsg 0) = Some 0 \<and> prod_slot (sys_q s) (EnqPub 1) \<noteq> Some 0"
proof -
  have "map_option (\<lambda>s. (sys_prod s 0, sys_prod s 1, length (sys_claimed s), prod_slot (sys_q s) (EnqMsg 0)))
      (mq_run ([ProdCall 0 7, ProdCall 1 8] @ replicate 3 (ProdStep 0 False) @ replicate 4 (ProdStep 1 False))
        (sys_start ring2)) = Some (Some (7, EnqMsg 0), Some (8, EnqPub 1), 2, Some 0)"
    by code_simp
  from run_witness [OF this] obtain s where s: "mq_reachable ring2 s"
    "sys_prod s 0 = Some (7, EnqMsg 0)" "sys_prod s 1 = Some (8, EnqPub 1)"
    "length (sys_claimed s) = 2" "prod_slot (sys_q s) (EnqMsg 0) = Some 0" by auto
  have "length (sys_claimed s) + unat (mq_size ring2) < index_limit" using s by simp
  from mail_queue_race_free [OF ring2_new ring2_arg s(1) this s(2,5)]
  have "prod_slot (sys_q s) (EnqPub 1) \<noteq> Some 0" using s(3) by (metis one_neq_zero)
  then show ?thesis using s by blast
qed

text \<open>
  No step of the mail queue has undefined behaviour, and a thread that has not returned can
  always take its next step: the signed difference of sequence and index never overflows while
  fewer than \<open>2 ^ 63\<close> places have been claimed.
\<close>

theorem mail_queue_no_fault:
  assumes "mail_queue_new sz = Inr q" and "2 \<le> unat sz" and "mq_reachable q s"
    and "length (sys_claimed s) + unat (mq_size q) < index_limit"
  shows "(\<forall>p m pc sp. sys_prod s p = Some (m, pc) \<longrightarrow> (\<exists>q' pc'. enq_step sp m (sys_q s) pc = Inr (q', pc')))
       \<and> (\<forall>pc. sys_cons s = Some pc \<longrightarrow> (\<exists>q' pc'. deq_step (sys_q s) pc = Inr (q', pc')))"
proof (intro conjI allI impI)
  note inv = new_queue_inv [OF assms]
  fix p m pc sp
  assume p: "sys_prod s p = Some (m, pc)"
  show "\<exists>q' pc'. enq_step sp m (sys_q s) pc = Inr (q', pc')"
  proof (cases pc)
    case (EnqSeq w)
    have "unat w \<le> length (sys_claimed s)"
      using mq_inv_prod [OF inv p] EnqSeq by (simp add: prod_ok_def)
    from enq_seq_result [OF inv this] EnqSeq show ?thesis by auto
  qed auto
next
  note inv = new_queue_inv [OF assms]
  fix pc
  assume c: "sys_cons s = Some pc"
  show "\<exists>q' pc'. deq_step (sys_q s) pc = Inr (q', pc')"
  proof (cases pc)
    case (DeqSeq i)
    from deq_seq_result [OF inv] c DeqSeq show ?thesis by auto
  qed auto
qed

text \<open>
  C24: the two refusals of the mail queue are justified. \<^verbatim>\<open>try_enqueue\<close> gives up only at a moment
  when every slot is claimed and not yet given back; \<^verbatim>\<open>try_dequeue\<close> reports an empty queue only
  at a moment when the oldest message that was not read is missing or still being written.
\<close>

theorem mail_queue_refusals:
  assumes "mail_queue_new sz = Inr q" and "2 \<le> unat sz" and "mq_reachable q s"
    and "length (sys_claimed s) + unat (mq_size q) < index_limit"
  shows "(\<forall>p m w sp q'. sys_prod s p = Some (m, EnqSeq w)
              \<and> enq_step sp m (sys_q s) (EnqSeq w) = Inr (q', EnqRet False) \<longrightarrow>
            length (sys_claimed s) = released s + unat (mq_size q))
       \<and> (\<forall>i q'. sys_cons s = Some (DeqSeq i) \<and> deq_step (sys_q s) (DeqSeq i) = Inr (q', DeqRet None) \<longrightarrow>
            length (sys_claimed s) \<le> length (sys_taken s) \<or> pending s (length (sys_taken s)))"
proof (intro conjI allI impI)
  note inv = new_queue_inv [OF assms]
  fix p m w sp q'
  assume a: "sys_prod s p = Some (m, EnqSeq w) \<and> enq_step sp m (sys_q s) (EnqSeq w) = Inr (q', EnqRet False)"
  have "unat w \<le> length (sys_claimed s)" using mq_inv_prod [OF inv] a by (force simp: prod_ok_def)
  from enq_seq_result [OF inv this] a
  show "length (sys_claimed s) = released s + unat (mq_size q)" by (auto split: if_splits)
next
  note inv = new_queue_inv [OF assms]
  fix i q'
  assume a: "sys_cons s = Some (DeqSeq i) \<and> deq_step (sys_q s) (DeqSeq i) = Inr (q', DeqRet None)"
  from deq_seq_result [OF inv conjunct1 [OF a]] a
  show "length (sys_claimed s) \<le> length (sys_taken s) \<or> pending s (length (sys_taken s))"
    by (auto split: if_splits)
qed

theorem mail_queue_refusals_witness:
  "\<exists>s. mq_reachable ring2 s \<and> sys_prod s 0 = Some (9, EnqSeq 2) \<and> length (sys_claimed s) = 2
     \<and> enq_step False 9 (sys_q s) (EnqSeq 2) = Inr (sys_q s, EnqRet False)
     \<and> length (sys_claimed s) = released s + 2"
proof -
  have "map_option (\<lambda>s. (sys_prod s 0, length (sys_claimed s), enq_step False 9 (sys_q s) (EnqSeq 2) = Inr (sys_q s, EnqRet False)))
      (mq_run ([ProdCall 0 7, ProdCall 1 8] @ replicate 5 (ProdStep 0 False) @ replicate 4 (ProdStep 1 False)
        @ [ProdReturn 0, ProdCall 0 9, ProdStep 0 False]) (sys_start ring2))
      = Some (Some (9, EnqSeq 2), 2, True)"
    by code_simp
  from run_witness [OF this] obtain s where s: "mq_reachable ring2 s" "sys_prod s 0 = Some (9, EnqSeq 2)"
    "length (sys_claimed s) = 2" "enq_step False 9 (sys_q s) (EnqSeq 2) = Inr (sys_q s, EnqRet False)"
    by auto
  have "length (sys_claimed s) + unat (mq_size ring2) < index_limit" using s by simp
  from mail_queue_refusals [OF ring2_new ring2_arg s(1) this]
  have "length (sys_claimed s) = released s + unat (mq_size ring2)" using s(2,4) by blast
  then show ?thesis using s by auto
qed

text \<open>
  C25: when every thread has returned, the queue holds exactly the messages that were claimed
  and not taken, in order, in the representation that the sequential operations work on.
\<close>

theorem mail_queue_quiescent:
  assumes "mail_queue_new sz = Inr q" and "2 \<le> unat sz" and "mq_reachable q s"
    and "length (sys_claimed s) + 2 * unat (mq_size q) < index_limit"
    and idle: "\<forall>p. sys_prod s p = None" "sys_cons s = None"
  shows "mq_rep (unat (mq_size q)) (length (sys_taken s)) (drop (length (sys_taken s)) (sys_claimed s)) (sys_q s)"
proof -
  define n where "n = unat (mq_size q)"
  have inv: "mq_inv n s" using new_queue_inv [OF assms(1-3)] assms(4) by (simp add: n_def)
  note D = mq_invD [OF inv]
  have rel: "released s = n_taken s" using idle(2) by (simp add: released_def mid_dequeue_def)
  have pend: "\<not> pending s k" for k using idle(1) by (simp add: pending_def)
  have "slot_holds (n_taken s) (drop (n_taken s) (sys_claimed s)) k (mq_queue (sys_q s) ! (k mod n))"
    if "n_taken s \<le> k" "k < n_taken s + n" for k
  proof -
    have "slot_ok n s k" using mq_inv_slot [OF inv, of k] that rel by simp
    then show ?thesis using that pend D(4)
      by (auto simp: slot_holds_def slot_ok_def intro!: Slot.equality of_nat_of_unat
          simp del: of_nat_Suc split: if_splits)
  qed
  moreover have "mq_read_index (sys_q s) = of_nat (n_taken s)"
    using D(7) idle(2) by (intro of_nat_of_unat) (simp add: cons_ok_def)
  moreover have "mq_write_index (sys_q s) = of_nat (n_claimed s)"
    using D(3) by (rule of_nat_of_unat)
  ultimately show ?thesis
    using D(1,4,6) rel assms(4) unfolding mq_rep_def n_def [symmetric] by simp
qed

theorem mail_queue_quiescent_witness:
  "\<exists>s. mq_reachable ring2 s \<and> mq_rep 2 0 [7] (sys_q s)"
proof -
  have "map_option (\<lambda>s. (sys_prod s 0, sys_claimed s, sys_taken s, sys_cons s))
      (mq_run (ProdCall 0 7 # replicate 5 (ProdStep 0 False) @ [ProdReturn 0]) (sys_start ring2))
      = Some (None, [7], [], None)"
    by code_simp
  then obtain t where t: "mq_run (ProdCall 0 7 # replicate 5 (ProdStep 0 False) @ [ProdReturn 0]) (sys_start ring2) = Some t"
    "sys_prod t 0 = None" "sys_claimed t = [7]" "sys_taken t = []" "sys_cons t = None"
    by auto
  have reach: "mq_reachable ring2 t" using mq_run_reachable [OF t(1) reach_start] .
  have others: "sys_prod t p = None" for p
    using t(1,2) by (cases "p = 0") (auto simp: eval_nat_numeral sys_start_def split: option.splits sum.splits prod.splits enq_pc.splits)
  have "length (sys_claimed t) + 2 * unat (mq_size ring2) < index_limit" using t by simp
  from mail_queue_quiescent [OF ring2_new ring2_arg reach this] t others reach show ?thesis by auto
qed

end
