(* ===== verification/SPSC_Queue.thy ===== *)
theory SPSC_Queue
  imports Queue_Interface
begin

text \<open>
  The single-producer single-consumer ring buffer \<^verbatim>\<open>SPSCQueue<T, N>\<close> of \<^verbatim>\<open>include/queue.h\<close>: its
  two operations as machines that make one shared access per step, its behaviour for a client
  that calls it one operation at a time, and its behaviour when the producer and the consumer
  run at the same time. The indices are never reduced and wrap around at \<open>2 ^ 64\<close>, which is
  harmless because \<open>N\<close> divides \<open>2 ^ 64\<close>: no bound on the number of operations is needed.
\<close>

section \<open>Data and operations\<close>

record 'a spsc_queue =
  sq_write_index :: size_t
  sq_read_index :: size_t
  sq_queue :: "'a list"
  sq_N :: size_t

text \<open>The array starts with default values \<open>v\<close>, which no operation ever hands out.\<close>

definition spsc_new :: "size_t \<Rightarrow> 'a \<Rightarrow> 'a spsc_queue" where
  "spsc_new n v =
     \<lparr>sq_write_index = 0, sq_read_index = 0, sq_queue = replicate (unat n) v, sq_N = n\<rparr>"

definition sq_pos :: "'a spsc_queue \<Rightarrow> size_t \<Rightarrow> nat" where
  "sq_pos q idx = unat (idx AND (sq_N q - 1))"

text \<open>
  The producer inside \<^verbatim>\<open>try_enqueue\<close>: about to load the write index, to load the read index
  and compare, to store the element, to publish the new write index; returned.
\<close>

datatype sq_enq_pc = SEnqTail | SEnqFront size_t | SEnqStore size_t | SEnqPub size_t | SEnqRet bool

primrec sq_enq_step :: "'a \<Rightarrow> 'a spsc_queue \<Rightarrow> sq_enq_pc \<Rightarrow> 'a spsc_queue \<times> sq_enq_pc" where
  "sq_enq_step item q SEnqTail = (q, SEnqFront (sq_write_index q))"
| "sq_enq_step item q (SEnqFront tail) =
     (let front = sq_read_index q
      in (q, if (tail + 1) AND (sq_N q - 1) = front AND (sq_N q - 1) then SEnqRet False
             else SEnqStore tail))"
| "sq_enq_step item q (SEnqStore tail) =
     (q\<lparr>sq_queue := (sq_queue q)[sq_pos q tail := item]\<rparr>, SEnqPub tail)"
| "sq_enq_step item q (SEnqPub tail) = (q\<lparr>sq_write_index := tail + 1\<rparr>, SEnqRet True)"
| "sq_enq_step item q (SEnqRet b) = (q, SEnqRet b)"

text \<open>The consumer inside \<^verbatim>\<open>try_dequeue\<close>, in the same way.\<close>

datatype 'a sq_deq_pc =
    SDeqFront | SDeqTail size_t | SDeqItem size_t | SDeqPub size_t 'a | SDeqRet "'a option"

primrec sq_deq_step :: "'a spsc_queue \<Rightarrow> 'a sq_deq_pc \<Rightarrow> 'a spsc_queue \<times> 'a sq_deq_pc" where
  "sq_deq_step q SDeqFront = (q, SDeqTail (sq_read_index q))"
| "sq_deq_step q (SDeqTail front) =
     (q, if front = sq_write_index q then SDeqRet None else SDeqItem front)"
| "sq_deq_step q (SDeqItem front) = (q, SDeqPub front (sq_queue q ! sq_pos q front))"
| "sq_deq_step q (SDeqPub front x) = (q\<lparr>sq_read_index := front + 1\<rparr>, SDeqRet (Some x))"
| "sq_deq_step q (SDeqRet r) = (q, SDeqRet r)"

text \<open>The calls run to their end by one thread: at most four shared accesses each.\<close>

fun sq_enq_run :: "nat \<Rightarrow> 'a \<Rightarrow> 'a spsc_queue \<Rightarrow> sq_enq_pc \<Rightarrow> (bool \<times> 'a spsc_queue) res option" where
  "sq_enq_run fuel item q (SEnqRet b) = Some (Inr (b, q))"
| "sq_enq_run 0 item q pc = None"
| "sq_enq_run (Suc fuel) item q pc =
     (case sq_enq_step item q pc of (q', pc') \<Rightarrow> sq_enq_run fuel item q' pc')"

fun sq_deq_run :: "nat \<Rightarrow> 'a spsc_queue \<Rightarrow> 'a sq_deq_pc \<Rightarrow> ('a option \<times> 'a spsc_queue) res option" where
  "sq_deq_run fuel q (SDeqRet r) = Some (Inr (r, q))"
| "sq_deq_run 0 q pc = None"
| "sq_deq_run (Suc fuel) q pc =
     (case sq_deq_step q pc of (q', pc') \<Rightarrow> sq_deq_run fuel q' pc')"

definition spsc_try_enqueue :: "'a \<Rightarrow> 'a spsc_queue \<Rightarrow> (bool \<times> 'a spsc_queue) res option" where
  "spsc_try_enqueue item q = sq_enq_run 4 item q SEnqTail"

definition spsc_try_dequeue :: "'a spsc_queue \<Rightarrow> ('a option \<times> 'a spsc_queue) res option" where
  "spsc_try_dequeue q = sq_deq_run 4 q SDeqFront"

section \<open>One operation at a time\<close>

lemma spsc_try_enqueue_eq:
  "spsc_try_enqueue item q =
     (if (sq_write_index q + 1) AND (sq_N q - 1) = sq_read_index q AND (sq_N q - 1)
      then Some (Inr (False, q))
      else Some (Inr (True,
             q\<lparr>sq_queue := (sq_queue q)[sq_pos q (sq_write_index q) := item],
               sq_write_index := sq_write_index q + 1\<rparr>)))"
  by (simp add: spsc_try_enqueue_def eval_nat_numeral Let_def)

lemma spsc_try_dequeue_eq:
  "spsc_try_dequeue q =
     (if sq_read_index q = sq_write_index q then Some (Inr (None, q))
      else Some (Inr (Some (sq_queue q ! sq_pos q (sq_read_index q)),
             q\<lparr>sq_read_index := sq_read_index q + 1\<rparr>)))"
  by (simp add: spsc_try_dequeue_def eval_nat_numeral Let_def)

text \<open>
  What an idle queue holds: the elements from the read index up to the write index, at most
  \<open>N - 1\<close> of them.
\<close>

definition spsc_rep :: "size_t \<Rightarrow> 'a list \<Rightarrow> 'a spsc_queue \<Rightarrow> bool" where
  "spsc_rep n xs q \<longleftrightarrow>
     has_single_bit n \<and> sq_N q = n \<and> length (sq_queue q) = unat n \<and> length xs < unat n \<and>
     sq_write_index q = sq_read_index q + of_nat (length xs) \<and>
     (\<forall>i<length xs. sq_queue q ! ((unat (sq_read_index q) + i) mod unat n) = xs ! i)"

lemma sq_full_iff:
  assumes "has_single_bit n" "k < unat n"
  shows "(r + of_nat k + 1) AND (n - 1) = r AND (n - 1) \<longleftrightarrow> Suc k = unat n"
proof -
  have "(r + of_nat k + 1) AND (n - 1) = r AND (n - 1)
          \<longleftrightarrow> (unat r + Suc k) mod unat n = unat r mod unat n"
    using unat_index_plus [OF assms(1), of r "Suc k"] unat_and_mask [OF assms(1), of r]
    by (metis (no_types, lifting) add.assoc add.commute of_nat_Suc word_unat_eq_iff)
  also have "\<dots> \<longleftrightarrow> Suc k = unat n"
  proof
    assume "(unat r + Suc k) mod unat n = unat r mod unat n"
    then show "Suc k = unat n"
      using mod_window_eq [of "unat r" "unat n" "unat r + Suc k"] assms(2) by (cases "Suc k < unat n") auto
  next
    assume "Suc k = unat n"
    then show "(unat r + Suc k) mod unat n = unat r mod unat n" by simp
  qed
  finally show ?thesis .
qed

lemma sq_new_rep: "has_single_bit n \<Longrightarrow> spsc_rep n [] (spsc_new n v)"
  by (simp add: spsc_rep_def spsc_new_def has_single_bit_pos)

lemma spsc_enqueue_rep:
  assumes rep: "spsc_rep n xs q" and room: "Suc (length xs) < unat n"
  shows "\<exists>q'. spsc_try_enqueue x q = Some (Inr (True, q')) \<and> spsc_rep n (xs @ [x]) q'"
proof -
  let ?r = "sq_read_index q" let ?q' = "q\<lparr>sq_queue := (sq_queue q)[sq_pos q (sq_write_index q) := x],
               sq_write_index := sq_write_index q + 1\<rparr>"
  have n: "has_single_bit n" and N: "sq_N q = n" and w: "sq_write_index q = ?r + of_nat (length xs)"
    and len: "length (sq_queue q) = unat n"
    and el: "\<And>i. i < length xs \<Longrightarrow> sq_queue q ! ((unat ?r + i) mod unat n) = xs ! i"
    using rep by (auto simp: spsc_rep_def)
  have pos: "sq_pos q (sq_write_index q) = (unat ?r + length xs) mod unat n"
    by (simp add: sq_pos_def N w unat_index_plus [OF n])
  have "spsc_try_enqueue x q = Some (Inr (True, ?q'))"
    using sq_full_iff [OF n, of "length xs" ?r] room by (simp add: spsc_try_enqueue_eq N w)
  moreover have "(sq_queue q)[(unat ?r + length xs) mod unat n := x] ! ((unat ?r + i) mod unat n) = (xs @ [x]) ! i"
    if "i < Suc (length xs)" for i
  proof (cases "i = length xs")
    case True
    then show ?thesis using len room by simp
  next
    case False
    then have "(unat ?r + i) mod unat n \<noteq> (unat ?r + length xs) mod unat n"
      using that room mod_window_inj [of "unat ?r" "unat ?r + i" "unat n" "unat ?r + length xs"] by auto
    then show ?thesis using False that el [of i] by (simp add: nth_append)
  qed
  then have "spsc_rep n (xs @ [x]) ?q'"
    using n N len room by (simp add: spsc_rep_def pos) (simp add: w)
  ultimately show ?thesis by blast
qed

lemma spsc_enqueue_full:
  assumes "spsc_rep n xs q" "Suc (length xs) = unat n"
  shows "spsc_try_enqueue x q = Some (Inr (False, q))"
  using assms sq_full_iff [of n "length xs" "sq_read_index q"]
  by (simp add: spsc_rep_def spsc_try_enqueue_eq)

lemma spsc_dequeue_rep:
  assumes rep: "spsc_rep n (x # xs) q"
  shows "\<exists>q'. spsc_try_dequeue q = Some (Inr (Some x, q')) \<and> spsc_rep n xs q'"
proof -
  let ?r = "sq_read_index q" let ?q' = "q\<lparr>sq_read_index := sq_read_index q + 1\<rparr>"
  have n: "has_single_bit n" and N: "sq_N q = n" and w: "sq_write_index q = ?r + of_nat (Suc (length xs))"
    and len: "length (sq_queue q) = unat n" and short: "Suc (length xs) < unat n"
    and el: "\<And>i. i < Suc (length xs) \<Longrightarrow> sq_queue q ! ((unat ?r + i) mod unat n) = (x # xs) ! i"
    using rep by (auto simp: spsc_rep_def)
  have "(of_nat (Suc (length xs)) :: size_t) \<noteq> 0"
    using short unat_less_word [of n] unat_of_nat64 [of "Suc (length xs)"]
    by (metis Zero_not_Suc less_trans unsigned_0)
  then have ne: "?r \<noteq> sq_write_index q" by (simp add: w del: of_nat_Suc)
  have "sq_queue q ! sq_pos q ?r = x"
    using el [of 0] by (simp add: sq_pos_def N unat_and_mask [OF n])
  then have "spsc_try_dequeue q = Some (Inr (Some x, ?q'))"
    using ne by (simp add: spsc_try_dequeue_eq)
  moreover have "sq_queue q ! ((unat (?r + 1) + i) mod unat n) = xs ! i" if "i < length xs" for i
    using unat_index_plus [OF n, of "?r + 1" i] unat_index_plus [OF n, of ?r "Suc i"] el [of "Suc i"] that
    by (simp add: algebra_simps)
  then have "spsc_rep n xs ?q'"
    using short n N len w by (simp add: spsc_rep_def algebra_simps)
  ultimately show ?thesis by blast
qed

interpretation spsc_fifo: bounded_fifo spsc_try_enqueue spsc_try_dequeue id "unat n - 1" "\<lambda>_. spsc_rep n" for n
proof
  fix b xs and q :: "'a spsc_queue" and x
  show "spsc_rep n xs q \<Longrightarrow> length xs \<le> unat n - 1" by (auto simp: spsc_rep_def)
  show "spsc_rep n xs q \<Longrightarrow> length xs < unat n - 1 \<Longrightarrow>
      \<exists>q'. spsc_try_enqueue x q = Some (Inr (True, q')) \<and> spsc_rep n (xs @ [x]) q'"
    by (rule spsc_enqueue_rep) auto
  show "spsc_rep n xs q \<Longrightarrow> length xs = unat n - 1 \<Longrightarrow>
      \<exists>q'. spsc_try_enqueue x q = Some (Inr (False, q')) \<and> spsc_rep n xs q'"
    using spsc_enqueue_full [of n xs q x] by (auto simp: spsc_rep_def)
  show "spsc_rep n [] q \<Longrightarrow> \<exists>q'. spsc_try_dequeue q = Some (Inr (None, q')) \<and> spsc_rep n [] q'"
    by (simp add: spsc_rep_def spsc_try_dequeue_eq)
  show "spsc_rep n (x # xs) q \<Longrightarrow>
      \<exists>q'. spsc_try_dequeue q = Some (Inr (Some (id x), q')) \<and> spsc_rep n xs q'"
    using spsc_dequeue_rep by simp
qed

text \<open>
  Called one operation at a time, an \<^verbatim>\<open>SPSCQueue<T, N>\<close> answers any sequence of \<^verbatim>\<open>try_enqueue\<close> and
  \<^verbatim>\<open>try_dequeue\<close> calls, of any length, as a first-in first-out queue of capacity \<open>N - 1\<close> does.
\<close>

theorem spsc_queue_refines_fifo:
  assumes "has_single_bit n" and "fifo_exec (unat n - 1) ops [] = (rs, ys)"
  shows "\<exists>q. queue_exec spsc_try_enqueue spsc_try_dequeue ops (spsc_new n v) = Some (Inr (rs, q))
           \<and> spsc_rep n ys q"
  using spsc_fifo.exec_refines_fifo [OF sq_new_rep [OF assms(1), of v] assms(2)]
  by (simp add: queue_ret.map_id0)

lemma single_bit_2: "has_single_bit 2"
  unfolding has_single_bit_def by (rule exI [of _ 1]) simp

section \<open>Producer and consumer at the same time\<close>

text \<open>
  The queue with its two threads, and what they have published and consumed so far. Both
  threads call the operations over and over; an action lets one of them begin a call (when
  its last one has returned) or make its next shared access.
\<close>

record 'a sq_sys =
  sq_q :: "'a spsc_queue"
  sq_item :: 'a
  sq_prod :: sq_enq_pc
  sq_cons :: "'a sq_deq_pc"
  sq_in :: "'a list"
  sq_out :: "'a list"

datatype 'a sq_action = ProdCall 'a | ProdStep | ConsCall | ConsStep

definition sq_sys_start :: "size_t \<Rightarrow> 'a \<Rightarrow> 'a sq_sys" where
  "sq_sys_start n v =
     \<lparr>sq_q = spsc_new n v, sq_item = v, sq_prod = SEnqRet False, sq_cons = SDeqRet None,
      sq_in = [], sq_out = []\<rparr>"

fun sq_act :: "'a sq_action \<Rightarrow> 'a sq_sys \<Rightarrow> 'a sq_sys" where
  "sq_act (ProdCall x) s =
     (case sq_prod s of SEnqRet _ \<Rightarrow> s\<lparr>sq_item := x, sq_prod := SEnqTail\<rparr> | _ \<Rightarrow> s)"
| "sq_act ProdStep s =
     (let (q, pc) = sq_enq_step (sq_item s) (sq_q s) (sq_prod s)
      in s\<lparr>sq_q := q, sq_prod := pc,
           sq_in := (case sq_prod s of SEnqPub _ \<Rightarrow> sq_in s @ [sq_item s] | _ \<Rightarrow> sq_in s)\<rparr>)"
| "sq_act ConsCall s = (case sq_cons s of SDeqRet _ \<Rightarrow> s\<lparr>sq_cons := SDeqFront\<rparr> | _ \<Rightarrow> s)"
| "sq_act ConsStep s =
     (let (q, pc) = sq_deq_step (sq_q s) (sq_cons s)
      in s\<lparr>sq_q := q, sq_cons := pc,
           sq_out := (case sq_cons s of SDeqPub _ x \<Rightarrow> sq_out s @ [x] | _ \<Rightarrow> sq_out s)\<rparr>)"

definition sq_run :: "'a sq_action list \<Rightarrow> 'a sq_sys \<Rightarrow> 'a sq_sys" where
  "sq_run acts s = fold sq_act acts s"

text \<open>
  The invariant, over the numbers \<open>w\<close> and \<open>r\<close> of elements published and consumed: the shared
  indices are those numbers modulo \<open>2 ^ 64\<close>, and what a thread knows from an earlier load is
  still good enough for its next access.
\<close>

definition sq_ring_ok :: "size_t \<Rightarrow> nat \<Rightarrow> nat \<Rightarrow> 'a list \<Rightarrow> 'a spsc_queue \<Rightarrow> bool" where
  "sq_ring_ok n w r ys q \<longleftrightarrow>
     has_single_bit n \<and> sq_N q = n \<and> length (sq_queue q) = unat n \<and>
     r \<le> w \<and> w < r + unat n \<and> sq_write_index q = of_nat w \<and> sq_read_index q = of_nat r \<and>
     (\<forall>k. r \<le> k \<and> k < w \<longrightarrow> sq_queue q ! (k mod unat n) = ys ! k)"

primrec sq_prod_ok :: "size_t \<Rightarrow> nat \<Rightarrow> nat \<Rightarrow> 'a \<Rightarrow> 'a spsc_queue \<Rightarrow> sq_enq_pc \<Rightarrow> bool" where
  "sq_prod_ok n w r x q SEnqTail \<longleftrightarrow> True"
| "sq_prod_ok n w r x q (SEnqFront t) \<longleftrightarrow> t = of_nat w"
| "sq_prod_ok n w r x q (SEnqStore t) \<longleftrightarrow> t = of_nat w \<and> Suc w < r + unat n"
| "sq_prod_ok n w r x q (SEnqPub t) \<longleftrightarrow>
     t = of_nat w \<and> Suc w < r + unat n \<and> sq_queue q ! (w mod unat n) = x"
| "sq_prod_ok n w r x q (SEnqRet b) \<longleftrightarrow> True"

primrec sq_cons_ok :: "nat \<Rightarrow> nat \<Rightarrow> 'a list \<Rightarrow> 'a sq_deq_pc \<Rightarrow> bool" where
  "sq_cons_ok w r ys SDeqFront \<longleftrightarrow> True"
| "sq_cons_ok w r ys (SDeqTail f) \<longleftrightarrow> f = of_nat r"
| "sq_cons_ok w r ys (SDeqItem f) \<longleftrightarrow> f = of_nat r \<and> r < w"
| "sq_cons_ok w r ys (SDeqPub f x) \<longleftrightarrow> f = of_nat r \<and> r < w \<and> x = ys ! r"
| "sq_cons_ok w r ys (SDeqRet v) \<longleftrightarrow> True"

definition sq_inv :: "size_t \<Rightarrow> 'a sq_sys \<Rightarrow> bool" where
  "sq_inv n s \<longleftrightarrow>
     (let w = length (sq_in s); r = length (sq_out s)
      in sq_ring_ok n w r (sq_in s) (sq_q s) \<and> sq_out s = take r (sq_in s) \<and>
         sq_prod_ok n w r (sq_item s) (sq_q s) (sq_prod s) \<and> sq_cons_ok w r (sq_in s) (sq_cons s))"

lemma sq_inv_start: "has_single_bit n \<Longrightarrow> sq_inv n (sq_sys_start n v)"
  by (simp add: sq_inv_def sq_sys_start_def spsc_new_def sq_ring_ok_def has_single_bit_pos)

lemma sq_index_eq:
  assumes "has_single_bit n" "r \<le> w" "w < r + unat n"
  shows "(of_nat r :: size_t) = of_nat w \<longleftrightarrow> r = w"
proof
  assume "(of_nat r :: size_t) = of_nat w"
  then have "r mod unat n = w mod unat n" by (metis unat_index_of_nat [OF assms(1)])
  then show "r = w" using mod_window_eq assms(2,3) by blast
qed simp

lemma sq_full_of_nat:
  assumes "has_single_bit n" "r \<le> w" "w < r + unat n"
  shows "(of_nat w + 1) AND (n - 1) = of_nat r AND (n - 1) \<longleftrightarrow> Suc w = r + unat n"
  using sq_full_iff [OF assms(1), of "w - r" "of_nat r"] assms(2,3) by (auto simp: of_nat_diff)

text \<open>Writing the slot of the next element leaves every element in the ring alone.\<close>

lemma sq_slot_free:
  assumes "r \<le> k" "k < w" "Suc w < r + n"
  shows "k mod n \<noteq> w mod (n :: nat)"
  using mod_window_inj [of r k n w] assms by auto

lemma sq_inv_prod_step:
  assumes "sq_inv n s"
  shows "sq_inv n (sq_act ProdStep s)"
proof (cases "sq_prod s")
  case (SEnqFront t)
  then show ?thesis using assms sq_full_of_nat [of n "length (sq_out s)" "length (sq_in s)"]
    by (auto simp: sq_inv_def Let_def sq_ring_ok_def)
next
  case (SEnqStore t)
  let ?w = "length (sq_in s)" let ?r = "length (sq_out s)"
  have n: "has_single_bit n" and t: "t = of_nat ?w" and room: "Suc ?w < ?r + unat n" and N: "sq_N (sq_q s) = n"
    using assms SEnqStore by (auto simp: sq_inv_def Let_def sq_ring_ok_def)
  have pos: "sq_pos (sq_q s) (of_nat ?w) = ?w mod unat (sq_N (sq_q s))"
    by (simp add: sq_pos_def N unat_index_of_nat [OF n])
  have "?w mod unat n \<noteq> k mod unat n" if "?r \<le> k" "k < ?w" for k
    using sq_slot_free [OF that room] by metis
  then show ?thesis
    using assms SEnqStore has_single_bit_pos [OF n] by (auto simp: sq_inv_def Let_def sq_ring_ok_def pos)
next
  case (SEnqPub t)
  have same: "sq_cons_ok (Suc w) r (ys @ [x]) pc" if "sq_cons_ok w r ys pc" "w = length ys" for w r ys pc and x :: 'a
    using that by (cases pc) (auto simp: nth_append)
  show ?thesis
    using assms SEnqPub by (auto simp: sq_inv_def Let_def sq_ring_ok_def nth_append less_Suc_eq intro!: same)
qed (use assms in \<open>auto simp: sq_inv_def Let_def sq_ring_ok_def\<close>)

lemma sq_inv_cons_step:
  assumes "sq_inv n s"
  shows "sq_inv n (sq_act ConsStep s)"
proof (cases "sq_cons s")
  case (SDeqTail f)
  then show ?thesis using assms sq_index_eq [of n "length (sq_out s)" "length (sq_in s)"]
    by (auto simp: sq_inv_def Let_def sq_ring_ok_def)
next
  case (SDeqItem f)
  let ?r = "length (sq_out s)"
  have n: "has_single_bit n" and f: "f = of_nat ?r" and N: "sq_N (sq_q s) = n"
    using assms SDeqItem by (auto simp: sq_inv_def Let_def sq_ring_ok_def)
  have "sq_pos (sq_q s) f = ?r mod unat n" by (simp add: sq_pos_def f N unat_index_of_nat [OF n])
  then show ?thesis using assms SDeqItem by (auto simp: sq_inv_def Let_def sq_ring_ok_def)
next
  case (SDeqPub f x)
  have same: "sq_prod_ok n w (Suc r) y q' pc"
    if "sq_prod_ok n w r y q pc" "sq_queue q' = sq_queue q" for n w r y pc and q q' :: "'a spsc_queue"
    using that by (cases pc) auto
  show ?thesis
    using assms SDeqPub by (auto simp: sq_inv_def Let_def sq_ring_ok_def take_Suc_conv_app_nth intro: same)
qed (use assms in \<open>auto simp: sq_inv_def Let_def sq_ring_ok_def\<close>)

lemma sq_inv_act: "sq_inv n s \<Longrightarrow> sq_inv n (sq_act a s)"
proof (cases a)
  case (ProdCall x)
  assume "sq_inv n s"
  then show ?thesis using ProdCall by (cases "sq_prod s") (auto simp: sq_inv_def Let_def)
next
  case ConsCall
  assume "sq_inv n s"
  then show ?thesis using ConsCall by (cases "sq_cons s") (auto simp: sq_inv_def Let_def)
qed (use sq_inv_prod_step sq_inv_cons_step in auto)

lemma sq_inv_run: "sq_inv n s \<Longrightarrow> sq_inv n (sq_run acts s)"
  by (induction acts arbitrary: s) (auto simp: sq_run_def sq_inv_act)

text \<open>
  C29. However the producer's and the consumer's accesses to an \<^verbatim>\<open>SPSCQueue\<close> interleave, and
  however many elements have passed (the indices wrap around freely), the consumer has received
  a prefix of what the producer published, in order, and never are more than \<open>N - 1\<close> elements
  in the ring.
\<close>

theorem spsc_queue_fifo:
  assumes "has_single_bit n" and "s = sq_run acts (sq_sys_start n v)"
  shows "sq_out s = take (length (sq_out s)) (sq_in s)
       \<and> length (sq_out s) \<le> length (sq_in s)
       \<and> length (sq_in s) - length (sq_out s) \<le> unat n - 1"
  using sq_inv_run [OF sq_inv_start [OF assms(1)], of acts v]
  by (auto simp: sq_inv_def Let_def sq_ring_ok_def assms(2))

theorem spsc_queue_fifo_witness:
  "sq_out (sq_run (ProdCall 7 # replicate 4 ProdStep @ [ProdCall (8 :: nat), ConsCall, ConsStep, ProdStep, ConsStep,
                   ProdStep, ConsStep, ConsStep, ProdCall 9]
                   @ replicate 4 ProdStep) (sq_sys_start 2 0)) = [7]
   \<and> sq_in (sq_run (ProdCall 7 # replicate 4 ProdStep @ [ProdCall (8 :: nat), ConsCall, ConsStep, ProdStep, ConsStep,
                   ProdStep, ConsStep, ConsStep, ProdCall 9]
                   @ replicate 4 ProdStep) (sq_sys_start 2 0)) = [7, 9]"
proof -
  let ?acts = "ProdCall 7 # replicate 4 ProdStep @ [ProdCall (8 :: nat), ConsCall, ConsStep, ProdStep, ConsStep,
                   ProdStep, ConsStep, ConsStep, ProdCall 9] @ replicate 4 ProdStep"
  have "sq_in (sq_run ?acts (sq_sys_start 2 0)) = [7, 9] \<and> length (sq_out (sq_run ?acts (sq_sys_start 2 0))) = 1"
    by code_simp
  then show ?thesis
    using spsc_queue_fifo [OF single_bit_2 refl, of ?acts 0] by (simp only:) simp
qed

end
