(* ===== verification/Work_Stealing_Queue.thy ===== *)
theory Work_Stealing_Queue
  imports Prelude
begin

text \<open>
  The work-stealing deque \<^verbatim>\<open>WorkStealingQueue<N>\<close> of \<^verbatim>\<open>include/queue.h\<close>. Its owner pushes and
  pops at the bottom, any number of thieves steal at the top. Every shared access (a load or a
  store of \<^verbatim>\<open>top_\<close>, \<^verbatim>\<open>bottom_\<close> or a slot, a compare-exchange of \<^verbatim>\<open>top_\<close>) is one step; the
  operations are run alone (the sequential behaviour) and interleaved
  (theory \<open>Work_Stealing_Concurrent\<close>).
\<close>

section \<open>Data\<close>

datatype StealState = kEmpty | kSuccess | kAbort

record ws_queue =
  ws_top :: size_t
  ws_bottom :: size_t
  ws_slots :: "handle option list"
  ws_N :: size_t

definition kWorkStealingQueueSize :: size_t where
  "kWorkStealingQueueSize = push_bit 8 1"

definition ws_new :: "size_t \<Rightarrow> ws_queue" where
  "ws_new n = \<lparr>ws_top = 0, ws_bottom = 0, ws_slots = replicate (unat n) None, ws_N = n\<rparr>"

definition ws_pos :: "ws_queue \<Rightarrow> size_t \<Rightarrow> nat" where
  "ws_pos q idx = unat (idx AND (ws_N q - 1))"

section \<open>push\<close>

text \<open>About to load \<^verbatim>\<open>bottom_\<close>; to load \<^verbatim>\<open>top_\<close> and compare; to store the slot; to publish the
  new bottom; returned.\<close>

datatype push_pc = PushBottom | PushTop size_t | PushSlot size_t | PushPub size_t | PushRet bool

primrec push_step :: "handle option \<Rightarrow> ws_queue \<Rightarrow> push_pc \<Rightarrow> ws_queue \<times> push_pc" where
  "push_step h q PushBottom = (q, PushTop (ws_bottom q))"
| "push_step h q (PushTop bt) =
     (let tp = ws_top q in (q, if ws_N q \<le> bt - tp then PushRet False else PushSlot bt))"
| "push_step h q (PushSlot bt) = (q\<lparr>ws_slots := (ws_slots q)[ws_pos q bt := h]\<rparr>, PushPub bt)"
| "push_step h q (PushPub bt) = (q\<lparr>ws_bottom := bt + 1\<rparr>, PushRet True)"
| "push_step h q (PushRet b) = (q, PushRet b)"

section \<open>pop\<close>

text \<open>
  About to load \<^verbatim>\<open>bottom_\<close>; to store the decremented value; to load \<^verbatim>\<open>top_\<close> and compare; to load
  the slot; to compare and swap \<^verbatim>\<open>top_\<close> for the last element; to restore \<^verbatim>\<open>bottom_\<close> (after the
  race for the last element, or because the deque is empty); returned.
\<close>

datatype pop_pc =
    PopLoad
  | PopStore size_t
  | PopTop size_t
  | PopSlot size_t size_t
  | PopCas size_t size_t "handle option"
  | PopRestore size_t "handle option"
  | PopRet StealState "handle option"

definition pop_ret :: "handle option \<Rightarrow> pop_pc" where
  "pop_ret ptr = PopRet (if ptr \<noteq> None then kSuccess else kEmpty) ptr"

primrec pop_step :: "ws_queue \<Rightarrow> pop_pc \<Rightarrow> ws_queue \<times> pop_pc" where
  "pop_step q PopLoad = (q, PopStore (ws_bottom q - 1))"
| "pop_step q (PopStore bt) = (q\<lparr>ws_bottom := bt\<rparr>, PopTop bt)"
| "pop_step q (PopTop bt) =
     (let tp = ws_top q in (q, if sint tp \<le> sint bt then PopSlot tp bt else PopRestore bt None))"
| "pop_step q (PopSlot tp bt) =
     (let ptr = ws_slots q ! ws_pos q bt
      in (q, if tp = bt then PopCas tp bt ptr else pop_ret ptr))"
| "pop_step q (PopCas tp bt ptr) =
     (if ws_top q = tp then (q\<lparr>ws_top := tp + 1\<rparr>, PopRestore bt ptr) else (q, PopRestore bt None))"
| "pop_step q (PopRestore bt ptr) = (q\<lparr>ws_bottom := bt + 1\<rparr>, pop_ret ptr)"
| "pop_step q (PopRet st ptr) = (q, PopRet st ptr)"

section \<open>steal\<close>

text \<open>About to load \<^verbatim>\<open>top_\<close>; to load \<^verbatim>\<open>bottom_\<close> and compare; to load the slot; to compare and
  swap \<^verbatim>\<open>top_\<close>; returned.\<close>

datatype steal_pc =
    StealTop
  | StealBottom size_t
  | StealSlot size_t
  | StealCas size_t "handle option"
  | StealRet StealState "handle option"

primrec steal_step :: "ws_queue \<Rightarrow> steal_pc \<Rightarrow> ws_queue \<times> steal_pc" where
  "steal_step q StealTop = (q, StealBottom (ws_top q))"
| "steal_step q (StealBottom tp) =
     (let bt = ws_bottom q in (q, if sint tp < sint bt then StealSlot tp else StealRet kEmpty None))"
| "steal_step q (StealSlot tp) = (q, StealCas tp (ws_slots q ! ws_pos q tp))"
| "steal_step q (StealCas tp ptr) =
     (if ws_top q = tp then (q\<lparr>ws_top := tp + 1\<rparr>, StealRet kSuccess ptr)
      else (q, StealRet kAbort None))"
| "steal_step q (StealRet st ptr) = (q, StealRet st ptr)"

section \<open>approx_size\<close>

text \<open>
  Two loads and a signed difference, which is undefined when it overflows.
\<close>

datatype approx_pc = ApproxTop | ApproxBottom size_t | ApproxRet size_t

primrec approx_step :: "ws_queue \<Rightarrow> approx_pc \<Rightarrow> approx_pc res" where
  "approx_step q ApproxTop = Inr (ApproxBottom (ws_top q))"
| "approx_step q (ApproxBottom tp) =
     (let bt = ws_bottom q
      in res_bind (ptrdiff_sub bt tp)
           (\<lambda>diff. Inr (ApproxRet (if 0 < diff then of_int diff else 0))))"
| "approx_step q (ApproxRet r) = Inr (ApproxRet r)"

section \<open>The operations run alone\<close>

text \<open>
  None of the operations has a loop: a call makes at most four (push, steal), six (pop) or two
  (approx\_size) shared accesses.
\<close>

primrec push_result :: "push_pc \<Rightarrow> bool option" where
  "push_result PushBottom = None"
| "push_result (PushTop bt) = None"
| "push_result (PushSlot bt) = None"
| "push_result (PushPub bt) = None"
| "push_result (PushRet b) = Some b"

primrec pop_result :: "pop_pc \<Rightarrow> (StealState \<times> handle option) option" where
  "pop_result PopLoad = None"
| "pop_result (PopStore bt) = None"
| "pop_result (PopTop bt) = None"
| "pop_result (PopSlot tp bt) = None"
| "pop_result (PopCas tp bt ptr) = None"
| "pop_result (PopRestore bt ptr) = None"
| "pop_result (PopRet st ptr) = Some (st, ptr)"

primrec steal_result :: "steal_pc \<Rightarrow> (StealState \<times> handle option) option" where
  "steal_result StealTop = None"
| "steal_result (StealBottom tp) = None"
| "steal_result (StealSlot tp) = None"
| "steal_result (StealCas tp ptr) = None"
| "steal_result (StealRet st ptr) = Some (st, ptr)"

definition push_run :: "handle option \<Rightarrow> ws_queue \<Rightarrow> ws_queue \<times> push_pc" where
  "push_run h q = ((\<lambda>(q, pc). push_step h q pc) ^^ 4) (q, PushBottom)"

definition pop_run :: "ws_queue \<Rightarrow> ws_queue \<times> pop_pc" where
  "pop_run q = ((\<lambda>(q, pc). pop_step q pc) ^^ 6) (q, PopLoad)"

definition steal_run :: "ws_queue \<Rightarrow> ws_queue \<times> steal_pc" where
  "steal_run q = ((\<lambda>(q, pc). steal_step q pc) ^^ 4) (q, StealTop)"

definition ws_push :: "handle option \<Rightarrow> ws_queue \<Rightarrow> bool \<times> ws_queue" where
  "ws_push h q = (case push_run h q of (q', pc) \<Rightarrow> (pc = PushRet True, q'))"

definition ws_pop :: "ws_queue \<Rightarrow> (StealState \<times> handle option) \<times> ws_queue" where
  "ws_pop q = (case pop_run q of (q', pc) \<Rightarrow> (the (pop_result pc), q'))"

definition ws_steal :: "ws_queue \<Rightarrow> (StealState \<times> handle option) \<times> ws_queue" where
  "ws_steal q = (case steal_run q of (q', pc) \<Rightarrow> (the (steal_result pc), q'))"

definition ws_approx_size :: "ws_queue \<Rightarrow> size_t res" where
  "ws_approx_size q =
     res_bind (ptrdiff_sub (ws_bottom q) (ws_top q))
       (\<lambda>diff. Inr (if 0 < diff then of_int diff else 0))"

text \<open>The closed forms of the runs; in particular every run returns.\<close>

lemma push_run_eq:
  "push_run h q =
     (if ws_N q \<le> ws_bottom q - ws_top q then (q, PushRet False)
      else (q\<lparr>ws_slots := (ws_slots q)[ws_pos q (ws_bottom q) := h], ws_bottom := ws_bottom q + 1\<rparr>,
            PushRet True))"
  by (simp add: push_run_def eval_nat_numeral Let_def)

lemma pop_run_eq:
  "pop_run q =
     (let bt = ws_bottom q - 1; tp = ws_top q; ptr = ws_slots q ! ws_pos q bt
      in if sint tp \<le> sint bt
         then if tp = bt then (q\<lparr>ws_top := tp + 1, ws_bottom := bt + 1\<rparr>, pop_ret ptr)
              else (q\<lparr>ws_bottom := bt\<rparr>, pop_ret ptr)
         else (q\<lparr>ws_bottom := bt + 1\<rparr>, pop_ret None))"
  by (simp add: pop_run_def eval_nat_numeral Let_def pop_ret_def ws_pos_def)

lemma steal_run_eq:
  "steal_run q =
     (if sint (ws_top q) < sint (ws_bottom q)
      then (q\<lparr>ws_top := ws_top q + 1\<rparr>, StealRet kSuccess (ws_slots q ! ws_pos q (ws_top q)))
      else (q, StealRet kEmpty None))"
  by (simp add: steal_run_def eval_nat_numeral Let_def)

lemma approx_size_steps:
  "res_bind (approx_step q ApproxTop) (approx_step q) = map_sum id ApproxRet (ws_approx_size q)"
  by (cases "ptrdiff_sub (ws_bottom q) (ws_top q)") (simp_all add: ws_approx_size_def)

section \<open>The contract of a bounded work deque\<close>

datatype 'h deque_op = Push 'h | Pop | Steal
datatype 'h deque_ret = Pushed bool | Popped "StealState \<times> 'h option" | Stole "StealState \<times> 'h option"

text \<open>The specification: a list of at most \<open>cap\<close> tasks, the oldest first.\<close>

fun deque_spec :: "nat \<Rightarrow> 'h deque_op \<Rightarrow> 'h list \<Rightarrow> 'h deque_ret \<times> 'h list" where
  "deque_spec cap (Push h) xs =
     (if length xs < cap then (Pushed True, xs @ [h]) else (Pushed False, xs))"
| "deque_spec cap Pop xs =
     (if xs = [] then (Popped (kEmpty, None), []) else (Popped (kSuccess, Some (last xs)), butlast xs))"
| "deque_spec cap Steal xs =
     (case xs of [] \<Rightarrow> (Stole (kEmpty, None), []) | x # ys \<Rightarrow> (Stole (kSuccess, Some x), ys))"

fun deque_spec_exec :: "nat \<Rightarrow> 'h deque_op list \<Rightarrow> 'h list \<Rightarrow> 'h deque_ret list \<times> 'h list" where
  "deque_spec_exec cap [] xs = ([], xs)"
| "deque_spec_exec cap (a # ops) xs =
     (let (r, ys) = deque_spec cap a xs; (rs, zs) = deque_spec_exec cap ops ys in (r # rs, zs))"

locale bounded_deque =
  fixes push :: "'h \<Rightarrow> 'q \<Rightarrow> bool \<times> 'q"
    and pop :: "'q \<Rightarrow> (StealState \<times> 'h option) \<times> 'q"
    and steal :: "'q \<Rightarrow> (StealState \<times> 'h option) \<times> 'q"
    and cap :: nat
    and rep :: "nat \<Rightarrow> 'h list \<Rightarrow> 'q \<Rightarrow> bool"
  assumes rep_length: "rep b xs q \<Longrightarrow> length xs \<le> cap"
    and push_room: "rep (Suc b) xs q \<Longrightarrow> length xs < cap \<Longrightarrow>
          \<exists>q'. push h q = (True, q') \<and> rep b (xs @ [h]) q'"
    and push_full: "rep (Suc b) xs q \<Longrightarrow> length xs = cap \<Longrightarrow> \<exists>q'. push h q = (False, q') \<and> rep b xs q'"
    and pop_empty: "rep (Suc b) [] q \<Longrightarrow> \<exists>q'. pop q = ((kEmpty, None), q') \<and> rep b [] q'"
    and pop_last: "rep (Suc b) (xs @ [h]) q \<Longrightarrow> \<exists>q'. pop q = ((kSuccess, Some h), q') \<and> rep b xs q'"
    and steal_empty: "rep (Suc b) [] q \<Longrightarrow> \<exists>q'. steal q = ((kEmpty, None), q') \<and> rep b [] q'"
    and steal_first: "rep (Suc b) (h # xs) q \<Longrightarrow>
          \<exists>q'. steal q = ((kSuccess, Some h), q') \<and> rep b xs q'"
begin

fun op_exec :: "'h deque_op \<Rightarrow> 'q \<Rightarrow> 'h deque_ret \<times> 'q" where
  "op_exec (Push h) q = (case push h q of (ok, q') \<Rightarrow> (Pushed ok, q'))"
| "op_exec Pop q = (case pop q of (r, q') \<Rightarrow> (Popped r, q'))"
| "op_exec Steal q = (case steal q of (r, q') \<Rightarrow> (Stole r, q'))"

lemma op_refines:
  assumes "rep (Suc b) xs q"
  shows "\<exists>q'. op_exec a q = (fst (deque_spec cap a xs), q') \<and> rep b (snd (deque_spec cap a xs)) q'"
proof (cases a)
  case (Push h)
  then show ?thesis
    using push_room [OF assms, of h] push_full [OF assms, of h] rep_length [OF assms]
    by (cases "length xs < cap") auto
next
  case Pop
  then show ?thesis
    using assms pop_empty [of b q] pop_last [of b "butlast xs" "last xs" q] by (cases "xs = []") auto
next
  case Steal
  then show ?thesis using assms steal_empty steal_first by (cases xs) fastforce+
qed

end

text \<open>A sequence of calls of the model's operations.\<close>

fun ws_op_exec :: "handle deque_op \<Rightarrow> ws_queue \<Rightarrow> handle deque_ret \<times> ws_queue" where
  "ws_op_exec (Push h) q = (case ws_push (Some h) q of (ok, q') \<Rightarrow> (Pushed ok, q'))"
| "ws_op_exec Pop q = (case ws_pop q of (r, q') \<Rightarrow> (Popped r, q'))"
| "ws_op_exec Steal q = (case ws_steal q of (r, q') \<Rightarrow> (Stole r, q'))"

fun ws_exec :: "handle deque_op list \<Rightarrow> ws_queue \<Rightarrow> handle deque_ret list \<times> ws_queue" where
  "ws_exec [] q = ([], q)"
| "ws_exec (a # ops) q =
     (let (r, q') = ws_op_exec a q; (rs, q'') = ws_exec ops q' in (r # rs, q''))"

section \<open>The deque meets the contract\<close>

text \<open>
  An idle deque holds the slots from \<^verbatim>\<open>top_\<close> up to \<^verbatim>\<open>bottom_\<close>. The comparisons of \<^verbatim>\<open>pop\<close> and
  \<^verbatim>\<open>steal\<close> are signed, so the indices have to stay below \<open>2 ^ 63\<close>; \<open>b\<close> more operations are
  within that range.
\<close>

definition ws_rep :: "size_t \<Rightarrow> nat \<Rightarrow> handle list \<Rightarrow> ws_queue \<Rightarrow> bool" where
  "ws_rep n b hs q \<longleftrightarrow>
     has_single_bit n \<and> ws_N q = n \<and> length (ws_slots q) = unat n \<and> length hs \<le> unat n \<and>
     unat (ws_top q) + length hs = unat (ws_bottom q) \<and> unat (ws_bottom q) + b < index_limit \<and>
     (\<forall>i<length hs. ws_slots q ! ((unat (ws_top q) + i) mod unat n) = Some (hs ! i))"

lemma sint_unat: "unat (w :: size_t) < index_limit \<Longrightarrow> sint w = int (unat w)"
  using sint_of_nat_limit [of "unat w"] by simp

lemma unat_minus_one: "0 < unat (w :: size_t) \<Longrightarrow> unat (w - 1) = unat w - 1"
  by (metis unat_minus_one unsigned_0 less_irrefl)

lemma sint_minus_one:
  assumes "unat (w :: size_t) < index_limit"
  shows "sint (w - 1) = int (unat w) - 1"
proof (cases "unat w = 0")
  case True
  then have "w = 0" by (simp add: unat_eq_0)
  then show ?thesis by simp
next
  case False
  then show ?thesis using assms sint_unat [of "w - 1"] by (simp add: unat_minus_one)
qed

lemma ws_rep_new: "has_single_bit n \<Longrightarrow> b < index_limit \<Longrightarrow> ws_rep n b [] (ws_new n)"
  by (simp add: ws_rep_def ws_new_def)

lemma unat_index_diff:
  "unat (a :: size_t) \<le> unat b \<Longrightarrow> unat (b - a) = unat b - unat a"
  by (simp add: unat_sub word_le_nat_alt)

lemma ws_push_rep:
  assumes rep: "ws_rep n (Suc b) hs q"
  shows "\<exists>q'. ws_push (Some h) q = (length hs < unat n, q') \<and>
           ws_rep n b (if length hs < unat n then hs @ [h] else hs) q'"
proof -
  let ?t = "unat (ws_top q)" let ?b = "unat (ws_bottom q)"
  have n: "has_single_bit n" and N: "ws_N q = n" and len: "length (ws_slots q) = unat n"
    and hb: "?t + length hs = ?b" and lim: "?b + Suc b < index_limit"
    and el: "\<And>i. i < length hs \<Longrightarrow> ws_slots q ! ((?t + i) mod unat n) = Some (hs ! i)"
    using rep by (auto simp: ws_rep_def)
  have diff: "n \<le> ws_bottom q - ws_top q \<longleftrightarrow> \<not> length hs < unat n"
    using unat_index_diff [of "ws_top q" "ws_bottom q"] hb by (auto simp: word_le_nat_alt)
  show ?thesis
  proof (cases "length hs < unat n")
    case True
    have pos: "ws_pos q (ws_bottom q) = (?t + length hs) mod unat n"
      by (simp add: ws_pos_def N unat_and_mask [OF n] hb)
    have "(ws_slots q)[(?t + length hs) mod unat n := Some h] ! ((?t + i) mod unat n) = Some ((hs @ [h]) ! i)"
      if "i < Suc (length hs)" for i
      using that True el [of i] len mod_window_inj [of ?t "?t + i" "unat n" "?t + length hs"]
      by (cases "i = length hs") (auto simp: nth_append nth_list_update)
    moreover have "unat (ws_bottom q + 1) = Suc ?b" using lim by (intro unat_plus_one) simp
    ultimately show ?thesis
      using True rep diff pos N by (simp add: ws_push_def push_run_eq ws_rep_def)
  next
    case False
    then show ?thesis using rep diff N by (simp add: ws_push_def push_run_eq ws_rep_def)
  qed
qed

lemma ws_pop_empty_rep:
  assumes rep: "ws_rep n (Suc b) [] q"
  shows "ws_pop q = ((kEmpty, None), q)" and "ws_rep n b [] q"
proof -
  have eq: "unat (ws_top q) = unat (ws_bottom q)" and lim: "unat (ws_bottom q) < index_limit"
    using rep by (auto simp: ws_rep_def)
  have "\<not> sint (ws_top q) \<le> sint (ws_bottom q - 1)"
    using sint_minus_one [OF lim] sint_unat [of "ws_top q"] eq lim by simp
  then show "ws_pop q = ((kEmpty, None), q)"
    by (simp add: ws_pop_def pop_run_eq Let_def pop_ret_def)
  show "ws_rep n b [] q" using rep by (simp add: ws_rep_def)
qed

lemma ws_pop_last_rep:
  assumes rep: "ws_rep n (Suc b) (hs @ [h]) q"
  shows "\<exists>q'. ws_pop q = ((kSuccess, Some h), q') \<and> ws_rep n b hs q'"
proof -
  let ?t = "unat (ws_top q)" let ?bt = "ws_bottom q - 1"
  have n: "has_single_bit n" and N: "ws_N q = n" and hb: "?t + Suc (length hs) = unat (ws_bottom q)"
    and lim: "unat (ws_bottom q) < index_limit"
    and el: "\<And>i. i < Suc (length hs) \<Longrightarrow> ws_slots q ! ((?t + i) mod unat n) = Some ((hs @ [h]) ! i)"
    using rep by (auto simp: ws_rep_def)
  have ubt: "unat ?bt = ?t + length hs" using hb unat_minus_one [of "ws_bottom q"] by linarith
  have ptr: "ws_slots q ! ws_pos q ?bt = Some h"
    using el [of "length hs"] by (simp add: ws_pos_def N unat_and_mask [OF n] ubt)
  have le: "sint (ws_top q) \<le> sint ?bt"
    using sint_unat [of "ws_top q"] sint_unat [of ?bt] ubt hb lim by simp
  show ?thesis
  proof (cases "ws_top q = ?bt")
    case True
    then have "hs = []" using ubt by simp
    moreover have "unat (ws_top q + 1) = unat (ws_bottom q)" using True by simp
    ultimately show ?thesis
      using True rep le ptr by (auto simp: ws_pop_def pop_run_eq Let_def pop_ret_def ws_rep_def)
  next
    case False
    then show ?thesis
      using rep le ptr ubt el
      by (auto simp: ws_pop_def pop_run_eq Let_def pop_ret_def ws_rep_def nth_append less_SucI)
  qed
qed

lemma ws_steal_rep:
  assumes rep: "ws_rep n (Suc b) hs q"
  shows "\<exists>q'. ws_steal q =
             (case hs of [] \<Rightarrow> (kEmpty, None) | x # xs \<Rightarrow> (kSuccess, Some x), q')
           \<and> ws_rep n b (tl hs) q'"
proof -
  let ?t = "unat (ws_top q)"
  have n: "has_single_bit n" and N: "ws_N q = n" and hb: "?t + length hs = unat (ws_bottom q)"
    and lim: "unat (ws_bottom q) < index_limit"
    and el: "\<And>i. i < length hs \<Longrightarrow> ws_slots q ! ((?t + i) mod unat n) = Some (hs ! i)"
    using rep by (auto simp: ws_rep_def)
  have less: "sint (ws_top q) < sint (ws_bottom q) \<longleftrightarrow> hs \<noteq> []"
  proof -
    have "sint (ws_top q) = int ?t" "sint (ws_bottom q) = int (unat (ws_bottom q))"
      using sint_unat hb lim by auto
    then show ?thesis unfolding length_greater_0_conv [symmetric] using hb by linarith
  qed
  show ?thesis
  proof (cases hs)
    case Nil
    then show ?thesis using rep less by (auto simp: ws_steal_def steal_run_eq ws_rep_def)
  next
    case (Cons x xs)
    have top: "unat (ws_top q + 1) = Suc ?t" using hb lim Cons by (intro unat_plus_one) simp
    have "ws_slots q ! ws_pos q (ws_top q) = Some x"
      using el [of 0] Cons by (simp add: ws_pos_def N unat_and_mask [OF n])
    then show ?thesis
      using rep less top Cons el by (fastforce simp: ws_steal_def steal_run_eq ws_rep_def)
  qed
qed

interpretation ws_deque: bounded_deque "\<lambda>h. ws_push (Some h)" ws_pop ws_steal "unat n" "ws_rep n" for n
proof
  fix b xs q h
  show "ws_rep n b xs q \<Longrightarrow> length xs \<le> unat n" by (simp add: ws_rep_def)
  show "ws_rep n (Suc b) xs q \<Longrightarrow> length xs < unat n \<Longrightarrow>
      \<exists>q'. ws_push (Some h) q = (True, q') \<and> ws_rep n b (xs @ [h]) q'"
    using ws_push_rep [of n b xs q h] by auto
  show "ws_rep n (Suc b) xs q \<Longrightarrow> length xs = unat n \<Longrightarrow>
      \<exists>q'. ws_push (Some h) q = (False, q') \<and> ws_rep n b xs q'"
    using ws_push_rep [of n b xs q h] by auto
  show "ws_rep n (Suc b) [] q \<Longrightarrow> \<exists>q'. ws_pop q = ((kEmpty, None), q') \<and> ws_rep n b [] q'"
    using ws_pop_empty_rep by blast
  show "ws_rep n (Suc b) (xs @ [h]) q \<Longrightarrow> \<exists>q'. ws_pop q = ((kSuccess, Some h), q') \<and> ws_rep n b xs q'"
    by (rule ws_pop_last_rep)
  show "ws_rep n (Suc b) [] q \<Longrightarrow> \<exists>q'. ws_steal q = ((kEmpty, None), q') \<and> ws_rep n b [] q'"
    using ws_steal_rep [of n b "[]" q] by auto
  show "ws_rep n (Suc b) (h # xs) q \<Longrightarrow> \<exists>q'. ws_steal q = ((kSuccess, Some h), q') \<and> ws_rep n b xs q'"
    using ws_steal_rep [of n b "h # xs" q] by auto
qed

lemma ws_op_exec_eq: "ws_op_exec a q = ws_deque.op_exec a q"
  by (cases a) auto

lemma ws_exec_refines:
  assumes "ws_rep n (length ops + b) xs q"
  shows "\<exists>q'. ws_exec ops q = (fst (deque_spec_exec (unat n) ops xs), q')
           \<and> ws_rep n b (snd (deque_spec_exec (unat n) ops xs)) q'"
  using assms
proof (induction ops arbitrary: xs q)
  case (Cons a ops)
  obtain q1 where q1: "ws_op_exec a q = (fst (deque_spec (unat n) a xs), q1)"
    "ws_rep n (length ops + b) (snd (deque_spec (unat n) a xs)) q1"
    using ws_deque.op_refines [of n "length ops + b" xs q a] Cons.prems by (auto simp: ws_op_exec_eq)
  show ?case using Cons.IH [OF q1(2)] q1(1) by (auto simp: Let_def split: prod.splits)
qed auto

lemma ws_approx_size_rep:
  assumes "ws_rep n b hs q"
  shows "ws_approx_size q = Inr (of_nat (length hs))"
proof -
  have hb: "unat (ws_bottom q) = unat (ws_top q) + length hs" and lim: "unat (ws_bottom q) < index_limit"
    using assms by (auto simp: ws_rep_def)
  have "ptrdiff_sub (ws_bottom q) (ws_top q) = Inr (int (length hs))"
    using hb lim by (simp add: ptrdiff_sub_unat)
  then show ?thesis by (simp add: ws_approx_size_def)
qed

text \<open>The tasks an idle deque holds, read off its slots.\<close>

definition ws_tasks :: "ws_queue \<Rightarrow> handle list" where
  "ws_tasks q =
     map (\<lambda>k. the (ws_slots q ! (k mod unat (ws_N q)))) [unat (ws_top q)..<unat (ws_bottom q)]"

lemma ws_tasks_rep: "ws_rep n b hs q \<Longrightarrow> ws_tasks q = hs"
  by (rule nth_equalityI) (auto simp: ws_tasks_def ws_rep_def)

lemma ws_rep_mono: "ws_rep n b hs q \<Longrightarrow> b' \<le> b \<Longrightarrow> ws_rep n b' hs q"
  by (auto simp: ws_rep_def)

lemma ws_steal_empty_rep: "ws_rep n (Suc b) [] q \<Longrightarrow> ws_steal q = ((kEmpty, None), q)"
proof -
  assume rep: "ws_rep n (Suc b) [] q"
  then have "ws_top q = ws_bottom q" by (simp add: ws_rep_def word_unat_eq_iff)
  then show ?thesis by (simp add: ws_steal_def steal_run_eq)
qed

text \<open>
  C27. Called one operation at a time, a new \<^verbatim>\<open>WorkStealingQueue<N>\<close> answers any sequence of
  fewer than \<open>2 ^ 63\<close> \<^verbatim>\<open>push\<close>, \<^verbatim>\<open>pop\<close> and \<^verbatim>\<open>steal\<close> calls as a deque of capacity \<open>N\<close> does: pushes
  fail exactly when \<open>N\<close> tasks are held, \<^verbatim>\<open>pop\<close> takes the newest task, \<^verbatim>\<open>steal\<close> the oldest, both
  report an empty deque exactly when it is, and \<^verbatim>\<open>approx_size\<close> is then the number of tasks held.
\<close>

theorem work_stealing_queue_refines_deque:
  assumes "has_single_bit n" "length ops < index_limit"
    and "deque_spec_exec (unat n) ops [] = (rs, ys)"
  shows "\<exists>q. ws_exec ops (ws_new n) = (rs, q) \<and> ws_approx_size q = Inr (of_nat (length ys))"
  using ws_exec_refines [of n ops 0 "[]" "ws_new n"] ws_rep_new [OF assms(1), of "length ops"] assms(2,3)
    ws_approx_size_rep by fastforce

lemma single_bit_4: "has_single_bit 4"
  unfolding has_single_bit_def by (rule exI [of _ 2]) simp

theorem work_stealing_queue_refines_deque_witness:
  "fst (ws_exec [Push 1, Push 2, Push 3, Steal, Pop, Pop, Pop, Push 4] (ws_new 4)) =
     [Pushed True, Pushed True, Pushed True, Stole (kSuccess, Some 1), Popped (kSuccess, Some 3),
      Popped (kSuccess, Some 2), Popped (kEmpty, None), Pushed True]"
  using work_stealing_queue_refines_deque
    [OF single_bit_4, of "[Push 1, Push 2, Push 3, Steal, Pop, Pop, Pop, Push 4]"] by fastforce

section \<open>The sign boundary\<close>

text \<open>An index from \<open>2 ^ 63\<close> on reads as a negative number.\<close>

lemma sint_beyond_limit:
  assumes "index_limit \<le> unat (w :: size_t)"
  shows "sint w = int (unat w) - 2 ^ 64"
proof -
  have "int (unat w) = sint w mod 2 ^ 64" by (simp add: uint_sint take_bit_eq_mod)
  moreover have "- (2 ^ 63) \<le> sint w" "sint w < 2 ^ 63" using sint_ge [of w] sint_lt [of w] by simp_all
  moreover have "(2 :: int) ^ 63 \<le> int (unat w)" using assms by (metis of_nat_le_iff of_nat_numeral of_nat_power)
  moreover have "x mod 2 ^ 64 = x + 2 ^ 64" if "- (2 ^ 63) \<le> x" "x < 0" for x :: int
  proof -
    have "x mod 2 ^ 64 = (x + 2 ^ 64) mod 2 ^ 64" by simp
    also have "\<dots> = x + 2 ^ 64" using that by (intro mod_pos_pos_trivial) simp_all
    finally show ?thesis .
  qed
  ultimately show ?thesis by (cases "0 \<le> sint w") (auto simp: mod_pos_pos_trivial)
qed

lemma steal_across_boundary:
  assumes "unat (ws_top q) < index_limit" "index_limit \<le> unat (ws_bottom q)" "unat (ws_bottom q) - unat (ws_top q) < index_limit"
  shows "ws_steal q = ((kEmpty, None), q)" "ws_approx_size q = Inl SignedOverflow"
proof -
  have top: "sint (ws_top q) = int (unat (ws_top q))" using sint_unat assms(1) .
  have bottom: "sint (ws_bottom q) = int (unat (ws_bottom q)) - 2 ^ 64" using sint_beyond_limit assms(2) .
  have "unat (ws_bottom q) < 2 ^ 64" by (rule unat_less_word)
  then have "sint (ws_bottom q) < 0" unfolding bottom by (metis diff_less_0_iff_less of_nat_less_iff of_nat_numeral of_nat_power)
  moreover have "0 \<le> sint (ws_top q)" unfolding top by (rule of_nat_0_le_iff)
  ultimately have "\<not> sint (ws_top q) < sint (ws_bottom q)" by linarith
  then show "ws_steal q = ((kEmpty, None), q)" by (simp add: ws_steal_def steal_run_eq)
  have "unat (ws_bottom q) < unat (ws_top q) + 2 ^ 63" using assms(3) by linarith
  then have "int (unat (ws_bottom q)) < int (unat (ws_top q)) + 2 ^ 63"
    by (metis of_nat_add of_nat_less_iff of_nat_numeral of_nat_power)
  then have "sint (ws_bottom q) - sint (ws_top q) < - (2 ^ 63)" unfolding top bottom by simp
  then show "ws_approx_size q = Inl SignedOverflow" by (simp add: ws_approx_size_def ptrdiff_sub_def Let_def)
qed

text \<open>Both indices advance by one when a task is pushed and stolen.\<close>

definition passes :: "nat \<Rightarrow> handle \<Rightarrow> handle deque_op list" where
  "passes k g = concat (replicate k [Push g, Steal])"

definition at_index :: "size_t \<Rightarrow> nat \<Rightarrow> ws_queue \<Rightarrow> bool" where
  "at_index n k q \<longleftrightarrow> ws_top q = of_nat k \<and> ws_bottom q = of_nat k \<and> ws_N q = n \<and> length (ws_slots q) = unat n"

lemma push_at_index:
  assumes n: "has_single_bit n" and q: "at_index n k q"
  shows "ws_push (Some g) q =
     (True, q\<lparr>ws_slots := (ws_slots q)[unat (of_nat k AND (n - 1)) := Some g], ws_bottom := of_nat (Suc k)\<rparr>)"
proof -
  have "\<not> n \<le> 0" using has_single_bit_pos [OF n] by auto
  then show ?thesis using q by (simp add: ws_push_def push_run_eq at_index_def ws_pos_def add.commute)
qed

lemma pass_at_index:
  assumes n: "has_single_bit n" and q: "at_index n k q" and k: "Suc k < index_limit"
  shows "\<exists>q'. ws_exec (Push g # Steal # ops) q =
       (let (rs, q'') = ws_exec ops q' in (Pushed True # Stole (kSuccess, Some g) # rs, q'')) \<and> at_index n (Suc k) q'"
proof -
  let ?p = "unat (of_nat k AND (n - 1))"
  let ?q = "q\<lparr>ws_slots := (ws_slots q)[?p := Some g], ws_bottom := of_nat (Suc k)\<rparr>"
  have "sint (of_nat k :: size_t) < sint (of_nat (Suc k) :: size_t)"
    using k by (simp only: sint_of_nat_limit Suc_lessD)
  then have "ws_steal ?q = ((kSuccess, Some g), ?q\<lparr>ws_top := of_nat k + 1\<rparr>)"
    using q unat_and_mask_less [OF n, of "of_nat k"] by (simp add: ws_steal_def steal_run_eq at_index_def ws_pos_def)
  then have "ws_exec (Push g # Steal # ops) q =
      (let (rs, q'') = ws_exec ops (?q\<lparr>ws_top := of_nat k + 1\<rparr>) in (Pushed True # Stole (kSuccess, Some g) # rs, q''))"
    using push_at_index [OF n q, of g] by (simp add: Let_def split: prod.splits)
  moreover have "at_index n (Suc k) (?q\<lparr>ws_top := of_nat k + 1\<rparr>)" using q by (simp add: at_index_def add.commute)
  ultimately show ?thesis by blast
qed

lemma passes_at_index:
  assumes n: "has_single_bit n" and q: "at_index n j q" and k: "j + k < index_limit"
  shows "\<exists>q'. ws_exec (passes k g @ ops) q =
       (let (rs, q'') = ws_exec ops q' in (concat (replicate k [Pushed True, Stole (kSuccess, Some g)]) @ rs, q'')) \<and> at_index n (j + k) q'"
  using q k
proof (induction k arbitrary: j q)
  case (Suc k)
  have "Suc j < index_limit" using Suc.prems(2) by simp
  then obtain q1 where q1: "ws_exec (Push g # Steal # (passes k g @ ops)) q =
       (let (rs, q'') = ws_exec (passes k g @ ops) q1 in (Pushed True # Stole (kSuccess, Some g) # rs, q''))" "at_index n (Suc j) q1"
    using pass_at_index [OF n Suc.prems(1)] by blast
  obtain q' where "ws_exec (passes k g @ ops) q1 =
       (let (rs, q'') = ws_exec ops q' in (concat (replicate k [Pushed True, Stole (kSuccess, Some g)]) @ rs, q''))"
    "at_index n (Suc j + k) q'"
    using Suc.IH [OF q1(2)] Suc.prems(2) by auto
  then show ?case using q1(1) by (intro exI [of _ q']) (simp add: passes_def Let_def split: prod.splits)
qed (auto simp: passes_def)

lemma passes_spec:
  assumes "0 < cap"
  shows "deque_spec_exec cap (passes k g @ ops) [] =
     (let (rs, ys) = deque_spec_exec cap ops [] in (concat (replicate k [Pushed True, Stole (kSuccess, Some g)]) @ rs, ys))"
  using assms by (induction k) (simp_all add: passes_def Let_def split: prod.splits)

text \<open>
  C39. The signed comparisons stop working when \<^verbatim>\<open>bottom_\<close> passes \<open>2 ^ 63\<close> while \<^verbatim>\<open>top_\<close> has not. In every such state \<^verbatim>\<open>steal\<close>
  reports an empty deque, whatever tasks it holds, and \<^verbatim>\<open>approx_size\<close> overflows a signed subtraction. And such
  a state is reached: after \<open>2 ^ 63 - 1\<close> tasks have been pushed and stolen, all as they should be, one more
  push is accepted and leaves a deque of one task, for every size \<open>N\<close>, from which the next \<^verbatim>\<open>steal\<close> gets nothing.
\<close>

theorem work_stealing_sign_boundary:
  assumes "has_single_bit n"
  shows "(\<forall>q. unat (ws_top q) < index_limit \<and> index_limit \<le> unat (ws_bottom q) \<and> unat (ws_bottom q) - unat (ws_top q) < index_limit
            \<longrightarrow> ws_steal q = ((kEmpty, None), q) \<and> ws_approx_size q = Inl SignedOverflow)
    \<and> (\<exists>rs q. ws_exec (passes (index_limit - 1) g @ [Push h]) (ws_new n) = (rs, q)
         \<and> deque_spec_exec (unat n) (passes (index_limit - 1) g @ [Push h]) [] = (rs, [h])
         \<and> ws_steal q = ((kEmpty, None), q) \<and> ws_approx_size q = Inl SignedOverflow)"
proof -
  define K where "K = index_limit - 1"
  have K: "0 + K < index_limit" "Suc K = index_limit" by (simp_all add: K_def)
  have new: "at_index n 0 (ws_new n)" by (simp add: at_index_def ws_new_def)
  obtain q where q: "at_index n K q" "ws_exec (passes K g @ [Push h]) (ws_new n) =
       (let (rs, q'') = ws_exec [Push h] q in (concat (replicate K [Pushed True, Stole (kSuccess, Some g)]) @ rs, q''))"
    using passes_at_index [OF assms new K(1), of g "[Push h]"] unfolding add_0 by blast
  let ?q = "q\<lparr>ws_slots := (ws_slots q)[unat (of_nat K AND (n - 1)) := Some h], ws_bottom := of_nat (Suc K)\<rparr>"
  let ?rs = "concat (replicate K [Pushed True, Stole (kSuccess, Some g)]) @ [Pushed True]"
  have "ws_exec (passes K g @ [Push h]) (ws_new n) = (?rs, ?q)" using q(2) push_at_index [OF assms q(1), of h] by simp
  moreover have "deque_spec_exec (unat n) (passes K g @ [Push h]) [] = (?rs, [h])"
    using passes_spec [OF has_single_bit_pos [OF assms]] has_single_bit_pos [OF assms] by simp
  moreover have "unat (ws_top ?q) = K" using q(1) K(1) by (simp add: at_index_def unat_of_nat_limit)
  moreover have "unat (ws_bottom ?q) = index_limit" unfolding K(2) by simp
  ultimately show ?thesis
    using steal_across_boundary K unfolding K_def [symmetric] by (intro conjI allI impI exI [of _ ?rs] exI [of _ ?q]) auto
qed

theorem work_stealing_sign_boundary_witness:
  "\<exists>rs q. ws_exec (passes (index_limit - 1) 1 @ [Push 7]) (ws_new 4) = (rs, q)
     \<and> deque_spec_exec 4 (passes (index_limit - 1) 1 @ [Push 7]) [] = (rs, [7]) \<and> ws_steal q = ((kEmpty, None), q)"
proof -
  have "unat (4 :: size_t) = 4" by simp
  then show ?thesis using work_stealing_sign_boundary [OF single_bit_4, of 1 7] by metis
qed

end
