(* ===== verification/Work_Stealing_Concurrent.thy ===== *)
theory Work_Stealing_Concurrent
  imports Work_Stealing_Queue Schedules "HOL-Library.Sublist"
begin

text \<open>
  \<^verbatim>\<open>WorkStealingQueue\<close> used by its owner and any number of thieves at the same time. The
  invariant is stated over a logical bottom, which is \<^verbatim>\<open>bottom_\<close> corrected for a \<^verbatim>\<open>pop\<close> that has
  decremented it and has not yet decided whether it takes the last task.
\<close>

section \<open>The system\<close>

text \<open>
  The owner is inside one of its three operations (or has returned from it); thief \<open>i\<close> is
  inside \<^verbatim>\<open>steal\<close>, or inside the \<^verbatim>\<open>approx_size\<close> it calls after a successful one. The lists record the tasks pushed, and the tasks handed out by the returns of
  \<^verbatim>\<open>pop\<close> and \<^verbatim>\<open>steal\<close>.
\<close>

datatype owner_pc = OPush handle push_pc | OPop pop_pc | OApprox approx_pc

record ws_sys =
  ws_q :: ws_queue
  ws_owner :: owner_pc
  ws_thief :: "nat \<Rightarrow> steal_pc"
  ws_viewer :: "nat \<Rightarrow> approx_pc"
  ws_pushed :: "handle list"
  ws_popped :: "handle list"
  ws_stolen :: "handle list"

definition ws_start :: "size_t \<Rightarrow> ws_sys" where
  "ws_start n =
     \<lparr>ws_q = ws_new n, ws_owner = OPop (PopRet kEmpty None), ws_thief = (\<lambda>_. StealRet kEmpty None), ws_viewer = (\<lambda>_. ApproxRet 0),
      ws_pushed = [], ws_popped = [], ws_stolen = []\<rparr>"

datatype ws_action =
    PushCall handle | PopCall | ApproxCall | OwnerStep | StealCall nat | ThiefStep nat | ViewCall nat | ViewStep nat

fun owner_idle :: "owner_pc \<Rightarrow> bool" where
  "owner_idle (OPush h (PushRet b)) = True"
| "owner_idle (OPop (PopRet st ptr)) = True"
| "owner_idle (OApprox (ApproxRet r)) = True"
| "owner_idle _ = False"

fun pop_took :: "pop_pc \<Rightarrow> pop_pc \<Rightarrow> handle list" where
  "pop_took (PopRet st ptr) pc' = []"
| "pop_took pc (PopRet kSuccess (Some h)) = [h]"
| "pop_took pc pc' = []"

fun steal_took :: "steal_pc \<Rightarrow> steal_pc \<Rightarrow> handle list" where
  "steal_took (StealRet st ptr) pc' = []"
| "steal_took pc (StealRet kSuccess (Some h)) = [h]"
| "steal_took pc pc' = []"

fun owner_act :: "ws_sys \<Rightarrow> owner_pc \<Rightarrow> ws_sys res" where
  "owner_act s (OPush h pc) =
     (let (q, pc') = push_step (Some h) (ws_q s) pc
      in Inr (s\<lparr>ws_q := q, ws_owner := OPush h pc',
                ws_pushed := ws_pushed s @ (case pc of PushPub _ \<Rightarrow> [h] | _ \<Rightarrow> [])\<rparr>))"
| "owner_act s (OPop pc) =
     (let (q, pc') = pop_step (ws_q s) pc
      in Inr (s\<lparr>ws_q := q, ws_owner := OPop pc', ws_popped := ws_popped s @ pop_took pc pc'\<rparr>))"
| "owner_act s (OApprox pc) =
     res_bind (approx_step (ws_q s) pc) (\<lambda>pc'. Inr (s\<lparr>ws_owner := OApprox pc'\<rparr>))"

fun ws_act :: "ws_action \<Rightarrow> ws_sys \<Rightarrow> ws_sys res" where
  "ws_act (PushCall h) s =
     Inr (if owner_idle (ws_owner s) then s\<lparr>ws_owner := OPush h PushBottom\<rparr> else s)"
| "ws_act PopCall s = Inr (if owner_idle (ws_owner s) then s\<lparr>ws_owner := OPop PopLoad\<rparr> else s)"
| "ws_act ApproxCall s = Inr (if owner_idle (ws_owner s) then s\<lparr>ws_owner := OApprox ApproxTop\<rparr> else s)"
| "ws_act OwnerStep s = owner_act s (ws_owner s)"
| "ws_act (StealCall i) s =
     Inr (case ws_thief s i of
            StealRet _ _ \<Rightarrow> s\<lparr>ws_thief := (ws_thief s)(i := StealTop)\<rparr> | _ \<Rightarrow> s)"
| "ws_act (ThiefStep i) s =
     (let (q, pc') = steal_step (ws_q s) (ws_thief s i)
      in Inr (s\<lparr>ws_q := q, ws_thief := (ws_thief s)(i := pc'),
                ws_stolen := ws_stolen s @ steal_took (ws_thief s i) pc'\<rparr>))"
| "ws_act (ViewCall i) s =
     Inr (case ws_viewer s i of
            ApproxRet _ \<Rightarrow> s\<lparr>ws_viewer := (ws_viewer s)(i := ApproxTop)\<rparr> | _ \<Rightarrow> s)"
| "ws_act (ViewStep i) s =
     res_bind (approx_step (ws_q s) (ws_viewer s i)) (\<lambda>pc'. Inr (s\<lparr>ws_viewer := (ws_viewer s)(i := pc')\<rparr>))"

fun ws_run :: "ws_action list \<Rightarrow> ws_sys \<Rightarrow> ws_sys res" where
  "ws_run [] s = Inr s"
| "ws_run (a # acts) s = res_bind (ws_act a s) (ws_run acts)"

interpretation deque_threads: faulting_schedules ws_act ws_run
  by unfold_locales simp_all

section \<open>The logical deque\<close>

fun logical_bottom :: "owner_pc \<Rightarrow> size_t \<Rightarrow> nat" where
  "logical_bottom (OPop (PopTop bt)) b = unat (bt + 1)"
| "logical_bottom (OPop (PopSlot tp bt)) b = (if tp = bt then unat (bt + 1) else unat bt)"
| "logical_bottom (OPop (PopCas tp bt ptr)) b = unat (bt + 1)"
| "logical_bottom (OPop (PopRestore bt ptr)) b = unat (bt + 1)"
| "logical_bottom _ b = unat b"

abbreviation ws_T :: "ws_sys \<Rightarrow> nat" where
  "ws_T s \<equiv> unat (ws_top (ws_q s))"

abbreviation ws_L :: "ws_sys \<Rightarrow> nat" where
  "ws_L s \<equiv> logical_bottom (ws_owner s) (ws_bottom (ws_q s))"

definition ws_elem :: "ws_queue \<Rightarrow> nat \<Rightarrow> handle option" where
  "ws_elem q k = ws_slots q ! (k mod unat (ws_N q))"

text \<open>The tasks the deque holds, oldest first.\<close>

definition ws_live :: "ws_sys \<Rightarrow> handle list" where
  "ws_live s = map (\<lambda>k. the (ws_elem (ws_q s) k)) [ws_T s..<ws_L s]"

text \<open>The task the owner has taken out inside a \<^verbatim>\<open>pop\<close> that has not returned yet.\<close>

fun in_hand :: "ws_queue \<Rightarrow> owner_pc \<Rightarrow> handle list" where
  "in_hand q (OPop (PopSlot tp bt)) = (if tp = bt then [] else [the (ws_elem q (unat bt))])"
| "in_hand q (OPop (PopRestore bt (Some h))) = [h]"
| "in_hand q _ = []"

section \<open>The invariant\<close>

fun owner_ok :: "ws_queue \<Rightarrow> nat \<Rightarrow> owner_pc \<Rightarrow> bool" where
  "owner_ok q T (OPush h (PushTop bt)) \<longleftrightarrow> bt = ws_bottom q"
| "owner_ok q T (OPush h (PushSlot bt)) \<longleftrightarrow> bt = ws_bottom q \<and> unat bt < T + unat (ws_N q)"
| "owner_ok q T (OPush h (PushPub bt)) \<longleftrightarrow>
     bt = ws_bottom q \<and> unat bt < T + unat (ws_N q) \<and> ws_elem q (unat bt) = Some h"
| "owner_ok q T (OApprox (ApproxBottom tp)) \<longleftrightarrow> unat tp \<le> T"
| "owner_ok q T (OPop (PopStore bt)) \<longleftrightarrow> bt = ws_bottom q - 1"
| "owner_ok q T (OPop (PopTop bt)) \<longleftrightarrow> bt = ws_bottom q"
| "owner_ok q T (OPop (PopSlot tp bt)) \<longleftrightarrow>
     bt = ws_bottom q \<and> unat bt < index_limit \<and> unat tp \<le> T \<and> (tp \<noteq> bt \<longrightarrow> ws_elem q (unat bt) \<noteq> None)"
| "owner_ok q T (OPop (PopCas tp bt ptr)) \<longleftrightarrow>
     bt = ws_bottom q \<and> tp = bt \<and> unat bt < index_limit \<and> unat bt \<le> T \<and> (T = unat bt \<longrightarrow> ptr = ws_elem q T)"
| "owner_ok q T (OPop (PopRestore bt ptr)) \<longleftrightarrow> bt = ws_bottom q \<and> T = unat (bt + 1)"
| "owner_ok q T _ \<longleftrightarrow> True"

fun thief_ok :: "ws_queue \<Rightarrow> nat \<Rightarrow> nat \<Rightarrow> steal_pc \<Rightarrow> bool" where
  "thief_ok q T L (StealBottom tp) \<longleftrightarrow> unat tp \<le> T"
| "thief_ok q T L (StealSlot tp) \<longleftrightarrow> unat tp \<le> T \<and> (unat tp = T \<longrightarrow> T < L)"
| "thief_ok q T L (StealCas tp ptr) \<longleftrightarrow>
     unat tp \<le> T \<and> (unat tp = T \<longrightarrow> T < L \<and> ptr = ws_elem q T)"
| "thief_ok q T L _ \<longleftrightarrow> True"

fun viewer_ok :: "nat \<Rightarrow> approx_pc \<Rightarrow> bool" where
  "viewer_ok T (ApproxBottom tp) \<longleftrightarrow> unat tp \<le> T"
| "viewer_ok T _ \<longleftrightarrow> True"

lemma viewer_ok_mono: "viewer_ok T pc \<Longrightarrow> T \<le> T' \<Longrightarrow> viewer_ok T' pc"
  by (cases pc) auto

definition ring_ok :: "size_t \<Rightarrow> ws_queue \<Rightarrow> nat \<Rightarrow> nat \<Rightarrow> bool" where
  "ring_ok n q T L \<longleftrightarrow>
     has_single_bit n \<and> ws_N q = n \<and> length (ws_slots q) = unat n \<and> T = unat (ws_top q) \<and>
     T \<le> L \<and> L \<le> T + unat n \<and> (\<forall>k. T \<le> k \<and> k < L \<longrightarrow> ws_elem q k \<noteq> None)"

text \<open>\<open>c\<close> bounds the number of actions so far.\<close>

definition ws_inv :: "size_t \<Rightarrow> nat \<Rightarrow> ws_sys \<Rightarrow> bool" where
  "ws_inv n c s \<longleftrightarrow>
     ring_ok n (ws_q s) (ws_T s) (ws_L s) \<and> ws_L s \<le> c \<and>
     owner_ok (ws_q s) (ws_T s) (ws_owner s) \<and>
     (\<forall>i. thief_ok (ws_q s) (ws_T s) (ws_L s) (ws_thief s i)) \<and> (\<forall>i. viewer_ok (ws_T s) (ws_viewer s i))"

lemma ws_inv_start: "has_single_bit n \<Longrightarrow> ws_inv n 0 (ws_start n)"
  by (simp add: ws_inv_def ws_start_def ws_new_def ring_ok_def)

lemma ws_elem_cong:
  "ws_slots q' = ws_slots q \<Longrightarrow> ws_N q' = ws_N q \<Longrightarrow> ws_elem q' k = ws_elem q k"
  by (simp add: ws_elem_def)

lemma ws_elem_index [simp]:
  "ws_elem (q\<lparr>ws_bottom := b\<rparr>) k = ws_elem q k" "ws_elem (q\<lparr>ws_top := t\<rparr>) k = ws_elem q k"
  by (simp_all add: ws_elem_def)

lemma ws_elem_store [simp]:
  assumes "has_single_bit (ws_N q)" "length (ws_slots q) = unat (ws_N q)"
  shows "ws_elem (q\<lparr>ws_slots := (ws_slots q)[ws_pos q bt := v]\<rparr>) k =
    (if unat bt mod unat (ws_N q) = k mod unat (ws_N q) then v else ws_elem q k)"
  using assms has_single_bit_pos [OF assms(1)]
  by (auto simp: ws_elem_def ws_pos_def unat_and_mask nth_list_update)

text \<open>What a thief knows survives a step that moves \<^verbatim>\<open>top_\<close> forward or leaves the oldest task alone.\<close>

lemma thief_ok_keep:
  assumes "thief_ok q T L pc" "T \<le> T'"
    and "T' = T \<Longrightarrow> T < L \<Longrightarrow> T < L' \<and> ws_elem q' T = ws_elem q T"
  shows "thief_ok q' T' L' pc"
  using assms by (cases pc) auto

lemma ws_inv_keep:
  assumes "ws_inv n c s" "ring_ok n (ws_q s') (ws_T s') (ws_L s')" "ws_L s' \<le> Suc c"
    and "owner_ok (ws_q s') (ws_T s') (ws_owner s')" "ws_thief s' = ws_thief s" "ws_T s \<le> ws_T s'"
    and "ws_viewer s' = ws_viewer s"
    and "ws_T s' = ws_T s \<Longrightarrow> ws_T s < ws_L s \<Longrightarrow>
           ws_T s < ws_L s' \<and> ws_elem (ws_q s') (ws_T s) = ws_elem (ws_q s) (ws_T s)"
  shows "ws_inv n (Suc c) s'"
  using assms by (auto simp: ws_inv_def intro: thief_ok_keep viewer_ok_mono)

lemma ws_inv_quiet:
  assumes "ws_inv n c s" "ws_top (ws_q s') = ws_top (ws_q s)" "ws_slots (ws_q s') = ws_slots (ws_q s)"
    and "ws_N (ws_q s') = ws_N (ws_q s)" "ws_L s' = ws_L s" "ws_thief s' = ws_thief s"
    and "owner_ok (ws_q s') (ws_T s) (ws_owner s')" "ws_viewer s' = ws_viewer s"
  shows "ws_inv n (Suc c) s'" "ws_live s' = ws_live s"
proof -
  have el: "ws_elem (ws_q s') k = ws_elem (ws_q s) k" for k
    using assms(3,4) by (rule ws_elem_cong)
  show "ws_inv n (Suc c) s'"
    using assms el by (intro ws_inv_keep [OF assms(1)]) (auto simp: ws_inv_def ring_ok_def)
  show "ws_live s' = ws_live s"
    using assms(2,5) el by (simp add: ws_live_def)
qed

section \<open>The abstract deque\<close>

text \<open>
  The specification: tasks are appended at the newest end while there is room, and taken from
  either end; every other step is invisible.
\<close>

record deque_state =
  dq_tasks :: "handle list"
  dq_pushed :: "handle list"
  dq_popped :: "handle list"
  dq_stolen :: "handle list"

inductive dq_step :: "nat \<Rightarrow> deque_state \<Rightarrow> deque_state \<Rightarrow> bool" for cap where
  dq_stutter: "dq_step cap d d"
| dq_push: "length (dq_tasks d) < cap \<Longrightarrow>
    dq_step cap d (d\<lparr>dq_tasks := dq_tasks d @ [h], dq_pushed := dq_pushed d @ [h]\<rparr>)"
| dq_pop: "dq_tasks d = hs @ [h] \<Longrightarrow>
    dq_step cap d (d\<lparr>dq_tasks := hs, dq_popped := dq_popped d @ [h]\<rparr>)"
| dq_steal: "dq_tasks d = h # hs \<Longrightarrow>
    dq_step cap d (d\<lparr>dq_tasks := hs, dq_stolen := dq_stolen d @ [h]\<rparr>)"

definition dq_inv :: "nat \<Rightarrow> deque_state \<Rightarrow> bool" where
  "dq_inv cap d \<longleftrightarrow>
     length (dq_tasks d) \<le> cap \<and>
     mset (dq_pushed d) = mset (dq_popped d) + mset (dq_stolen d) + mset (dq_tasks d) \<and>
     subseq (dq_stolen d @ dq_tasks d) (dq_pushed d)"

lemma dq_inv_step: "dq_step cap d d' \<Longrightarrow> dq_inv cap d \<Longrightarrow> dq_inv cap d'"
proof (induction rule: dq_step.induct)
  case (dq_push d h)
  then have "subseq ((dq_stolen d @ dq_tasks d) @ [h]) (dq_pushed d @ [h])"
    unfolding dq_inv_def by (intro list_emb_append_mono) auto
  then show ?case using dq_push by (simp add: dq_inv_def)
next
  case (dq_pop d hs h)
  have "subseq (dq_stolen d @ hs) (dq_stolen d @ hs @ [h])"
    by (metis append_assoc list_emb_append2 list_emb_append_mono list_emb_Nil subseq_order.refl
          append_Nil2)
  then have "subseq (dq_stolen d @ hs) (dq_pushed d)"
    using dq_pop by (auto simp: dq_inv_def intro: subseq_order.trans)
  then show ?case using dq_pop by (simp add: dq_inv_def)
qed (auto simp: dq_inv_def)

definition ws_abs :: "ws_sys \<Rightarrow> deque_state" where
  "ws_abs s = \<lparr>dq_tasks = ws_live s, dq_pushed = ws_pushed s,
               dq_popped = ws_popped s @ in_hand (ws_q s) (ws_owner s), dq_stolen = ws_stolen s\<rparr>"

section \<open>Every step keeps the invariant and refines the deque\<close>

definition ws_good_step :: "size_t \<Rightarrow> nat \<Rightarrow> ws_sys \<Rightarrow> ws_sys \<Rightarrow> bool" where
  "ws_good_step n c s s' \<longleftrightarrow> ws_inv n (Suc c) s' \<and> dq_step (unat n) (ws_abs s) (ws_abs s')"

lemma ws_good_quiet:
  assumes "ws_inv n c s" "ws_top (ws_q s') = ws_top (ws_q s)" "ws_slots (ws_q s') = ws_slots (ws_q s)"
    and "ws_N (ws_q s') = ws_N (ws_q s)" "ws_L s' = ws_L s" "ws_thief s' = ws_thief s"
    and "owner_ok (ws_q s') (ws_T s) (ws_owner s')" "ws_viewer s' = ws_viewer s"
    and "ws_pushed s' = ws_pushed s" "ws_stolen s' = ws_stolen s"
    and "ws_popped s' @ in_hand (ws_q s') (ws_owner s') = ws_popped s @ in_hand (ws_q s) (ws_owner s)"
  shows "ws_good_step n c s s'"
proof -
  have "ws_abs s' = ws_abs s"
    using ws_inv_quiet(2) [OF assms(1-8)] assms(9-11) by (simp add: ws_abs_def)
  then show ?thesis
    using ws_inv_quiet(1) [OF assms(1-8)] by (simp add: ws_good_step_def dq_stutter)
qed

lemma ws_live_eqI:
  assumes "ws_T s' = ws_T s" "ws_L s' = ws_L s"
    and "\<And>k. ws_T s \<le> k \<Longrightarrow> k < ws_L s \<Longrightarrow> ws_elem (ws_q s') k = ws_elem (ws_q s) k"
  shows "ws_live s' = ws_live s"
  using assms by (simp add: ws_live_def)

lemma ws_push_slot_step:
  assumes inv: "ws_inv n c s" and pc: "ws_owner s = OPush h (PushSlot bt)"
    and s': "owner_act s (ws_owner s) = Inr s'"
  shows "ws_good_step n c s s'"
proof -
  let ?q' = "(ws_q s)\<lparr>ws_slots := (ws_slots (ws_q s))[ws_pos (ws_q s) bt := Some h]\<rparr>"
  have f: "ws_q s' = ?q'" "ws_owner s' = OPush h (PushPub bt)" "ws_thief s' = ws_thief s"
    "ws_pushed s' = ws_pushed s" "ws_popped s' = ws_popped s" "ws_stolen s' = ws_stolen s" "ws_viewer s' = ws_viewer s"
    using s' pc by auto
  have n: "has_single_bit n" and N: "ws_N (ws_q s) = n" and len: "length (ws_slots (ws_q s)) = unat n"
    and bt: "bt = ws_bottom (ws_q s)" "unat bt < ws_T s + unat n" and L: "ws_L s = unat bt"
    using inv pc by (auto simp: ws_inv_def ring_ok_def)
  have new: "ws_elem ?q' (unat bt) = Some h" using n N len by simp
  have old: "ws_elem ?q' k = ws_elem (ws_q s) k" if "ws_T s \<le> k" "k < ws_L s" for k
    using mod_window_inj [of "ws_T s" k "unat n" "unat bt"] that bt(2) L n N len by auto
  have inv': "ws_inv n (Suc c) s'"
    using inv old new N len bt L pc
    by (intro ws_inv_keep [OF inv]) (auto simp: f ws_inv_def ring_ok_def)
  have "ws_live s' = ws_live s" using old L bt by (intro ws_live_eqI) (simp_all add: f)
  then have "ws_abs s' = ws_abs s" by (simp add: ws_abs_def f pc)
  then show ?thesis using inv' by (simp add: ws_good_step_def dq_stutter)
qed

lemma ws_push_pub_step:
  assumes inv: "ws_inv n c s" and c: "c < index_limit" and pc: "ws_owner s = OPush h (PushPub bt)"
    and s': "owner_act s (ws_owner s) = Inr s'"
  shows "ws_good_step n c s s'"
proof -
  have f: "ws_q s' = (ws_q s)\<lparr>ws_bottom := bt + 1\<rparr>" "ws_owner s' = OPush h (PushRet True)"
    "ws_thief s' = ws_thief s" "ws_pushed s' = ws_pushed s @ [h]" "ws_popped s' = ws_popped s"
    "ws_stolen s' = ws_stolen s" "ws_viewer s' = ws_viewer s"
    using s' pc by auto
  have bt: "bt = ws_bottom (ws_q s)" "unat bt < ws_T s + unat n" "ws_elem (ws_q s) (unat bt) = Some h"
    and L: "ws_L s = unat bt" "unat bt \<le> c" "ws_T s \<le> unat bt"
    using inv pc by (auto simp: ws_inv_def ring_ok_def)
  have L': "unat (bt + 1) = Suc (unat bt)" using L c by (intro unat_plus_one) simp
  have inv': "ws_inv n (Suc c) s'"
    using inv bt L L' pc
    by (intro ws_inv_keep [OF inv]) (auto simp: f ws_inv_def ring_ok_def less_Suc_eq)
  have live: "ws_live s' = ws_live s @ [h]"
    using bt L L' pc by (simp add: ws_live_def f)
  have "length (ws_live s) < unat n" using bt L by (simp add: ws_live_def)
  then have "dq_step (unat n) (ws_abs s) ((ws_abs s)\<lparr>dq_tasks := dq_tasks (ws_abs s) @ [h],
                dq_pushed := dq_pushed (ws_abs s) @ [h]\<rparr>)"
    by (intro dq_push) (simp add: ws_abs_def)
  moreover have "ws_abs s' = (ws_abs s)\<lparr>dq_tasks := dq_tasks (ws_abs s) @ [h],
                dq_pushed := dq_pushed (ws_abs s) @ [h]\<rparr>"
    by (simp add: ws_abs_def live f pc)
  ultimately show ?thesis using inv' by (simp add: ws_good_step_def)
qed

lemma ws_push_step:
  assumes inv: "ws_inv n c s" and c: "c < index_limit" and pc: "ws_owner s = OPush h pc"
    and s': "owner_act s (ws_owner s) = Inr s'"
  shows "ws_good_step n c s s'"
proof (cases pc)
  case (PushTop bt)
  have "bt = ws_bottom (ws_q s)" "ws_T s \<le> unat bt" "ws_N (ws_q s) = n"
    using inv assms(3) PushTop by (auto simp: ws_inv_def ring_ok_def)
  then have "\<not> ws_N (ws_q s) \<le> bt - ws_top (ws_q s) \<Longrightarrow> unat bt < ws_T s + unat (ws_N (ws_q s))"
    using unat_index_diff [of "ws_top (ws_q s)" bt] by (auto simp: word_le_nat_alt)
  then show ?thesis
    using s' inv assms(3) PushTop
    by (intro ws_good_quiet [OF inv]) (auto simp: Let_def ws_inv_def ring_ok_def)
next
  case (PushSlot bt)
  then show ?thesis using ws_push_slot_step inv assms(3) s' by blast
next
  case (PushPub bt)
  then show ?thesis using ws_push_pub_step inv c assms(3) s' by blast
qed (use s' inv assms(3) in \<open>intro ws_good_quiet [OF inv]; auto simp: ws_inv_def\<close>)+

subsection \<open>pop\<close>

lemma ws_pop_top_step:
  assumes inv: "ws_inv n c s" and c: "c < index_limit" and pc: "ws_owner s = OPop (PopTop bt)"
    and s': "owner_act s (ws_owner s) = Inr s'"
  shows "ws_good_step n c s s'"
proof -
  let ?tp = "ws_top (ws_q s)"
  have L: "ws_L s = unat (bt + 1)" and bt: "bt = ws_bottom (ws_q s)" and TL: "ws_T s \<le> ws_L s"
    and lim: "unat (bt + 1) < index_limit"
    using inv pc c by (auto simp: ws_inv_def ring_ok_def)
  have sbt: "sint bt = int (ws_L s) - 1" using sint_minus_one [OF lim] L by simp
  have stp: "sint ?tp = int (ws_T s)" using TL L lim by (intro sint_unat) linarith
  show ?thesis
  proof (cases "ws_T s < ws_L s")
    case False
    then have "\<not> sint ?tp \<le> sint bt" using sbt stp by linarith
    then show ?thesis
      using s' pc bt L TL False by (intro ws_good_quiet [OF inv]) (auto simp: Let_def)
  next
    case True
    have ubt: "unat bt = ws_L s - 1" using unat_minus_one [of "bt + 1"] L True by simp
    have some: "ws_elem (ws_q s) (unat bt) \<noteq> None"
      using inv ubt True by (auto simp: ws_inv_def ring_ok_def)
    have "sint ?tp \<le> sint bt" using sbt stp True by linarith
    then have f: "ws_q s' = ws_q s" "ws_owner s' = OPop (PopSlot ?tp bt)" "ws_thief s' = ws_thief s"
      "ws_pushed s' = ws_pushed s" "ws_popped s' = ws_popped s" "ws_stolen s' = ws_stolen s" "ws_viewer s' = ws_viewer s"
      using s' pc by (auto simp: Let_def)
    have blim: "unat bt < index_limit" using ubt L lim by linarith
    show ?thesis
    proof (cases "?tp = bt")
      case True
      then show ?thesis
        using f pc L bt blim by (intro ws_good_quiet [OF inv]) auto
    next
      case False
      then have ne: "ws_T s \<noteq> unat bt" by (simp add: word_unat_eq_iff)
      have L': "ws_L s' = unat bt" "ws_L s = Suc (unat bt)" "ws_T s < unat bt"
        using False ubt True ne by (auto simp: f)
      have own: "owner_ok (ws_q s') (ws_T s') (ws_owner s')" using some bt blim by (simp add: f)
      have ring: "ring_ok n (ws_q s') (ws_T s') (ws_L s')"
        using inv L' unfolding ws_inv_def ring_ok_def f(1) by auto
      have "ws_L s \<le> c" using inv by (simp add: ws_inv_def)
      then have inv': "ws_inv n (Suc c) s'"
        using L' by (intro ws_inv_keep [OF inv ring _ own]) (simp_all add: f(1,3,7))
      have live: "ws_live s = ws_live s' @ in_hand (ws_q s') (ws_owner s')"
        using L' False by (simp add: ws_live_def f(1)) (simp add: f(2))
      have "dq_step (unat n) (ws_abs s) ((ws_abs s)\<lparr>dq_tasks := ws_live s',
              dq_popped := dq_popped (ws_abs s) @ [the (ws_elem (ws_q s) (unat bt))]\<rparr>)"
        using live False by (intro dq_pop) (simp add: ws_abs_def f)
      moreover have "ws_abs s' = (ws_abs s)\<lparr>dq_tasks := ws_live s',
              dq_popped := dq_popped (ws_abs s) @ [the (ws_elem (ws_q s) (unat bt))]\<rparr>"
        using False pc by (simp add: ws_abs_def f)
      ultimately show ?thesis using inv' by (simp add: ws_good_step_def)
    qed
  qed
qed

lemma ws_pop_slot_step:
  assumes inv: "ws_inv n c s" and pc: "ws_owner s = OPop (PopSlot tp bt)"
    and s': "owner_act s (ws_owner s) = Inr s'"
  shows "ws_good_step n c s s'"
proof -
  have n: "has_single_bit (ws_N (ws_q s))" and ok: "owner_ok (ws_q s) (ws_T s) (OPop (PopSlot tp bt))"
    using inv pc by (auto simp: ws_inv_def ring_ok_def)
  have ptr: "ws_slots (ws_q s) ! ws_pos (ws_q s) bt = ws_elem (ws_q s) (unat bt)"
    by (simp add: ws_elem_def ws_pos_def unat_and_mask [OF n])
  show ?thesis
  proof (cases "tp = bt")
    case True
    then show ?thesis using s' pc ok ptr
      by (intro ws_good_quiet [OF inv]) auto
  next
    case False
    then obtain h where "ws_elem (ws_q s) (unat bt) = Some h" using ok by auto
    then show ?thesis using s' pc ok ptr False
      by (intro ws_good_quiet [OF inv]) (auto simp: pop_ret_def)
  qed
qed

lemma ws_pop_cas_step:
  assumes inv: "ws_inv n c s" and c: "c < index_limit" and pc: "ws_owner s = OPop (PopCas tp bt ptr)"
    and s': "owner_act s (ws_owner s) = Inr s'"
  shows "ws_good_step n c s s'"
proof -
  have bt: "bt = ws_bottom (ws_q s)" "tp = bt" and blim: "unat bt < index_limit" "unat bt \<le> ws_T s"
    and hd: "ws_T s = unat bt \<Longrightarrow> ptr = ws_elem (ws_q s) (ws_T s)"
    and TL: "ws_T s \<le> unat (bt + 1)" "ws_L s = unat (bt + 1)" "unat (bt + 1) \<le> c"
    using inv pc by (auto simp: ws_inv_def ring_ok_def)
  have L: "unat (bt + 1) = Suc (unat bt)" using blim(1) by (rule unat_plus_one)
  show ?thesis
  proof (cases "ws_top (ws_q s) = tp")
    case False
    then have "ws_T s \<noteq> unat bt" using bt(2) by (simp add: word_unat_eq_iff)
    then have "ws_T s = unat (bt + 1)" using L blim TL by linarith
    then show ?thesis using s' pc bt False by (intro ws_good_quiet [OF inv]) auto
  next
    case True
    then have T: "ws_T s = unat bt" using bt by simp
    obtain h where h: "ptr = Some h" "ws_elem (ws_q s) (unat bt) = Some h"
      using inv hd T TL(2) L by (fastforce simp: ws_inv_def ring_ok_def)
    have f: "ws_q s' = (ws_q s)\<lparr>ws_top := bt + 1\<rparr>" "ws_owner s' = OPop (PopRestore bt ptr)"
      "ws_thief s' = ws_thief s" "ws_pushed s' = ws_pushed s" "ws_popped s' = ws_popped s"
      "ws_stolen s' = ws_stolen s" "ws_viewer s' = ws_viewer s"
      using s' pc True bt by auto
    have ring: "ring_ok n (ws_q s') (ws_T s') (ws_L s')"
      using inv pc unfolding ws_inv_def ring_ok_def by (simp add: f)
    have inv': "ws_inv n (Suc c) s'"
      using TL T L by (intro ws_inv_keep [OF inv ring]) (simp_all add: f bt(1)[symmetric])
    have live: "ws_live s = [h]" "ws_live s' = []"
      using TL(2) T L h by (simp_all add: ws_live_def f)
    have "dq_step (unat n) (ws_abs s) ((ws_abs s)\<lparr>dq_tasks := [],
              dq_popped := dq_popped (ws_abs s) @ [h]\<rparr>)"
      using live by (intro dq_pop) (simp add: ws_abs_def)
    moreover have "ws_abs s' = (ws_abs s)\<lparr>dq_tasks := [],
              dq_popped := dq_popped (ws_abs s) @ [h]\<rparr>"
      using live pc h by (simp add: ws_abs_def f)
    ultimately show ?thesis using inv' by (simp add: ws_good_step_def)
  qed
qed

lemma ws_pop_step:
  assumes inv: "ws_inv n c s" and c: "c < index_limit" and pc: "ws_owner s = OPop pc"
    and s': "owner_act s (ws_owner s) = Inr s'"
  shows "ws_good_step n c s s'"
proof (cases pc)
  case (PopTop bt)
  then show ?thesis using ws_pop_top_step inv c assms(3) s' by blast
next
  case (PopSlot tp bt)
  then show ?thesis using ws_pop_slot_step inv assms(3) s' by blast
next
  case (PopCas tp bt ptr)
  then show ?thesis using ws_pop_cas_step inv c assms(3) s' by blast
next
  case (PopRestore bt ptr)
  then show ?thesis using s' assms(3)
    by (cases ptr) (intro ws_good_quiet [OF inv]; auto simp: pop_ret_def)+
qed (use s' inv assms(3) in \<open>intro ws_good_quiet [OF inv]; auto simp: ws_inv_def\<close>)+

subsection \<open>approx\_size and steal\<close>

text \<open>\<^verbatim>\<open>bottom_\<close>, read as a signed number, never exceeds the logical bottom.\<close>

lemma bottom_bounds:
  assumes inv: "ws_inv n c s" and c: "c < index_limit"
  shows "sint (ws_bottom (ws_q s)) \<le> int (ws_L s)" "int (ws_L s) - 1 \<le> sint (ws_bottom (ws_q s))"
proof -
  let ?b = "ws_bottom (ws_q s)"
  have L: "ws_L s < index_limit" using inv c by (simp add: ws_inv_def)
  have ok: "owner_ok (ws_q s) (ws_T s) (ws_owner s)" using inv by (simp add: ws_inv_def)
  have "ws_L s = unat ?b \<or> ws_L s = unat (?b + 1)"
    using ok by (cases "(ws_owner s, ?b)" rule: logical_bottom.cases) auto
  then have "sint ?b = int (ws_L s) \<or> sint ?b = int (ws_L s) - 1"
    using sint_unat [of ?b] sint_minus_one [of "?b + 1"] L by auto
  then show "sint ?b \<le> int (ws_L s)" "int (ws_L s) - 1 \<le> sint ?b" by auto
qed

lemma ws_approx_act:
  assumes inv: "ws_inv n c s" and c: "c < index_limit" and pc: "ws_owner s = OApprox pc"
  shows "\<exists>s'. owner_act s (ws_owner s) = Inr s' \<and> ws_good_step n c s s'"
proof (cases pc)
  case (ApproxBottom tp)
  let ?b = "ws_bottom (ws_q s)"
  have tp: "unat tp \<le> ws_T s" and TL: "ws_T s \<le> ws_L s" "ws_L s \<le> c" "ws_L s = unat ?b"
    using inv pc ApproxBottom by (auto simp: ws_inv_def ring_ok_def)
  have "unat tp < index_limit" "unat ?b < index_limit" using tp TL c by linarith+
  then have "ptrdiff_sub ?b tp = Inr (int (unat ?b) - int (unat tp))" by (intro ptrdiff_sub_unat)
  then show ?thesis using pc ApproxBottom
    by (auto intro!: ws_good_quiet [OF inv])
qed (use pc inv in \<open>auto intro!: ws_good_quiet [OF inv] simp: ws_inv_def\<close>)+

lemma ws_thief_quiet:
  assumes "ws_inv n c s" "thief_ok (ws_q s) (ws_T s) (ws_L s) pc'"
  shows "ws_good_step n c s (s\<lparr>ws_thief := (ws_thief s)(i := pc')\<rparr>)"
proof -
  have "ws_abs (s\<lparr>ws_thief := (ws_thief s)(i := pc')\<rparr>) = ws_abs s"
    by (simp add: ws_abs_def ws_live_def)
  then show ?thesis using assms by (simp add: ws_good_step_def dq_stutter ws_inv_def)
qed

lemma owner_ok_steal:
  assumes "owner_ok q T pc" "T < logical_bottom pc (ws_bottom q)"
  shows "owner_ok (q\<lparr>ws_top := t\<rparr>) (Suc T) pc"
  using assms by (cases "(pc, ws_bottom q)" rule: logical_bottom.cases) (auto split: push_pc.splits approx_pc.splits pop_pc.splits elim!: owner_ok.elims)

lemma ws_steal_cas_step:
  assumes inv: "ws_inv n c s" and c: "c < index_limit" and pc: "ws_thief s i = StealCas tp ptr"
    and s': "ws_act (ThiefStep i) s = Inr s'"
  shows "ws_good_step n c s s'"
proof (cases "ws_top (ws_q s) = tp")
  case False
  then have "s' = s\<lparr>ws_thief := (ws_thief s)(i := StealRet kAbort None)\<rparr>" using s' pc by simp
  then show ?thesis using ws_thief_quiet [OF inv] by simp
next
  case True
  have ok: "thief_ok (ws_q s) (ws_T s) (ws_L s) (StealCas tp ptr)" for j
    using inv pc by (metis ws_inv_def)
  then have TL: "ws_T s < ws_L s" and ptr: "ptr = ws_elem (ws_q s) (ws_T s)" using True by auto
  obtain h where h: "ws_elem (ws_q s) (ws_T s) = Some h"
    using inv TL by (auto simp: ws_inv_def ring_ok_def)
  have f: "ws_q s' = (ws_q s)\<lparr>ws_top := tp + 1\<rparr>" "ws_owner s' = ws_owner s"
    "ws_thief s' = (ws_thief s)(i := StealRet kSuccess ptr)" "ws_pushed s' = ws_pushed s"
    "ws_popped s' = ws_popped s" "ws_stolen s' = ws_stolen s @ [h]" "ws_viewer s' = ws_viewer s"
    using s' pc True ptr h by auto
  have "ws_L s \<le> c" using inv by (simp add: ws_inv_def)
  then have "unat (tp + 1) = Suc (unat tp)" using TL True c by (intro unat_plus_one) simp
  then have T': "unat (tp + 1) = Suc (ws_T s)" using True by simp
  have "ring_ok n (ws_q s') (ws_T s') (ws_L s')"
    using inv TL unfolding ws_inv_def ring_ok_def by (auto simp: f T')
  moreover have "owner_ok (ws_q s') (ws_T s') (ws_owner s')"
    using owner_ok_steal [of "ws_q s" "ws_T s" "ws_owner s" "tp + 1"] inv TL by (simp add: f T' ws_inv_def)
  moreover have "thief_ok (ws_q s') (ws_T s') (ws_L s') (ws_thief s' j)" for j
  proof (cases "j = i")
    case False
    then show ?thesis using inv by (auto simp: f T' ws_inv_def intro: thief_ok_keep)
  qed (simp add: f)
  moreover have "viewer_ok (ws_T s') (ws_viewer s' j)" for j
    using inv by (auto simp: f T' ws_inv_def intro: viewer_ok_mono)
  ultimately have inv': "ws_inv n (Suc c) s'"
    using \<open>ws_L s \<le> c\<close> by (simp add: ws_inv_def f(1,2))
  have live: "ws_live s = h # ws_live s'"
    using TL h by (simp add: ws_live_def f T' upt_conv_Cons)
  have "in_hand (ws_q s') (ws_owner s') = in_hand (ws_q s) (ws_owner s)"
    by (cases "(ws_q s, ws_owner s)" rule: in_hand.cases) (auto simp: f)
  then have "ws_abs s' = (ws_abs s)\<lparr>dq_tasks := ws_live s', dq_stolen := dq_stolen (ws_abs s) @ [h]\<rparr>"
    by (simp add: ws_abs_def f)
  moreover have "dq_step (unat n) (ws_abs s)
      ((ws_abs s)\<lparr>dq_tasks := ws_live s', dq_stolen := dq_stolen (ws_abs s) @ [h]\<rparr>)"
    using live by (intro dq_steal) (simp add: ws_abs_def)
  ultimately show ?thesis using inv' by (simp add: ws_good_step_def)
qed

lemma ws_steal_step:
  assumes inv: "ws_inv n c s" and c: "c < index_limit" and s': "ws_act (ThiefStep i) s = Inr s'"
  shows "ws_good_step n c s s'"
proof -
  let ?q = "ws_q s"
  have ok: "thief_ok ?q (ws_T s) (ws_L s) (ws_thief s i)" and n: "has_single_bit (ws_N ?q)"
    using inv by (auto simp: ws_inv_def ring_ok_def)
  show ?thesis
  proof (cases "ws_thief s i")
    case (StealCas tp ptr)
    then show ?thesis using ws_steal_cas_step inv c s' by blast
  next
    case (StealBottom tp)
    have "ws_T s \<le> ws_L s" "ws_L s < index_limit" using inv c by (auto simp: ws_inv_def ring_ok_def)
    then have "sint tp = int (unat tp)" using ok StealBottom by (intro sint_unat) simp
    then have "sint tp < sint (ws_bottom ?q) \<Longrightarrow> unat tp < ws_L s"
      using bottom_bounds(1) [OF inv c] by linarith
    then show ?thesis using s' StealBottom ok
      by (auto simp: Let_def intro!: ws_thief_quiet [OF inv])
  next
    case (StealSlot tp)
    have "ws_slots ?q ! ws_pos ?q tp = ws_elem ?q (unat tp)"
      by (simp add: ws_elem_def ws_pos_def unat_and_mask [OF n])
    then show ?thesis using s' StealSlot ok by (auto intro!: ws_thief_quiet [OF inv])
  qed (use s' ok in \<open>auto intro!: ws_thief_quiet [OF inv]\<close>)
qed

text \<open>
  A thief that looks at the size may see \<^verbatim>\<open>bottom_\<close> decremented by a \<^verbatim>\<open>pop\<close>, even below zero; the signed difference is in range all the same.
\<close>

lemma ws_view_quiet:
  assumes "ws_inv n c s" "viewer_ok (ws_T s) pc'"
  shows "ws_good_step n c s (s\<lparr>ws_viewer := (ws_viewer s)(i := pc')\<rparr>)"
proof -
  have "ws_abs (s\<lparr>ws_viewer := (ws_viewer s)(i := pc')\<rparr>) = ws_abs s"
    by (simp add: ws_abs_def ws_live_def)
  then show ?thesis using assms by (simp add: ws_good_step_def dq_stutter ws_inv_def)
qed

lemma ws_view_step:
  assumes inv: "ws_inv n c s" and c: "c < index_limit"
  shows "\<exists>s'. ws_act (ViewStep i) s = Inr s' \<and> ws_good_step n c s s'"
proof (cases "ws_viewer s i")
  case (ApproxBottom tp)
  let ?b = "ws_bottom (ws_q s)"
  have "viewer_ok (ws_T s) (ws_viewer s i)" using inv by (simp add: ws_inv_def)
  then have tp: "unat tp \<le> ws_T s" using ApproxBottom by simp
  have TL: "ws_T s \<le> ws_L s" "ws_L s \<le> c" using inv by (auto simp: ws_inv_def ring_ok_def)
  then have lim: "unat tp < index_limit" "ws_L s < index_limit" using tp c by linarith+
  then have "int (unat tp) < 2 ^ 63" "int (ws_L s) < 2 ^ 63" by (metis of_nat_less_iff of_nat_numeral of_nat_power)+
  then have "- (2 ^ 63) \<le> sint ?b - sint tp" "sint ?b - sint tp < 2 ^ 63"
    using bottom_bounds [OF inv c] sint_unat [OF lim(1)] by linarith+
  then have "ptrdiff_sub ?b tp = Inr (sint ?b - sint tp)" by (simp add: ptrdiff_sub_def)
  then show ?thesis using ApproxBottom ws_view_quiet [OF inv] by simp
next
  case ApproxTop
  then show ?thesis using ws_view_quiet [OF inv] by simp
next
  case (ApproxRet r)
  then show ?thesis using ws_view_quiet [OF inv] by simp
qed

subsection \<open>Any schedule\<close>

lemma owner_idle_plain:
  "owner_idle pc \<Longrightarrow> logical_bottom pc b = unat b" "owner_idle pc \<Longrightarrow> in_hand q pc = []"
  by (cases pc rule: owner_idle.cases; simp)+

lemma ws_act_good:
  assumes inv: "ws_inv n c s" and c: "c < index_limit"
  shows "\<exists>s'. ws_act a s = Inr s' \<and> ws_good_step n c s s'"
proof -
  have same: "ws_good_step n c s s"
    using inv by (intro ws_good_quiet [OF inv]) (auto simp: ws_inv_def)
  have call: "ws_good_step n c s (s\<lparr>ws_owner := pc\<rparr>)"
    if "owner_idle (ws_owner s)" "logical_bottom pc (ws_bottom (ws_q s)) = unat (ws_bottom (ws_q s))"
      "in_hand (ws_q s) pc = []" "owner_ok (ws_q s) (ws_T s) pc" for pc
    using that by (intro ws_good_quiet [OF inv]) (simp_all add: owner_idle_plain)
  show ?thesis
  proof (cases a)
    case OwnerStep
    show ?thesis
    proof (cases "ws_owner s")
      case (OPush h pc)
      then show ?thesis using ws_push_step [OF inv c OPush] OwnerStep by (auto split: prod.splits)
    next
      case (OPop pc)
      then show ?thesis using ws_pop_step [OF inv c OPop] OwnerStep by (auto split: prod.splits)
    next
      case (OApprox pc)
      then show ?thesis using ws_approx_act [OF inv c OApprox] OwnerStep by auto
    qed
  next
    case (StealCall i)
    then show ?thesis using ws_thief_quiet [OF inv, of StealTop i] same
      by (cases "ws_thief s i") auto
  next
    case (ThiefStep i)
    then show ?thesis using ws_steal_step [OF inv c, of i] by (auto split: prod.splits)
  next
    case (ViewCall i)
    then show ?thesis using ws_view_quiet [OF inv, of ApproxTop i] same by (cases "ws_viewer s i") auto
  next
    case (ViewStep i)
    then show ?thesis using ws_view_step [OF inv c] by blast
  qed (use same call in auto)
qed

lemma ws_run_good:
  assumes "ws_inv n c s" "dq_inv (unat n) (ws_abs s)" "c + length acts \<le> index_limit"
  shows "\<exists>s'. ws_run acts s = Inr s' \<and> ws_inv n (c + length acts) s' \<and> dq_inv (unat n) (ws_abs s')"
proof (rule deque_threads.exec_budget [where I = "\<lambda>c s. ws_inv n c s \<and> dq_inv (unat n) (ws_abs s)"])
  show "\<exists>t. ws_act a s = Inr t \<and> ws_inv n (Suc c) t \<and> dq_inv (unat n) (ws_abs t)"
    if "ws_inv n c s \<and> dq_inv (unat n) (ws_abs s)" "c < index_limit" for c a s
    using ws_act_good [of n c s a] dq_inv_step that by (auto simp: ws_good_step_def)
qed (use assms in simp_all)

lemma ws_run_start:
  assumes "has_single_bit n" "length acts \<le> index_limit"
  shows "\<exists>s. ws_run acts (ws_start n) = Inr s \<and> ws_inv n (length acts) s \<and> dq_inv (unat n) (ws_abs s)"
proof -
  have "dq_inv (unat n) (ws_abs (ws_start n))"
    by (simp add: dq_inv_def ws_abs_def ws_start_def ws_live_def ws_new_def)
  then show ?thesis using ws_run_good [OF ws_inv_start [OF assms(1)], of acts] assms(2) by simp
qed

section \<open>Properties\<close>

text \<open>
  C5. However the owner's and the thieves' accesses to a \<^verbatim>\<open>WorkStealingQueue<N>\<close> interleave (fewer
  than \<open>2 ^ 63\<close> of them), none of them is undefined, and every task pushed is in exactly one
  place: returned by one \<^verbatim>\<open>pop\<close>, returned by one \<^verbatim>\<open>steal\<close>, in the hand of a \<^verbatim>\<open>pop\<close> about to return
  it, or still in the deque, which holds at most \<open>N\<close>. Tasks are stolen in the order in which
  they were pushed.
\<close>

theorem work_stealing_conservation:
  assumes "has_single_bit n" "length acts < index_limit"
  shows "\<exists>s. ws_run acts (ws_start n) = Inr s
       \<and> mset (ws_pushed s) = mset (ws_popped s) + mset (ws_stolen s)
            + mset (in_hand (ws_q s) (ws_owner s)) + mset (ws_live s)
       \<and> length (ws_live s) \<le> unat n
       \<and> subseq (ws_stolen s @ ws_live s) (ws_pushed s)"
  using ws_run_start [OF assms(1), of acts] assms(2)
  by (auto simp: dq_inv_def ws_abs_def ac_simps)

text \<open>The race for the last task: the thief and the owner both reach their compare-exchange.\<close>

definition last_task_race :: "ws_action list" where
  "last_task_race =
     PushCall 5 # replicate 4 OwnerStep @ StealCall 0 # replicate 3 (ThiefStep 0)
     @ PopCall # replicate 4 OwnerStep @ [ThiefStep 0] @ replicate 2 OwnerStep"

theorem work_stealing_conservation_witness:
  "\<exists>s. ws_run last_task_race (ws_start 4) = Inr s \<and> ws_stolen s = [5] \<and> ws_popped s = []
     \<and> mset [5] = mset (ws_popped s) + mset (ws_stolen s)
            + mset (in_hand (ws_q s) (ws_owner s)) + mset (ws_live s)"
proof -
  have "length last_task_race < index_limit" by (simp add: last_task_race_def)
  moreover have "\<forall>s. ws_run last_task_race (ws_start 4) = Inr s \<longrightarrow>
      ws_stolen s = [5] \<and> ws_popped s = [] \<and> ws_pushed s = [5]"
  proof -
    have "(case ws_run last_task_race (ws_start 4) of Inl _ \<Rightarrow> False
         | Inr s \<Rightarrow> ws_stolen s = [5] \<and> ws_popped s = [] \<and> ws_pushed s = [5])"
      by code_simp
    then show ?thesis by auto
  qed
  ultimately show ?thesis using work_stealing_conservation [OF single_bit_4, of last_task_race] by auto
qed

text \<open>
  C8. Every access made by any operation in any schedule of a \<^verbatim>\<open>WorkStealingQueue<N>\<close> is, seen
  through the tasks held, either invisible or one atomic step of a deque of capacity \<open>N\<close>: a task
  appended at the newest end, the newest task taken by the owner, or the oldest taken by a thief.
\<close>

theorem work_stealing_linearizable:
  assumes "has_single_bit n" "length acts < index_limit" "ws_run acts (ws_start n) = Inr s"
  shows "\<exists>s'. ws_act a s = Inr s' \<and> dq_step (unat n) (ws_abs s) (ws_abs s')"
  using ws_run_start [OF assms(1), of acts] assms ws_act_good [of n "length acts" s a]
  by (auto simp: ws_good_step_def)

text \<open>A thief is about to take the only task, and does.\<close>

definition about_to_steal :: "ws_action list" where
  "about_to_steal = PushCall 5 # replicate 4 OwnerStep @ StealCall 0 # replicate 3 (ThiefStep 0)"

theorem work_stealing_linearizable_witness:
  "\<exists>s s'. ws_run about_to_steal (ws_start 4) = Inr s \<and> ws_stolen s = [] \<and> ws_act (ThiefStep 0) s = Inr s' \<and> ws_stolen s' = [5]
     \<and> dq_step (unat (4 :: size_t)) (ws_abs s) (ws_abs s')"
proof -
  have len: "length about_to_steal < index_limit" by (simp add: about_to_steal_def)
  have "case ws_run about_to_steal (ws_start 4) of Inl _ \<Rightarrow> False
       | Inr s \<Rightarrow> ws_stolen s = [] \<and> (case ws_act (ThiefStep 0) s of Inl _ \<Rightarrow> False | Inr s' \<Rightarrow> ws_stolen s' = [5])"
    by code_simp
  then obtain s s' where s: "ws_run about_to_steal (ws_start 4) = Inr s" "ws_stolen s = []" "ws_act (ThiefStep 0) s = Inr s'"
    "ws_stolen s' = [5]"
    by (auto split: sum.splits)
  then show ?thesis using work_stealing_linearizable [OF single_bit_4 len s(1), of "ThiefStep 0"] by auto
qed

text \<open>
  A \<^verbatim>\<open>pop\<close> that is about to return \<^verbatim>\<open>kEmpty\<close> returns it on an empty deque, in any schedule. A \<^verbatim>\<open>steal\<close>
  that decides on \<^verbatim>\<open>kEmpty\<close> does so when no task is held, or only one that the owner is taking at
  that moment inside \<^verbatim>\<open>pop\<close>.
\<close>

theorem work_stealing_empty_reports:
  assumes "has_single_bit n" "length acts < index_limit" "ws_run acts (ws_start n) = Inr s"
  shows "(ws_owner s = OPop pc \<and> pop_result pc = None \<and> pop_step (ws_q s) pc = (q', PopRet kEmpty ptr)
            \<longrightarrow> ws_live s = [])
       \<and> (ws_thief s i = StealBottom tp \<and> steal_step (ws_q s) (StealBottom tp) = (q', StealRet kEmpty None)
            \<longrightarrow> ws_live s = [] \<or> (length (ws_live s) = 1 \<and> (\<exists>pc. ws_owner s = OPop pc)))"
proof -
  have inv: "ws_inv n (length acts) s" using ws_run_start [OF assms(1), of acts] assms(2,3) by auto
  have TL: "ws_T s \<le> ws_L s" "ws_L s < index_limit"
    using inv assms(2) by (auto simp: ws_inv_def ring_ok_def)
  have n: "has_single_bit (ws_N (ws_q s))" using inv by (auto simp: ws_inv_def ring_ok_def)
  have "ws_live s = []"
    if "ws_owner s = OPop pc" "pop_result pc = None" "pop_step (ws_q s) pc = (q', PopRet kEmpty ptr)"
  proof (cases pc)
    case (PopSlot tp bt)
    have "ws_slots (ws_q s) ! ws_pos (ws_q s) bt = ws_elem (ws_q s) (unat bt)"
      by (simp add: ws_elem_def ws_pos_def unat_and_mask [OF n])
    then show ?thesis
      using that PopSlot inv by (auto simp: ws_inv_def pop_ret_def Let_def split: if_splits)
  next
    case (PopRestore bt ptr')
    then show ?thesis using that inv by (auto simp: ws_inv_def ws_live_def)
  qed (use that in \<open>auto simp: Let_def split: if_splits\<close>)
  moreover have "ws_live s = [] \<or> (length (ws_live s) = 1 \<and> (\<exists>pc. ws_owner s = OPop pc))"
    if "ws_thief s i = StealBottom tp" "steal_step (ws_q s) (StealBottom tp) = (q', StealRet kEmpty None)"
  proof -
    have "thief_ok (ws_q s) (ws_T s) (ws_L s) (ws_thief s i)" using inv by (simp add: ws_inv_def)
    then have tp: "unat tp \<le> ws_T s" using that(1) by simp
    have "sint (ws_bottom (ws_q s)) \<le> sint tp"
      using that(2) by (simp add: Let_def split: if_splits)
    then have le: "sint (ws_bottom (ws_q s)) \<le> int (ws_T s)"
      using sint_unat [of tp] tp TL by linarith
    then have one: "ws_L s \<le> Suc (ws_T s)" using bottom_bounds(2) [OF inv assms(2)] by linarith
    have "ws_L s \<le> ws_T s" if np: "\<nexists>pc. ws_owner s = OPop pc"
    proof -
      have eq: "ws_L s = unat (ws_bottom (ws_q s))" using np by (cases "ws_owner s") auto
      then have "sint (ws_bottom (ws_q s)) = int (ws_L s)" using sint_unat TL(2) by metis
      then show ?thesis using le by linarith
    qed
    then show ?thesis using one TL(1) by (cases "ws_L s = ws_T s") (auto simp: ws_live_def)
  qed
  ultimately show ?thesis by blast
qed

end
