(* ===== verification/Global_Queue.thy ===== *)
theory Global_Queue
  imports Prelude
begin

text \<open>
  The injection queue \<^verbatim>\<open>GlobalQueue\<close> of \<^verbatim>\<open>include/queue.h\<close>. Its operations run under a mutex, so
  each critical section is one function on the state; the calls of \<^verbatim>\<open>notify_one\<close> and
  \<^verbatim>\<open>notify_all\<close> come after the lock is released and are reported as a result. How the waiting
  side sleeps and wakes is modelled with the scheduler's threads (theory \<open>Scheduler_Threads\<close>).
\<close>

section \<open>State and operations\<close>

record global_queue =
  gq_queue :: "handle option list"
  gq_idle_threads :: size_t
  gq_wake_epoch :: size_t
  gq_stop_flag :: bool

definition gq_new :: global_queue where
  "gq_new = \<lparr>gq_queue = [], gq_idle_threads = 0, gq_wake_epoch = 0, gq_stop_flag = False\<rparr>"

text \<open>\<^verbatim>\<open>push\<close>: the number of \<^verbatim>\<open>notify_one\<close> calls to make, and the new state.\<close>

definition gq_push :: "handle option \<Rightarrow> global_queue \<Rightarrow> nat \<times> global_queue" where
  "gq_push task q =
     (let q1 = q\<lparr>gq_queue := gq_queue q @ [task]\<rparr>
      in if 0 < gq_idle_threads q1
         then (1, q1\<lparr>gq_wake_epoch := gq_wake_epoch q1 + 1\<rparr>)
         else (0, q1))"

definition gq_push_batch :: "handle option list \<Rightarrow> global_queue \<Rightarrow> nat \<times> global_queue" where
  "gq_push_batch tasks q =
     (if tasks = [] then (0, q)
      else let q1 = q\<lparr>gq_queue := gq_queue q @ tasks\<rparr>;
               wake_count = min (of_nat (length tasks)) (gq_idle_threads q1)
           in (unat wake_count,
               if 0 < wake_count then q1\<lparr>gq_wake_epoch := gq_wake_epoch q1 + 1\<rparr> else q1))"

definition gq_try_pop :: "global_queue \<Rightarrow> handle option \<times> global_queue" where
  "gq_try_pop q =
     (case gq_queue q of [] \<Rightarrow> (None, q) | task # rest \<Rightarrow> (task, q\<lparr>gq_queue := rest\<rparr>))"

definition gq_notify_one_idle :: "global_queue \<Rightarrow> nat \<times> global_queue" where
  "gq_notify_one_idle q =
     (if 0 < gq_idle_threads q then (1, q\<lparr>gq_wake_epoch := gq_wake_epoch q + 1\<rparr>) else (0, q))"

text \<open>
  Parking: announce, then either take the announcement back or wait. \<^verbatim>\<open>park\<close> evaluates its
  predicate under the lock, leaves when it holds and otherwise sleeps until notified.
\<close>

definition gq_prepare_park :: "global_queue \<Rightarrow> size_t \<times> global_queue" where
  "gq_prepare_park q = (gq_wake_epoch q, q\<lparr>gq_idle_threads := gq_idle_threads q + 1\<rparr>)"

definition gq_cancel_park :: "global_queue \<Rightarrow> global_queue" where
  "gq_cancel_park q = q\<lparr>gq_idle_threads := gq_idle_threads q - 1\<rparr>"

definition gq_park_pred :: "size_t \<Rightarrow> global_queue \<Rightarrow> bool" where
  "gq_park_pred observed_epoch q \<longleftrightarrow> gq_stop_flag q \<or> gq_wake_epoch q \<noteq> observed_epoch"

definition gq_park_leave :: "global_queue \<Rightarrow> global_queue" where
  "gq_park_leave q = q\<lparr>gq_idle_threads := gq_idle_threads q - 1\<rparr>"

text \<open>\<^verbatim>\<open>stop\<close>: whether \<^verbatim>\<open>notify_all\<close> follows, and the new state.\<close>

definition gq_stop :: "global_queue \<Rightarrow> bool \<times> global_queue" where
  "gq_stop q =
     (if gq_stop_flag q then (False, q)
      else (True, q\<lparr>gq_stop_flag := True, gq_wake_epoch := gq_wake_epoch q + 1\<rparr>))"

section \<open>What each operation does to the state\<close>

named_theorems gq_simps \<open>fields of the global queue after an operation\<close>

lemma gq_push_simps [gq_simps]:
  "gq_queue (snd (gq_push t q)) = gq_queue q @ [t]"
  "gq_idle_threads (snd (gq_push t q)) = gq_idle_threads q"
  "gq_stop_flag (snd (gq_push t q)) = gq_stop_flag q"
  "gq_wake_epoch (snd (gq_push t q)) =
     (if 0 < gq_idle_threads q then gq_wake_epoch q + 1 else gq_wake_epoch q)"
  "fst (gq_push t q) = (if 0 < gq_idle_threads q then 1 else 0)"
  by (simp_all add: gq_push_def Let_def)

lemma unat_min: "unat (min (a :: size_t) b) = min (unat a) (unat b)"
  by (simp add: min_def word_le_nat_alt)

lemma gq_push_batch_simps [gq_simps]:
  assumes "length ts < 2 ^ 64"
  shows "gq_queue (snd (gq_push_batch ts q)) = gq_queue q @ ts"
    "gq_idle_threads (snd (gq_push_batch ts q)) = gq_idle_threads q"
    "gq_stop_flag (snd (gq_push_batch ts q)) = gq_stop_flag q"
    "gq_wake_epoch (snd (gq_push_batch ts q)) =
       (if ts \<noteq> [] \<and> 0 < gq_idle_threads q then gq_wake_epoch q + 1 else gq_wake_epoch q)"
    "fst (gq_push_batch ts q) = min (length ts) (unat (gq_idle_threads q))"
proof -
  have "unat (min (of_nat (length ts)) (gq_idle_threads q)) = min (length ts) (unat (gq_idle_threads q))"
    by (simp only: unat_min unat_of_nat64 [OF assms])
  moreover have "0 < min (of_nat (length ts)) (gq_idle_threads q) \<longleftrightarrow> ts \<noteq> [] \<and> 0 < gq_idle_threads q"
    unfolding word_less_nat_alt unat_min unat_of_nat64 [OF assms] by auto
  ultimately show "gq_queue (snd (gq_push_batch ts q)) = gq_queue q @ ts"
    "gq_idle_threads (snd (gq_push_batch ts q)) = gq_idle_threads q"
    "gq_stop_flag (snd (gq_push_batch ts q)) = gq_stop_flag q"
    "gq_wake_epoch (snd (gq_push_batch ts q)) =
       (if ts \<noteq> [] \<and> 0 < gq_idle_threads q then gq_wake_epoch q + 1 else gq_wake_epoch q)"
    "fst (gq_push_batch ts q) = min (length ts) (unat (gq_idle_threads q))"
    by (auto simp: gq_push_batch_def Let_def)
qed

lemma gq_notify_simps [gq_simps]:
  "gq_queue (snd (gq_notify_one_idle q)) = gq_queue q"
  "gq_idle_threads (snd (gq_notify_one_idle q)) = gq_idle_threads q"
  "gq_stop_flag (snd (gq_notify_one_idle q)) = gq_stop_flag q"
  "gq_wake_epoch (snd (gq_notify_one_idle q)) =
     (if 0 < gq_idle_threads q then gq_wake_epoch q + 1 else gq_wake_epoch q)"
  "fst (gq_notify_one_idle q) = (if 0 < gq_idle_threads q then 1 else 0)"
  by (simp_all add: gq_notify_one_idle_def)

lemma gq_try_pop_simps [gq_simps]:
  "gq_queue (snd (gq_try_pop q)) = tl (gq_queue q)"
  "gq_idle_threads (snd (gq_try_pop q)) = gq_idle_threads q"
  "gq_stop_flag (snd (gq_try_pop q)) = gq_stop_flag q"
  "gq_wake_epoch (snd (gq_try_pop q)) = gq_wake_epoch q"
  "fst (gq_try_pop q) = (if gq_queue q = [] then None else hd (gq_queue q))"
  by (auto simp: gq_try_pop_def split: list.splits)

lemma gq_park_simps [gq_simps]:
  "gq_queue (gq_park_leave q) = gq_queue q" "gq_wake_epoch (gq_park_leave q) = gq_wake_epoch q"
  "gq_stop_flag (gq_park_leave q) = gq_stop_flag q"
  "gq_idle_threads (gq_park_leave q) = gq_idle_threads q - 1"
  "gq_queue (gq_cancel_park q) = gq_queue q" "gq_wake_epoch (gq_cancel_park q) = gq_wake_epoch q"
  "gq_stop_flag (gq_cancel_park q) = gq_stop_flag q"
  "gq_idle_threads (gq_cancel_park q) = gq_idle_threads q - 1"
  "gq_queue (snd (gq_prepare_park q)) = gq_queue q" "gq_wake_epoch (snd (gq_prepare_park q)) = gq_wake_epoch q"
  "gq_stop_flag (snd (gq_prepare_park q)) = gq_stop_flag q"
  "gq_idle_threads (snd (gq_prepare_park q)) = gq_idle_threads q + 1"
  "fst (gq_prepare_park q) = gq_wake_epoch q"
  by (simp_all add: gq_park_leave_def gq_cancel_park_def gq_prepare_park_def)

lemma gq_stop_simps [gq_simps]:
  "gq_queue (snd (gq_stop q)) = gq_queue q"
  "gq_idle_threads (snd (gq_stop q)) = gq_idle_threads q"
  "gq_stop_flag (snd (gq_stop q))"
  "gq_wake_epoch (snd (gq_stop q)) = (if gq_stop_flag q then gq_wake_epoch q else gq_wake_epoch q + 1)"
  "fst (gq_stop q) \<longleftrightarrow> \<not> gq_stop_flag q"
  by (simp_all add: gq_stop_def)

end
