(* ===== verification/Actor_Scheduler.thy ===== *)
theory Actor_Scheduler
  imports Work_Stealing_Queue Global_Queue
begin

text \<open>
  The coroutine scheduler \<^verbatim>\<open>ActorScheduler\<close> of \<^verbatim>\<open>actor_scheduler.h\<close> and \<^verbatim>\<open>actor_scheduler.cc\<close>: its
  workers' local deques, the global queue, \<^verbatim>\<open>Enqueue\<close>, \<^verbatim>\<open>EnqueueBatch\<close>, \<^verbatim>\<open>Shutdown\<close> and the lambda
  \<^verbatim>\<open>try_get_task\<close> of a worker thread, one queue operation per step. The worker loop itself and
  the interleaving of the threads are in theory \<open>Scheduler_Threads\<close>.
\<close>

section \<open>State\<close>

text \<open>\<^verbatim>\<open>thread_entries_\<close> is the number of local deques; worker \<open>i\<close> has \<^verbatim>\<open>worker_id\<close> \<open>i\<close>.\<close>

record scheduler =
  sc_local :: "ws_queue list"
  sc_global :: global_queue
  sc_running :: bool

definition scheduler_new :: "nat \<Rightarrow> scheduler" where
  "scheduler_new thread_entries =
     \<lparr>sc_local = replicate thread_entries (ws_new kWorkStealingQueueSize), sc_global = gq_new,
      sc_running = True\<rparr>"

section \<open>Enqueue\<close>

text \<open>
  Inside \<^verbatim>\<open>Enqueue\<close>, called by worker \<open>i\<close>: about to push on the local deque, to read its size, to
  notify an idle worker, to push on the global queue; returned. A call from a thread that is no
  worker (\<^verbatim>\<open>tls_worker\<close> null) starts at the global push. Every step also gives the number of
  \<^verbatim>\<open>notify_one\<close> calls it causes.
\<close>

datatype enqueue_pc = EnqLocal "handle option" | EnqSize | EnqNotify | EnqGlobal "handle option" | EnqDone

primrec enqueue_step :: "nat \<Rightarrow> scheduler \<Rightarrow> enqueue_pc \<Rightarrow> (nat \<times> scheduler \<times> enqueue_pc) res" where
  "enqueue_step i sc (EnqLocal h) =
     (let (ok, lq) = ws_push h (sc_local sc ! i)
      in Inr (0, sc\<lparr>sc_local := (sc_local sc)[i := lq]\<rparr>, if ok then EnqSize else EnqGlobal h))"
| "enqueue_step i sc EnqSize =
     res_bind (ws_approx_size (sc_local sc ! i))
       (\<lambda>sz. Inr (0, sc, if 1 < sz then EnqNotify else EnqDone))"
| "enqueue_step i sc EnqNotify =
     (let (wake, gq) = gq_notify_one_idle (sc_global sc) in Inr (wake, sc\<lparr>sc_global := gq\<rparr>, EnqDone))"
| "enqueue_step i sc (EnqGlobal h) =
     (let (wake, gq) = gq_push h (sc_global sc) in Inr (wake, sc\<lparr>sc_global := gq\<rparr>, EnqDone))"
| "enqueue_step i sc EnqDone = Inr (0, sc, EnqDone)"

definition enqueue_entry :: "nat option \<Rightarrow> handle option \<Rightarrow> enqueue_pc" where
  "enqueue_entry tls_worker h = (if tls_worker \<noteq> None then EnqLocal h else EnqGlobal h)"

text \<open>The call run to its end by one thread: three steps at most.\<close>

fun enqueue_run :: "nat \<Rightarrow> nat \<Rightarrow> scheduler \<Rightarrow> enqueue_pc \<Rightarrow> (nat \<times> scheduler) res option" where
  "enqueue_run fuel i sc EnqDone = Some (Inr (0, sc))"
| "enqueue_run 0 i sc pc = None"
| "enqueue_run (Suc fuel) i sc pc =
     (case enqueue_step i sc pc of
        Inl e \<Rightarrow> Some (Inl e)
      | Inr (wake, sc', pc') \<Rightarrow>
          map_option (map_sum id (\<lambda>(w, s). (wake + w, s))) (enqueue_run fuel i sc' pc'))"

definition Enqueue :: "nat option \<Rightarrow> handle option \<Rightarrow> scheduler \<Rightarrow> (nat \<times> scheduler) res option" where
  "Enqueue tls_worker h sc =
     enqueue_run 3 (case tls_worker of None \<Rightarrow> 0 | Some i \<Rightarrow> i) sc (enqueue_entry tls_worker h)"

definition EnqueueBatch :: "handle option list \<Rightarrow> scheduler \<Rightarrow> nat \<times> scheduler" where
  "EnqueueBatch tasks sc =
     (let (wake, gq) = gq_push_batch tasks (sc_global sc) in (wake, sc\<lparr>sc_global := gq\<rparr>))"

text \<open>\<^verbatim>\<open>Shutdown\<close>: clear \<^verbatim>\<open>running_\<close>, then stop the global queue (and notify all, when told so).\<close>

definition shutdown_store :: "scheduler \<Rightarrow> scheduler" where
  "shutdown_store sc = sc\<lparr>sc_running := False\<rparr>"

definition shutdown_stop :: "scheduler \<Rightarrow> bool \<times> scheduler" where
  "shutdown_stop sc = (let (wake_all, gq) = gq_stop (sc_global sc) in (wake_all, sc\<lparr>sc_global := gq\<rparr>))"

section \<open>try\_get\_task\<close>

text \<open>
  Inside \<^verbatim>\<open>try_get_task\<close>: about to count the tick (and poll the global queue every 61st time), to
  pop locally, to poll the global queue, to try the next victim (with the number of rounds
  made), to read a victim's size after a successful steal, to notify; returned.
\<close>

datatype get_pc =
    GetTick
  | GetLocal
  | GetGlobal
  | GetSteal nat nat
  | GetSize nat "handle option"
  | GetNotify "handle option"
  | GetRet "handle option"

text \<open>
  \<open>r\<close> is the value \<^verbatim>\<open>rng()\<close> returns when it is called; \<open>abort\<close> says that a steal loses its
  compare-exchange to another thread.
\<close>

primrec get_step :: "nat \<Rightarrow> bool \<Rightarrow> nat \<Rightarrow> uint32 \<Rightarrow> scheduler \<Rightarrow> get_pc
    \<Rightarrow> (nat \<times> uint32 \<times> scheduler \<times> get_pc) res" where
  "get_step r abort i tick sc GetTick =
     (let tick = tick + 1
      in if tick mod 61 = 0
         then let (task, gq) = gq_try_pop (sc_global sc)
              in Inr (0, tick, sc\<lparr>sc_global := gq\<rparr>, if task \<noteq> None then GetRet task else GetLocal)
         else Inr (0, tick, sc, GetLocal))"
| "get_step r abort i tick sc GetLocal =
     (let ((st, task), lq) = ws_pop (sc_local sc ! i)
      in Inr (0, tick, sc\<lparr>sc_local := (sc_local sc)[i := lq]\<rparr>, if task \<noteq> None then GetRet task else GetGlobal))"
| "get_step r abort i tick sc GetGlobal =
     (let (task, gq) = gq_try_pop (sc_global sc)
      in Inr (0, tick, sc\<lparr>sc_global := gq\<rparr>,
              if task \<noteq> None then GetRet task else GetSteal (r mod length (sc_local sc)) 0))"
| "get_step r abort i tick sc (GetSteal target_id k) =
     (let continue = GetSteal ((target_id + 1) mod length (sc_local sc)) (Suc k)
      in if k = length (sc_local sc) then Inr (0, tick, sc, GetRet None)
         else if target_id \<noteq> i \<and> \<not> abort
         then let ((st, task), lq) = ws_steal (sc_local sc ! target_id)
              in Inr (0, tick, sc\<lparr>sc_local := (sc_local sc)[target_id := lq]\<rparr>,
                      if st = kSuccess then GetSize target_id task else continue)
         else Inr (0, tick, sc, continue))"
| "get_step r abort i tick sc (GetSize target_id task) =
     res_bind (ws_approx_size (sc_local sc ! target_id))
       (\<lambda>sz. Inr (0, tick, sc, if 1 < sz then GetNotify task else GetRet task))"
| "get_step r abort i tick sc (GetNotify task) =
     (let (wake, gq) = gq_notify_one_idle (sc_global sc)
      in Inr (wake, tick, sc\<lparr>sc_global := gq\<rparr>, GetRet task))"
| "get_step r abort i tick sc (GetRet task) = Inr (0, tick, sc, GetRet task)"

text \<open>The lambda run to its end by one thread; the bound on its steps is shown to be enough.\<close>

fun get_run :: "nat \<Rightarrow> nat \<Rightarrow> nat \<Rightarrow> uint32 \<Rightarrow> scheduler \<Rightarrow> get_pc
    \<Rightarrow> (handle option \<times> nat \<times> uint32 \<times> scheduler) res option" where
  "get_run fuel r i tick sc (GetRet task) = Some (Inr (task, 0, tick, sc))"
| "get_run 0 r i tick sc pc = None"
| "get_run (Suc fuel) r i tick sc pc =
     (case get_step r False i tick sc pc of
        Inl e \<Rightarrow> Some (Inl e)
      | Inr (wake, tick', sc', pc') \<Rightarrow>
          map_option (map_sum id (\<lambda>(task, w, t, s). (task, wake + w, t, s))) (get_run fuel r i tick' sc' pc'))"

definition try_get_task :: "nat \<Rightarrow> nat \<Rightarrow> uint32 \<Rightarrow> scheduler
    \<Rightarrow> (handle option \<times> nat \<times> uint32 \<times> scheduler) res option" where
  "try_get_task r i tick sc = get_run (length (sc_local sc) + 6) r i tick sc GetTick"

section \<open>Well-formed schedulers\<close>

text \<open>
  Every local deque represents the tasks in it and has \<open>b\<close> more operations within its index
  range; no null handle is queued.
\<close>

definition sc_ok :: "nat \<Rightarrow> scheduler \<Rightarrow> bool" where
  "sc_ok b sc \<longleftrightarrow>
     (\<forall>lq\<in>set (sc_local sc). ws_rep kWorkStealingQueueSize b (ws_tasks lq) lq) \<and>
     None \<notin> set (gq_queue (sc_global sc))"

definition sc_tasks :: "scheduler \<Rightarrow> handle multiset" where
  "sc_tasks sc =
     mset (map the (gq_queue (sc_global sc))) + sum_list (map (\<lambda>lq. mset (ws_tasks lq)) (sc_local sc))"

lemma single_bit_local: "has_single_bit kWorkStealingQueueSize"
  unfolding has_single_bit_def kWorkStealingQueueSize_def by (rule exI [of _ 8]) simp

lemma sc_ok_new: "b < index_limit \<Longrightarrow> sc_ok b (scheduler_new n)"
  using ws_rep_new [OF single_bit_local, of b] ws_tasks_rep
  by (fastforce simp: sc_ok_def scheduler_new_def gq_new_def)

lemma sc_ok_nth:
  "sc_ok b sc \<Longrightarrow> i < length (sc_local sc) \<Longrightarrow>
   ws_rep kWorkStealingQueueSize b (ws_tasks (sc_local sc ! i)) (sc_local sc ! i)"
  by (simp add: sc_ok_def)

lemma sc_ok_mono: "sc_ok b sc \<Longrightarrow> b' \<le> b \<Longrightarrow> sc_ok b' sc"
  by (auto simp: sc_ok_def intro: ws_rep_mono)

lemma sc_ok_head:
  "sc_ok b sc \<Longrightarrow> gq_queue (sc_global sc) \<noteq> [] \<Longrightarrow> \<exists>h g. gq_queue (sc_global sc) = Some h # g"
  unfolding sc_ok_def by (metis list.exhaust list.set_intros(1) not_None_eq)

lemma sc_ok_update:
  assumes "sc_ok (Suc b) sc" "ws_rep kWorkStealingQueueSize b ts lq"
  shows "sc_ok b (sc\<lparr>sc_local := (sc_local sc)[i := lq]\<rparr>)"
proof -
  have "ws_rep kWorkStealingQueueSize b (ws_tasks lq) lq" using assms(2) ws_tasks_rep by metis
  moreover have "sc_ok b sc" using assms(1) sc_ok_mono by simp
  ultimately show ?thesis
    using set_update_subset_insert [of "sc_local sc" i lq] by (auto simp: sc_ok_def)
qed

lemma sum_list_update_comm:
  "i < length xs \<Longrightarrow> f (xs ! i) + sum_list (map f (xs[i := x])) = f x + sum_list (map f xs)"
  for f :: "'a \<Rightarrow> 'b :: comm_monoid_add"
proof (induction xs arbitrary: i)
  case (Cons a xs)
  show ?case
  proof (cases i)
    case 0
    then show ?thesis by (simp add: ac_simps)
  next
    case (Suc j)
    then show ?thesis using Cons by simp (metis add.left_commute)
  qed
qed simp

lemma sum_list_map_zero: "\<forall>x\<in>set xs. f x = (0 :: 'b :: comm_monoid_add) \<Longrightarrow> sum_list (map f xs) = 0"
  by (induction xs) auto

lemma sc_tasks_local:
  assumes "i < length (sc_local sc)" "mset (ws_tasks (sc_local sc ! i)) = mset (ws_tasks lq) + m"
  shows "sc_tasks sc = sc_tasks (sc\<lparr>sc_local := (sc_local sc)[i := lq]\<rparr>) + m"
  using sum_list_update_comm [OF assms(1), of "\<lambda>lq. mset (ws_tasks lq)" lq] assms(2)
  by (simp add: sc_tasks_def ac_simps) 

lemma sc_tasks_global:
  "gq_queue gq = gq_queue (sc_global sc) \<Longrightarrow> sc_tasks (sc\<lparr>sc_global := gq\<rparr>) = sc_tasks sc"
  by (simp add: sc_tasks_def)

section \<open>Enqueue and try\_get\_task run alone\<close>

lemma ws_approx_local:
  assumes "ws_rep kWorkStealingQueueSize b ts lq"
  shows "ws_approx_size lq = Inr (of_nat (length ts))"
    and "1 < (of_nat (length ts) :: size_t) \<longleftrightarrow> 1 < length ts"
proof -
  show "ws_approx_size lq = Inr (of_nat (length ts))" using assms by (rule ws_approx_size_rep)
  have "length ts < index_limit" using assms by (auto simp: ws_rep_def)
  then show "1 < (of_nat (length ts) :: size_t) \<longleftrightarrow> 1 < length ts"
    by (simp only: word_less_nat_alt unat_of_nat_limit) simp
qed

lemma enqueue_run_numeral:
  "enqueue_run 3 i sc pc = enqueue_run (Suc (Suc (Suc 0))) i sc pc"
  by (simp add: numeral_3_eq_3)

lemma Enqueue_local:
  assumes ok: "sc_ok (Suc b) sc" and i: "i < length (sc_local sc)"
    and room: "length (ws_tasks (sc_local sc ! i)) < unat kWorkStealingQueueSize"
  shows "\<exists>lq gq wake. Enqueue (Some i) (Some h) sc =
             Some (Inr (wake, sc\<lparr>sc_local := (sc_local sc)[i := lq], sc_global := gq\<rparr>))
           \<and> ws_rep kWorkStealingQueueSize b (ws_tasks (sc_local sc ! i) @ [h]) lq
           \<and> gq_queue gq = gq_queue (sc_global sc)
           \<and> wake = (if ws_tasks (sc_local sc ! i) \<noteq> [] \<and> 0 < gq_idle_threads (sc_global sc) then 1 else 0)"
proof -
  let ?ts = "ws_tasks (sc_local sc ! i)"
  obtain lq where lq: "ws_push (Some h) (sc_local sc ! i) = (True, lq)"
    "ws_rep kWorkStealingQueueSize b (?ts @ [h]) lq"
    using ws_push_rep [OF sc_ok_nth [OF ok i], of h] room by auto
  have size: "ws_approx_size lq = Inr (of_nat (Suc (length ?ts)))"
    "1 < (of_nat (Suc (length ?ts)) :: size_t) \<longleftrightarrow> ?ts \<noteq> []"
    using ws_approx_local [OF lq(2)] by (simp_all del: of_nat_Suc)
  show ?thesis
  proof (cases "?ts = []")
    case True
    then have "Enqueue (Some i) (Some h) sc = Some (Inr (0, sc\<lparr>sc_local := (sc_local sc)[i := lq]\<rparr>))"
      using lq size i by (simp add: Enqueue_def enqueue_entry_def enqueue_run_numeral del: of_nat_Suc)
    then show ?thesis using lq(2) True
      by (intro exI [of _ lq] exI [of _ "sc_global sc"] exI [of _ 0]) simp
  next
    case False
    have "Enqueue (Some i) (Some h) sc =
        Some (Inr (fst (gq_notify_one_idle (sc_global sc)),
             sc\<lparr>sc_local := (sc_local sc)[i := lq], sc_global := snd (gq_notify_one_idle (sc_global sc))\<rparr>))"
      using lq size i False
      by (simp add: Enqueue_def enqueue_entry_def enqueue_run_numeral case_prod_unfold Let_def del: of_nat_Suc)
    then show ?thesis using lq(2) False
      by (intro exI [of _ lq] exI [of _ "snd (gq_notify_one_idle (sc_global sc))"]
            exI [of _ "fst (gq_notify_one_idle (sc_global sc))"]) (simp add: gq_simps)
  qed
qed

lemma Enqueue_full:
  assumes ok: "sc_ok (Suc b) sc" and i: "i < length (sc_local sc)"
    and full: "\<not> length (ws_tasks (sc_local sc ! i)) < unat kWorkStealingQueueSize"
  shows "Enqueue (Some i) (Some h) sc =
           Some (Inr (fst (gq_push (Some h) (sc_global sc)),
                      sc\<lparr>sc_global := snd (gq_push (Some h) (sc_global sc))\<rparr>))"
proof -
  let ?lq = "sc_local sc ! i"
  have "\<exists>q'. ws_push (Some h) ?lq = (False, q')"
    using ws_push_rep [OF sc_ok_nth [OF ok i], of h] full by auto
  then have "ws_push (Some h) ?lq = (False, ?lq)"
    by (auto simp: ws_push_def push_run_eq split: if_splits)
  then show ?thesis
    by (simp add: Enqueue_def enqueue_entry_def enqueue_run_numeral case_prod_unfold Let_def)
qed

text \<open>
  C28. \<^verbatim>\<open>Enqueue\<close> called by worker \<open>i\<close> always returns without a fault and adds the task to the
  scheduler's tasks, leaving all others in place: at the newest end of the worker's own deque
  while that has room, else at the end of the global queue. The number of idle workers notified
  is one exactly when a worker is idle and the task went to the global queue or joined other
  tasks in the local deque.
\<close>

theorem Enqueue_adds_task:
  assumes "sc_ok (Suc b) sc" "i < length (sc_local sc)"
  shows "\<exists>wake sc'. Enqueue (Some i) (Some h) sc = Some (Inr (wake, sc')) \<and> sc_ok b sc'
       \<and> sc_tasks sc' = sc_tasks sc + {#h#}
       \<and> (wake = 1 \<longleftrightarrow> 0 < gq_idle_threads (sc_global sc) \<and> ws_tasks (sc_local sc ! i) \<noteq> [])
       \<and> (if length (ws_tasks (sc_local sc ! i)) < unat kWorkStealingQueueSize
          then ws_tasks (sc_local sc' ! i) = ws_tasks (sc_local sc ! i) @ [h]
               \<and> gq_queue (sc_global sc') = gq_queue (sc_global sc)
          else gq_queue (sc_global sc') = gq_queue (sc_global sc) @ [Some h])"
proof (cases "length (ws_tasks (sc_local sc ! i)) < unat kWorkStealingQueueSize")
  case True
  obtain lq gq wake where r: "Enqueue (Some i) (Some h) sc =
             Some (Inr (wake, sc\<lparr>sc_local := (sc_local sc)[i := lq], sc_global := gq\<rparr>))"
    "ws_rep kWorkStealingQueueSize b (ws_tasks (sc_local sc ! i) @ [h]) lq"
    "gq_queue gq = gq_queue (sc_global sc)"
    "wake = (if ws_tasks (sc_local sc ! i) \<noteq> [] \<and> 0 < gq_idle_threads (sc_global sc) then 1 else 0)"
    using Enqueue_local [OF assms True] by blast
  let ?sc1 = "sc\<lparr>sc_local := (sc_local sc)[i := lq]\<rparr>"
  have tasks: "ws_tasks lq = ws_tasks (sc_local sc ! i) @ [h]" using ws_tasks_rep [OF r(2)] .
  have "sc_ok b (?sc1\<lparr>sc_global := gq\<rparr>)"
    using sc_ok_update [OF assms(1) r(2), of i] r(3) by (simp add: sc_ok_def)
  moreover have "sc_tasks ?sc1 = sc_tasks sc + {#h#}"
    using sc_tasks_local [of i ?sc1 "sc_local sc ! i" "{#h#}"] assms(2) tasks by simp
  then have "sc_tasks (?sc1\<lparr>sc_global := gq\<rparr>) = sc_tasks sc + {#h#}"
    using sc_tasks_global [of gq ?sc1] r(3) by simp
  ultimately show ?thesis using r(1,3,4) tasks True assms(2) by auto
next
  case False
  have "ws_tasks (sc_local sc ! i) \<noteq> []"
    using False has_single_bit_pos [OF single_bit_local] by auto
  moreover have "sc_ok b sc" using assms(1) sc_ok_mono by simp
  ultimately show ?thesis
    using Enqueue_full [OF assms False] False by (auto simp: gq_simps sc_ok_def sc_tasks_def)
qed

theorem Enqueue_adds_task_witness:
  "\<exists>wake sc'. Enqueue (Some 1) (Some 9) (scheduler_new 2) = Some (Inr (wake, sc'))
     \<and> sc_tasks sc' = {#9#}"
proof -
  have "sc_ok (Suc 0) (scheduler_new 2)" by (rule sc_ok_new) simp
  moreover have "1 < length (sc_local (scheduler_new 2))" by (simp add: scheduler_new_def)
  moreover have "sc_tasks (scheduler_new 2) = {#}"
    by (simp add: sc_tasks_def scheduler_new_def gq_new_def ws_tasks_def ws_new_def eval_nat_numeral)
  ultimately show ?thesis using Enqueue_adds_task [of 0 "scheduler_new 2" 1 9] by auto
qed

subsection \<open>The search for a task\<close>

lemma map_sum_same [simp]: "map_sum id (\<lambda>x. x) = (\<lambda>a. a)"
proof
  show "map_sum id (\<lambda>x. x) a = a" for a :: "'a + 'b" by (cases a) auto
qed

lemma GetLocal_step:
  assumes ok: "sc_ok (Suc b) sc" and i: "i < length (sc_local sc)"
  shows "if ws_tasks (sc_local sc ! i) = []
         then get_step r a i tick sc GetLocal = Inr (0, tick, sc, GetGlobal)
         else \<exists>lq. get_step r a i tick sc GetLocal =
                Inr (0, tick, sc\<lparr>sc_local := (sc_local sc)[i := lq]\<rparr>,
                     GetRet (Some (last (ws_tasks (sc_local sc ! i)))))
              \<and> ws_rep kWorkStealingQueueSize b (butlast (ws_tasks (sc_local sc ! i))) lq"
proof (cases "ws_tasks (sc_local sc ! i) = []")
  case True
  then have "ws_pop (sc_local sc ! i) = ((kEmpty, None), sc_local sc ! i)"
    using ws_pop_empty_rep(1) sc_ok_nth [OF ok i] by fastforce
  then show ?thesis using True by simp
next
  case False
  then show ?thesis
    using ws_pop_last_rep [of _ b "butlast (ws_tasks (sc_local sc ! i))" "last (ws_tasks (sc_local sc ! i))"]
      sc_ok_nth [OF ok i] by fastforce
qed

lemma GetSteal_victim:
  assumes ok: "sc_ok (Suc b) sc" and v: "v < length (sc_local sc)" "v \<noteq> i" "k < length (sc_local sc)"
  shows "if ws_tasks (sc_local sc ! v) = []
         then get_step r False i tick sc (GetSteal v k) =
                Inr (0, tick, sc, GetSteal ((v + 1) mod length (sc_local sc)) (Suc k))
         else \<exists>lq. get_step r False i tick sc (GetSteal v k) =
                Inr (0, tick, sc\<lparr>sc_local := (sc_local sc)[v := lq]\<rparr>,
                     GetSize v (Some (hd (ws_tasks (sc_local sc ! v)))))
              \<and> ws_rep kWorkStealingQueueSize b (tl (ws_tasks (sc_local sc ! v))) lq"
proof (cases "ws_tasks (sc_local sc ! v)")
  case Nil
  then have "ws_steal (sc_local sc ! v) = ((kEmpty, None), sc_local sc ! v)"
    using ws_steal_empty_rep sc_ok_nth [OF ok v(1)] by fastforce
  then show ?thesis using Nil v by (simp add: Let_def)
next
  case (Cons h ts)
  then show ?thesis
    using ws_steal_rep [OF sc_ok_nth [OF ok v(1)]] v by (auto simp: Let_def)
qed

text \<open>What is left to do after a successful steal: two steps that leave the tasks alone.\<close>

lemma get_run_size:
  assumes "v < length (sc_local sc)" "ws_rep kWorkStealingQueueSize b ts (sc_local sc ! v)"
  shows "\<exists>wake gq. get_run (Suc (Suc fuel)) r i tick sc (GetSize v t) =
             Some (Inr (t, wake, tick, sc\<lparr>sc_global := gq\<rparr>))
           \<and> gq_queue gq = gq_queue (sc_global sc)"
proof (cases "1 < length ts")
  case True
  then show ?thesis
    using ws_approx_local [OF assms(2)]
    by (intro exI [of _ "fst (gq_notify_one_idle (sc_global sc))"]
          exI [of _ "snd (gq_notify_one_idle (sc_global sc))"])
       (simp add: case_prod_unfold Let_def gq_simps)
next
  case False
  then have "get_run (Suc (Suc fuel)) r i tick sc (GetSize v t) =
      Some (Inr (t, 0, tick, sc\<lparr>sc_global := sc_global sc\<rparr>))"
    using ws_approx_local [OF assms(2)] by simp
  then show ?thesis by blast
qed

lemma get_run_steal:
  assumes "sc_ok (Suc b) sc" "0 < n" "n = length (sc_local sc)" "v < n" "k \<le> n" "n - k + 3 \<le> fuel"
  shows "((\<forall>j<n - k. (v + j) mod n \<noteq> i \<longrightarrow> ws_tasks (sc_local sc ! ((v + j) mod n)) = [])
            \<and> get_run fuel r i tick sc (GetSteal v k) = Some (Inr (None, 0, tick, sc)))
       \<or> (\<exists>w lq gq wake. w < n \<and> w \<noteq> i \<and> ws_tasks (sc_local sc ! w) \<noteq> []
            \<and> get_run fuel r i tick sc (GetSteal v k) =
                Some (Inr (Some (hd (ws_tasks (sc_local sc ! w))), wake, tick,
                           sc\<lparr>sc_local := (sc_local sc)[w := lq], sc_global := gq\<rparr>))
            \<and> ws_rep kWorkStealingQueueSize b (tl (ws_tasks (sc_local sc ! w))) lq
            \<and> gq_queue gq = gq_queue (sc_global sc))"
  using assms(4-6)
proof (induction "n - k" arbitrary: k v fuel)
  case 0
  then obtain f where "fuel = Suc (Suc f)" using that [of "fuel - 2"] by simp
  then show ?case using 0 assms(3) by (simp add: Let_def)
next
  case (Suc m)
  then obtain f where f: "fuel = Suc f" "n - Suc k + 3 \<le> f" "m = n - Suc k"
    by (cases fuel) auto
  have k: "k < length (sc_local sc)" using Suc assms(3) by simp
  show ?case
  proof (cases "v = i \<or> ws_tasks (sc_local sc ! v) = []")
    case True
    have step: "get_step r False i tick sc (GetSteal v k) =
        Inr (0, tick, sc, GetSteal ((v + 1) mod n) (Suc k))"
      using GetSteal_victim [OF assms(1), of v i k r tick] True Suc.prems(1) k assms(3)
      by (cases "v = i") (auto simp: Let_def)
    have run: "get_run fuel r i tick sc (GetSteal v k) = get_run f r i tick sc (GetSteal ((v + 1) mod n) (Suc k))"
      using step f(1) by (cases "get_run f r i tick sc (GetSteal ((v + 1) mod n) (Suc k))")
        (auto simp: case_prod_unfold)
    have shift: "((v + 1) mod n + j) mod n = (v + Suc j) mod n" for j by (simp add: mod_simps)
    have less: "(v + 1) mod n < n" "Suc k \<le> n" using assms(2) k assms(3) by auto
    have first: "ws_tasks (sc_local sc ! ((v + j) mod n)) = []"
      if "\<forall>j<m. (v + Suc j) mod n \<noteq> i \<longrightarrow> ws_tasks (sc_local sc ! ((v + Suc j) mod n)) = []"
        "j < n - k" "(v + j) mod n \<noteq> i" for j
      using that True Suc.prems(1) Suc.hyps(2) by (cases j) auto
    show ?thesis
      using Suc.hyps(1) [OF f(3) less(1) less(2) f(2)] first run f(3) unfolding shift by auto
  next
    case False
    obtain lq where lq: "get_step r False i tick sc (GetSteal v k) =
        Inr (0, tick, sc\<lparr>sc_local := (sc_local sc)[v := lq]\<rparr>, GetSize v (Some (hd (ws_tasks (sc_local sc ! v)))))"
      "ws_rep kWorkStealingQueueSize b (tl (ws_tasks (sc_local sc ! v))) lq"
      using GetSteal_victim [OF assms(1), of v i k r tick] False Suc.prems(1) k assms(3) by auto
    obtain f' where f': "f = Suc (Suc f')" using f(2) that [of "f - 2"] by simp
    show ?thesis
      using get_run_size [of v "sc\<lparr>sc_local := (sc_local sc)[v := lq]\<rparr>" b _ f' r i tick] lq False Suc.prems(1)
        assms(3) f(1) f' by fastforce
  qed
qed

text \<open>The local deque and the global queue have nothing: the search goes round the victims.\<close>

lemma get_run_search:
  assumes ok: "sc_ok (Suc b) sc" and i: "i < length (sc_local sc)"
    and fuel: "length (sc_local sc) + 5 \<le> fuel"
  shows "\<exists>t wake sc'. get_run fuel r i tick sc GetLocal = Some (Inr (t, wake, tick, sc')) \<and> sc_ok b sc'
       \<and> sc_tasks sc = sc_tasks sc' + (case t of None \<Rightarrow> {#} | Some h \<Rightarrow> {#h#})
       \<and> (t = None \<longrightarrow> sc_tasks sc = {#})
       \<and> (ws_tasks (sc_local sc ! i) \<noteq> [] \<longrightarrow> t = Some (last (ws_tasks (sc_local sc ! i))))
       \<and> (ws_tasks (sc_local sc ! i) = [] \<and> gq_queue (sc_global sc) \<noteq> [] \<longrightarrow> t = hd (gq_queue (sc_global sc)))"
proof -
  let ?n = "length (sc_local sc)" let ?own = "ws_tasks (sc_local sc ! i)" let ?g = "gq_queue (sc_global sc)"
  obtain f where f: "fuel = Suc (Suc f)" "?n + 3 \<le> f"
    using fuel that [of "fuel - 2"] by simp
  have okb: "sc_ok b sc" using ok sc_ok_mono by simp
  show ?thesis
  proof (cases "?own = []")
    case False
    obtain lq where lq: "get_step r False i tick sc GetLocal =
        Inr (0, tick, sc\<lparr>sc_local := (sc_local sc)[i := lq]\<rparr>, GetRet (Some (last ?own)))"
      "ws_rep kWorkStealingQueueSize b (butlast ?own) lq"
      using GetLocal_step [OF ok i, of r False tick] False by auto
    have m: "mset ?own = mset (ws_tasks lq) + {#last ?own#}"
      using ws_tasks_rep [OF lq(2)] False by (metis append_butlast_last_id mset.simps mset_append)
    show ?thesis
      using lq f False sc_ok_update [OF ok lq(2), of i] sc_tasks_local [OF i m] by simp
  next
    case own: True
    have step: "get_step r False i tick sc GetLocal = Inr (0, tick, sc, GetGlobal)"
      using GetLocal_step [OF ok i, of r False tick] own by auto
    show ?thesis
    proof (cases "?g = []")
      case False
      then obtain h g' where g: "?g = Some h # g'"
        using sc_ok_head [OF ok] by blast
      then show ?thesis
        using step f own okb by (auto simp: gq_try_pop_def sc_ok_def sc_tasks_def)
    next
      case True
      then have run: "get_run fuel r i tick sc GetLocal = get_run f r i tick sc (GetSteal (r mod ?n) 0)"
        using step f by (auto simp: gq_try_pop_def case_prod_unfold option.map_ident)
      have n: "0 < ?n" "r mod ?n < ?n" using i by (auto intro!: mod_less_divisor)
      have all: "(r mod ?n + (w + ?n - r mod ?n)) mod ?n = w" if "w < ?n" for w
      proof -
        have "r mod ?n + (w + ?n - r mod ?n) = w + ?n" using n(2) by linarith
        then show ?thesis using that by simp
      qed
      consider "\<forall>j<?n - 0. (r mod ?n + j) mod ?n \<noteq> i \<longrightarrow> ws_tasks (sc_local sc ! ((r mod ?n + j) mod ?n)) = []"
          "get_run f r i tick sc (GetSteal (r mod ?n) 0) = Some (Inr (None, 0, tick, sc))"
        | w lq gq wake where "w < ?n" "w \<noteq> i" "ws_tasks (sc_local sc ! w) \<noteq> []"
            "get_run f r i tick sc (GetSteal (r mod ?n) 0) =
                Some (Inr (Some (hd (ws_tasks (sc_local sc ! w))), wake, tick,
                           sc\<lparr>sc_local := (sc_local sc)[w := lq], sc_global := gq\<rparr>))"
            "ws_rep kWorkStealingQueueSize b (tl (ws_tasks (sc_local sc ! w))) lq"
            "gq_queue gq = ?g"
        using get_run_steal [OF ok n(1) refl n(2) _ , of 0 f i r tick] f(2) by auto
      then show ?thesis
      proof cases
        case 1
        have "ws_tasks (sc_local sc ! w) = []" if w: "w < ?n" for w
        proof (cases "w = i")
          case False
          have "(w + ?n - r mod ?n) mod ?n < ?n" using n by simp
          moreover have "(r mod ?n + (w + ?n - r mod ?n) mod ?n) mod ?n = w"
            using all [OF w] by (simp add: mod_simps)
          ultimately show ?thesis using 1(1) False by (metis minus_nat.diff_0)
        qed (use own in simp)
        then have "\<forall>lq\<in>set (sc_local sc). mset (ws_tasks lq) = {#}" by (auto simp: in_set_conv_nth)
        then have "sc_tasks sc = {#}" using True by (simp add: sc_tasks_def sum_list_map_zero)
        then show ?thesis using run 1(2) okb own True by auto
      next
        case 2
        have m: "mset (ws_tasks (sc_local sc ! w)) = mset (ws_tasks lq) + {#hd (ws_tasks (sc_local sc ! w))#}"
          using ws_tasks_rep [OF 2(5)] 2(3) by (cases "ws_tasks (sc_local sc ! w)") auto
        let ?sc1 = "sc\<lparr>sc_local := (sc_local sc)[w := lq]\<rparr>"
        have "sc_ok b (?sc1\<lparr>sc_global := gq\<rparr>)"
          using sc_ok_update [OF ok 2(5), of w] 2(6) by (simp add: sc_ok_def)
        moreover have "sc_tasks sc = sc_tasks (?sc1\<lparr>sc_global := gq\<rparr>) + {#hd (ws_tasks (sc_local sc ! w))#}"
          using sc_tasks_local [OF 2(1) m] sc_tasks_global [of gq ?sc1] 2(6) by simp
        ultimately show ?thesis using run 2(4) own True by auto
      qed
    qed
  qed
qed

text \<open>
  C18. \<^verbatim>\<open>try_get_task\<close> run by worker \<open>i\<close> of a scheduler nobody else is using always returns, without
  a fault. It finds a task whenever there is one in the global queue or in any worker's deque,
  removes exactly that task, and returns null only when there is none. Every 61st call takes the
  oldest task of the global queue if it has one; otherwise the worker's own newest task comes
  first, then the global queue's oldest.
\<close>

theorem try_get_task_complete:
  assumes "sc_ok (Suc b) sc" "i < length (sc_local sc)"
  shows "\<exists>t wake sc'. try_get_task r i tick sc = Some (Inr (t, wake, tick + 1, sc')) \<and> sc_ok b sc'
       \<and> sc_tasks sc = sc_tasks sc' + (case t of None \<Rightarrow> {#} | Some h \<Rightarrow> {#h#})
       \<and> (t = None \<longrightarrow> sc_tasks sc = {#})
       \<and> (if (tick + 1) mod 61 = 0 \<and> gq_queue (sc_global sc) \<noteq> [] then t = hd (gq_queue (sc_global sc))
          else if ws_tasks (sc_local sc ! i) \<noteq> [] then t = Some (last (ws_tasks (sc_local sc ! i)))
          else gq_queue (sc_global sc) \<noteq> [] \<longrightarrow> t = hd (gq_queue (sc_global sc)))"
proof -
  let ?g = "gq_queue (sc_global sc)"
  obtain f where f: "length (sc_local sc) + 6 = Suc f" "length (sc_local sc) + 5 \<le> f" by simp
  show ?thesis
  proof (cases "(tick + 1) mod 61 = 0 \<and> ?g \<noteq> []")
    case True
    then obtain h g' where g: "?g = Some h # g'" using sc_ok_head [OF assms(1)] by blast
    have "sc_ok b sc" using assms(1) sc_ok_mono by simp
    then show ?thesis
      using True g unfolding try_get_task_def f(1) by (auto simp: gq_try_pop_def sc_ok_def sc_tasks_def)
  next
    case False
    then have "try_get_task r i tick sc = get_run f r i (tick + 1) sc GetLocal"
      unfolding try_get_task_def f(1)
      by (cases "(tick + 1) mod 61 = 0") (auto simp: gq_try_pop_def case_prod_unfold option.map_ident Let_def)
    then show ?thesis using get_run_search [OF assms f(2), of r "tick + 1"] False by auto
  qed
qed

text \<open>Worker 1 finds the task that worker 0 has queued locally.\<close>

definition sc_one_task :: scheduler where
  "sc_one_task =
     (scheduler_new 2)\<lparr>sc_local := [snd (ws_push (Some 9) (ws_new kWorkStealingQueueSize)),
                                    ws_new kWorkStealingQueueSize]\<rparr>"

theorem try_get_task_complete_witness:
  "\<exists>wake sc'. try_get_task 4 1 0 sc_one_task = Some (Inr (Some 9, wake, 1, sc')) \<and> sc_tasks sc' = {#}"
proof -
  let ?q = "ws_new kWorkStealingQueueSize"
  have rep0: "ws_rep kWorkStealingQueueSize (Suc (Suc 0)) [] ?q" by (rule ws_rep_new [OF single_bit_local]) simp
  have "\<exists>q'. ws_push (Some 9) ?q = (True, q') \<and> ws_rep kWorkStealingQueueSize (Suc 0) [9] q'"
    using ws_push_rep [OF rep0, of 9] has_single_bit_pos [OF single_bit_local] by simp
  then obtain q' where q': "ws_push (Some 9) ?q = (True, q')" "ws_rep kWorkStealingQueueSize (Suc 0) [9] q'"
    by blast
  have tasks: "ws_tasks q' = [9]" "ws_tasks ?q = []" using ws_tasks_rep q'(2) rep0 by auto
  have sc: "sc_local sc_one_task = [q', ?q]" "gq_queue (sc_global sc_one_task) = []"
    using q'(1) by (simp_all add: sc_one_task_def scheduler_new_def gq_new_def)
  have "sc_ok (Suc 0) sc_one_task"
    using q'(2) ws_rep_mono [OF rep0, of "Suc 0"] tasks by (simp add: sc_ok_def sc)
  moreover have "sc_tasks sc_one_task = {#9#}" by (simp add: sc_tasks_def sc tasks)
  ultimately show ?thesis
    using try_get_task_complete [of 0 sc_one_task 1 4 0]
    by (auto simp: sc split: option.splits)
qed

end
