(* ===== verification/Scheduler_Threads.thy ===== *)
theory Scheduler_Threads
  imports Actor_Scheduler Schedules
begin

text \<open>
  The worker threads of \<^verbatim>\<open>ActorScheduler\<close> running together: \<^verbatim>\<open>scheduler_thread\<close> of
  \<^verbatim>\<open>actor_scheduler.cc\<close>, one queue operation or critical section per step, with other threads
  enqueueing and shutting down at any moment. A thread that sleeps on the condition variable is
  woken by a notification or spuriously. The local deques are used one operation at a time here;
  that their operations may be taken as atomic is shown in theory \<open>Work_Stealing_Concurrent\<close>.
\<close>

section \<open>The threads\<close>

text \<open>
  Where a worker is: testing \<^verbatim>\<open>is_running\<close>; searching for a task, before or after it has announced
  that it will park (with the epoch it observed); asleep inside \<^verbatim>\<open>park\<close>; woken inside \<^verbatim>\<open>park\<close>; about
  to resume a task; running the coroutine; inside an \<^verbatim>\<open>Enqueue\<close> the coroutine has called; ended.
\<close>

datatype worker_pc =
    WLoop
  | WGet1 get_pc
  | WGet2 size_t get_pc
  | WWait size_t
  | WNotified size_t
  | WResume handle
  | WBody
  | WEnq enqueue_pc
  | WExit

text \<open>
  The scheduler with its threads, the \<^verbatim>\<open>notify_one\<close> and \<^verbatim>\<open>notify_all\<close> calls that are still to come
  from threads that have left their critical section, and two records: the tasks enqueued and the
  tasks some worker has taken.
\<close>

record thr_sys =
  th_sc :: scheduler
  th_pc :: "nat \<Rightarrow> worker_pc"
  th_tick :: "nat \<Rightarrow> uint32"
  th_notify :: nat
  th_notify_all :: bool
  th_in :: "handle list"
  th_taken :: "handle list"

definition thr_start :: "nat \<Rightarrow> thr_sys" where
  "thr_start n =
     \<lparr>th_sc = scheduler_new n, th_pc = (\<lambda>_. WLoop), th_tick = (\<lambda>_. 0), th_notify = 0,
      th_notify_all = False, th_in = [], th_taken = []\<rparr>"

definition set_pc :: "nat \<Rightarrow> worker_pc \<Rightarrow> thr_sys \<Rightarrow> thr_sys" where
  "set_pc i pc s = s\<lparr>th_pc := (th_pc s)(i := pc)\<rparr>"

definition set_global :: "global_queue \<Rightarrow> thr_sys \<Rightarrow> thr_sys" where
  "set_global gq s = s\<lparr>th_sc := (th_sc s)\<lparr>sc_global := gq\<rparr>\<rparr>"

text \<open>The task a step of the search has just taken.\<close>

fun got :: "get_pc \<Rightarrow> handle list" where
  "got (GetSize v (Some h)) = [h]"
| "got (GetNotify (Some h)) = [h]"
| "got (GetRet (Some h)) = [h]"
| "got _ = []"

definition newly_got :: "get_pc \<Rightarrow> get_pc \<Rightarrow> handle list" where
  "newly_got pc pc' = (if got pc = [] then got pc' else [])"

definition search_step :: "nat \<Rightarrow> bool \<Rightarrow> nat \<Rightarrow> (get_pc \<Rightarrow> worker_pc) \<Rightarrow> get_pc \<Rightarrow> thr_sys \<Rightarrow> thr_sys res" where
  "search_step r abort i wrap pc s =
     res_bind (get_step r abort i (th_tick s i) (th_sc s) pc)
       (\<lambda>(wake, tick, sc, pc').
          Inr (s\<lparr>th_sc := sc, th_pc := (th_pc s)(i := wrap pc'), th_tick := (th_tick s)(i := tick),
                 th_notify := th_notify s + wake, th_taken := th_taken s @ newly_got pc pc'\<rparr>))"

text \<open>Inside \<^verbatim>\<open>park\<close>, with the lock held: evaluate the predicate, leave or go to sleep.\<close>

definition park_check :: "nat \<Rightarrow> size_t \<Rightarrow> thr_sys \<Rightarrow> thr_sys" where
  "park_check i e s =
     (if gq_park_pred e (sc_global (th_sc s))
      then set_pc i WLoop (set_global (gq_park_leave (sc_global (th_sc s))) s)
      else set_pc i (WWait e) s)"

fun enqueued :: "enqueue_pc \<Rightarrow> enqueue_pc \<Rightarrow> handle list" where
  "enqueued (EnqLocal (Some h)) EnqSize = [h]"
| "enqueued (EnqGlobal (Some h)) EnqDone = [h]"
| "enqueued _ _ = []"

definition body_enqueue_step :: "nat \<Rightarrow> enqueue_pc \<Rightarrow> thr_sys \<Rightarrow> thr_sys res" where
  "body_enqueue_step i pc s =
     res_bind (enqueue_step i (th_sc s) pc)
       (\<lambda>(wake, sc, pc').
          Inr (s\<lparr>th_sc := sc, th_pc := (th_pc s)(i := WEnq pc'),
                 th_notify := th_notify s + wake, th_in := th_in s @ enqueued pc pc'\<rparr>))"

text \<open>
  One step of worker \<open>i\<close>. \<open>flag\<close> is the outcome of what the model leaves open: a steal losing its
  race, or \<^verbatim>\<open>task.done()\<close>.
\<close>

fun worker_step :: "nat \<Rightarrow> bool \<Rightarrow> nat \<Rightarrow> thr_sys \<Rightarrow> worker_pc \<Rightarrow> thr_sys res" where
  "worker_step r flag i s WLoop =
     Inr (set_pc i (if sc_running (th_sc s) then WGet1 GetTick else WExit) s)"
| "worker_step r flag i s (WGet1 (GetRet (Some h))) = Inr (set_pc i (WResume h) s)"
| "worker_step r flag i s (WGet1 (GetRet None)) =
     (let (e, gq) = gq_prepare_park (sc_global (th_sc s))
      in Inr (set_pc i (WGet2 e GetTick) (set_global gq s)))"
| "worker_step r flag i s (WGet1 pc) = search_step r flag i WGet1 pc s"
| "worker_step r flag i s (WGet2 e (GetRet (Some h))) =
     Inr (set_pc i (WResume h) (set_global (gq_cancel_park (sc_global (th_sc s))) s))"
| "worker_step r flag i s (WGet2 e (GetRet None)) = Inr (park_check i e s)"
| "worker_step r flag i s (WGet2 e pc) = search_step r flag i (WGet2 e) pc s"
| "worker_step r flag i s (WWait e) = Inr s"
| "worker_step r flag i s (WNotified e) = Inr (park_check i e s)"
| "worker_step r flag i s (WResume h) = Inr (set_pc i (if flag then WLoop else WBody) s)"
| "worker_step r flag i s WBody = Inr s"
| "worker_step r flag i s (WEnq EnqDone) = Inr (set_pc i WBody s)"
| "worker_step r flag i s (WEnq pc) = body_enqueue_step i pc s"
| "worker_step r flag i s WExit = Inr s"

text \<open>
  What can happen: a worker steps; the coroutine a worker runs calls \<^verbatim>\<open>Enqueue\<close> or gives control back; a
  thread that is no worker enqueues a task or a batch (a vector, so its length fits \<^verbatim>\<open>size_t\<close>); a
  pending \<^verbatim>\<open>notify_one\<close> is delivered (to \<open>w\<close>, when \<open>w\<close> sleeps; to nobody, when nobody does); a sleeping
  worker wakes spuriously; \<^verbatim>\<open>Shutdown\<close> clears \<^verbatim>\<open>running_\<close>, stops the global queue, notifies all.
\<close>

datatype thr_action =
    WorkerStep nat nat bool
  | BodyEnqueue nat handle
  | BodyReturn nat
  | ExtEnqueue handle
  | ExtBatch "handle list"
  | NotifyOne nat
  | SpuriousWake nat
  | ShutdownStore
  | ShutdownStop
  | NotifyAll

definition n_workers :: "thr_sys \<Rightarrow> nat" where
  "n_workers s = length (sc_local (th_sc s))"

fun is_wait :: "worker_pc \<Rightarrow> bool" where
  "is_wait (WWait e) = True"
| "is_wait _ = False"

fun wake_pc :: "worker_pc \<Rightarrow> worker_pc" where
  "wake_pc (WWait e) = WNotified e"
| "wake_pc pc = pc"

definition wake_worker :: "nat \<Rightarrow> thr_sys \<Rightarrow> thr_sys" where
  "wake_worker w s = set_pc w (wake_pc (th_pc s w)) s"

fun thr_act :: "thr_action \<Rightarrow> thr_sys \<Rightarrow> thr_sys res" where
  "thr_act (WorkerStep i r flag) s =
     (if i < n_workers s then worker_step r flag i s (th_pc s i) else Inr s)"
| "thr_act (BodyEnqueue i h) s =
     Inr (if i < n_workers s \<and> th_pc s i = WBody
          then set_pc i (WEnq (enqueue_entry (Some i) (Some h))) s else s)"
| "thr_act (BodyReturn i) s =
     Inr (if i < n_workers s \<and> th_pc s i = WBody then set_pc i WLoop s else s)"
| "thr_act (ExtEnqueue h) s =
     (let (wake, gq) = gq_push (Some h) (sc_global (th_sc s))
      in Inr ((set_global gq s)\<lparr>th_notify := th_notify s + wake, th_in := th_in s @ [h]\<rparr>))"
| "thr_act (ExtBatch hs) s =
     (if length hs < 2 ^ 64
      then let (wake, sc) = EnqueueBatch (map Some hs) (th_sc s)
           in Inr (s\<lparr>th_sc := sc, th_notify := th_notify s + wake, th_in := th_in s @ hs\<rparr>)
      else Inr s)"
| "thr_act (NotifyOne w) s =
     Inr (if th_notify s = 0 then s
          else if w < n_workers s \<and> is_wait (th_pc s w)
          then (wake_worker w s)\<lparr>th_notify := th_notify s - 1\<rparr>
          else if list_ex (\<lambda>i. is_wait (th_pc s i)) [0..<n_workers s] then s
          else s\<lparr>th_notify := th_notify s - 1\<rparr>)"
| "thr_act (SpuriousWake w) s = Inr (if w < n_workers s then wake_worker w s else s)"
| "thr_act ShutdownStore s = Inr (s\<lparr>th_sc := shutdown_store (th_sc s)\<rparr>)"
| "thr_act ShutdownStop s =
     (let (wake_all, sc) = shutdown_stop (th_sc s)
      in Inr (s\<lparr>th_sc := sc, th_notify_all := th_notify_all s \<or> wake_all\<rparr>))"
| "thr_act NotifyAll s =
     Inr (if th_notify_all s
          then s\<lparr>th_pc := (\<lambda>i. wake_pc (th_pc s i)), th_notify_all := False\<rparr> else s)"

fun thr_run :: "thr_action list \<Rightarrow> thr_sys \<Rightarrow> thr_sys res" where
  "thr_run [] s = Inr s"
| "thr_run (a # acts) s = res_bind (thr_act a s) (thr_run acts)"

interpretation threads: faulting_schedules thr_act thr_run
  by unfold_locales simp_all

section \<open>The parking protocol\<close>

fun parked :: "worker_pc \<Rightarrow> bool" where
  "parked (WGet2 e pc) = True"
| "parked (WWait e) = True"
| "parked (WNotified e) = True"
| "parked _ = False"

fun observed :: "worker_pc \<Rightarrow> size_t option" where
  "observed (WGet2 e pc) = Some e"
| "observed (WWait e) = Some e"
| "observed (WNotified e) = Some e"
| "observed _ = None"

text \<open>The epoch of a worker that has found the global queue empty since it announced to park.\<close>

fun seen_empty :: "worker_pc \<Rightarrow> size_t option" where
  "seen_empty (WGet2 e (GetSteal v k)) = Some e"
| "seen_empty (WGet2 e (GetRet None)) = Some e"
| "seen_empty (WWait e) = Some e"
| "seen_empty (WNotified e) = Some e"
| "seen_empty _ = None"

definition count_parked :: "nat \<Rightarrow> (nat \<Rightarrow> worker_pc) \<Rightarrow> nat" where
  "count_parked n pcs = card {i. i < n \<and> parked (pcs i)}"

definition park_inv :: "nat \<Rightarrow> nat \<Rightarrow> global_queue \<Rightarrow> (nat \<Rightarrow> worker_pc) \<Rightarrow> nat \<Rightarrow> bool \<Rightarrow> bool" where
  "park_inv n c gq pcs pend all \<longleftrightarrow>
     unat (gq_idle_threads gq) = count_parked n pcs \<and> unat (gq_wake_epoch gq) \<le> c \<and>
     (\<forall>i<n. \<forall>e. observed (pcs i) = Some e \<longrightarrow> unat e \<le> unat (gq_wake_epoch gq)) \<and>
     (\<forall>i<n. \<forall>e. seen_empty (pcs i) = Some e \<longrightarrow> gq_queue gq = [] \<or> e \<noteq> gq_wake_epoch gq) \<and>
     ((\<forall>i<n. is_wait (pcs i)) \<longrightarrow> gq_queue gq = [] \<or> 0 < pend) \<and>
     (gq_stop_flag gq \<and> \<not> all \<longrightarrow> (\<forall>i<n. \<not> is_wait (pcs i)))"

lemma seen_observed: "seen_empty pc = Some e \<Longrightarrow> observed pc = Some e"
  by (cases pc rule: seen_empty.cases) auto

lemma observed_parked: "observed pc = Some e \<Longrightarrow> parked pc"
  by (cases pc) auto

lemma wait_parked: "is_wait pc \<Longrightarrow> parked pc"
  by (cases pc) auto

lemma count_parked_pos: "i < n \<Longrightarrow> parked (pcs i) \<Longrightarrow> 0 < count_parked n pcs"
  unfolding count_parked_def by (subst card_gt_0_iff) auto

lemma count_parked_le: "count_parked n pcs \<le> n"
  unfolding count_parked_def by (rule order.trans [OF card_mono [of "{..<n}"]]) auto

lemma count_parked_same:
  "parked pc = parked (pcs i) \<Longrightarrow> count_parked n (pcs(i := pc)) = count_parked n pcs"
  unfolding count_parked_def by (rule arg_cong [of _ _ card]) auto

lemma count_parked_add:
  assumes "i < n" "\<not> parked (pcs i)" "parked pc"
  shows "count_parked n (pcs(i := pc)) = Suc (count_parked n pcs)"
proof -
  have "{j. j < n \<and> parked ((pcs(i := pc)) j)} = insert i {j. j < n \<and> parked (pcs j)}"
    using assms by auto
  then show ?thesis using assms by (simp add: count_parked_def)
qed

lemma count_parked_remove:
  assumes "i < n" "parked (pcs i)" "\<not> parked pc"
  shows "Suc (count_parked n (pcs(i := pc))) = count_parked n pcs"
  using count_parked_add [of i n "pcs(i := pc)" "pcs i"] assms by simp

lemma park_invD:
  assumes "park_inv n c gq pcs pend all"
  shows "unat (gq_idle_threads gq) = count_parked n pcs" "unat (gq_wake_epoch gq) \<le> c"
    "\<And>i e. i < n \<Longrightarrow> observed (pcs i) = Some e \<Longrightarrow> unat e \<le> unat (gq_wake_epoch gq)"
    "\<And>i e. i < n \<Longrightarrow> seen_empty (pcs i) = Some e \<Longrightarrow> gq_queue gq = [] \<or> e \<noteq> gq_wake_epoch gq"
    "(\<And>i. i < n \<Longrightarrow> is_wait (pcs i)) \<Longrightarrow> gq_queue gq = [] \<or> 0 < pend"
    "\<And>i. gq_stop_flag gq \<Longrightarrow> \<not> all \<Longrightarrow> i < n \<Longrightarrow> \<not> is_wait (pcs i)"
  using assms by (auto simp: park_inv_def)

lemma park_inv_mono: "park_inv n c gq pcs pend all \<Longrightarrow> c \<le> c' \<Longrightarrow> park_inv n c' gq pcs pend all"
  by (auto simp: park_inv_def)

text \<open>A worker that does not park, unpark or fall asleep moves on.\<close>

lemma park_inv_move:
  assumes inv: "park_inv n c gq pcs pend all" and i: "i < n"
    and pc: "parked pc = parked (pcs i)" "observed pc = observed (pcs i)" "\<not> is_wait pc"
    and gq: "gq_idle_threads gq' = gq_idle_threads gq" "gq_wake_epoch gq' = gq_wake_epoch gq"
      "gq_stop_flag gq' = gq_stop_flag gq" "gq_queue gq = [] \<Longrightarrow> gq_queue gq' = []"
    and seen: "\<And>e. seen_empty pc = Some e \<Longrightarrow> seen_empty (pcs i) = Some e \<or> gq_queue gq' = []"
  shows "park_inv n c gq' (pcs(i := pc)) pend all"
proof -
  have "gq_queue gq' = [] \<or> e \<noteq> gq_wake_epoch gq" if "j < n" "seen_empty ((pcs(i := pc)) j) = Some e" for j e
    using that park_invD(4) [OF inv] seen gq(4) i by (cases "j = i") auto
  then show ?thesis
    using i pc park_invD [OF inv]
    unfolding park_inv_def count_parked_same [of pc pcs i n, OF pc(1)] gq(1-3)
    by (intro conjI allI impI) (auto split: if_splits)
qed

text \<open>
  A task arrives, or an idle worker is asked to look again: the epoch moves when a worker is
  idle, and a notification is under way.
\<close>

lemma park_inv_bump:
  assumes inv: "park_inv n c gq pcs pend all" and n: "0 < n" and c: "c < index_limit"
    and gq: "gq_idle_threads gq' = gq_idle_threads gq" "gq_stop_flag gq' = gq_stop_flag gq"
      "gq_wake_epoch gq' = (if 0 < gq_idle_threads gq then gq_wake_epoch gq + 1 else gq_wake_epoch gq)"
    and pend: "0 < gq_idle_threads gq \<Longrightarrow> pend < pend'"
  shows "park_inv n (Suc c) gq' pcs pend' all"
proof (cases "0 < gq_idle_threads gq")
  case True
  have up: "unat (gq_wake_epoch gq + 1) = Suc (unat (gq_wake_epoch gq))"
    using park_invD(2) [OF inv] c by (intro unat_plus_one) simp
  have "e \<noteq> gq_wake_epoch gq + 1" if "i < n" "seen_empty (pcs i) = Some e" for i e
    using park_invD(3) [OF inv that(1) seen_observed [OF that(2)]] up by auto
  then show ?thesis
    using park_invD [OF inv] True up pend unfolding park_inv_def gq by (auto simp: le_SucI)
next
  case False
  then have "count_parked n pcs = 0" using park_invD(1) [OF inv] by (simp add: word_less_nat_alt)
  then have none: "\<not> parked (pcs i)" if "i < n" for i using count_parked_pos [of i n pcs] that by auto
  then have "seen_empty (pcs i) = None" "\<not> is_wait (pcs i)" if "i < n" for i
    using that seen_observed observed_parked wait_parked by (metis option.exhaust)+
  then show ?thesis
    using park_invD [OF inv] False n unfolding park_inv_def gq by auto
qed

lemma park_inv_stop:
  assumes inv: "park_inv n c gq pcs pend all" and c: "c < index_limit"
  shows "park_inv n (Suc c) (snd (gq_stop gq)) pcs pend (all \<or> fst (gq_stop gq))"
proof (cases "gq_stop_flag gq")
  case True
  then show ?thesis using park_inv_mono [OF inv, of "Suc c"] by (simp add: gq_stop_def)
next
  case False
  have up: "unat (gq_wake_epoch gq + 1) = Suc (unat (gq_wake_epoch gq))"
    using park_invD(2) [OF inv] c by (intro unat_plus_one) simp
  have "e \<noteq> gq_wake_epoch gq + 1" if "i < n" "seen_empty (pcs i) = Some e" for i e
    using park_invD(3) [OF inv that(1) seen_observed [OF that(2)]] up by auto
  then show ?thesis
    using park_invD [OF inv] False up unfolding park_inv_def gq_stop_def by (auto simp: le_SucI)
qed

lemma park_inv_prepare:
  assumes inv: "park_inv n c gq pcs pend all" and i: "i < n" and n: "n < 2 ^ 32"
    and pc: "\<not> parked (pcs i)"
  shows "park_inv n c (snd (gq_prepare_park gq)) (pcs(i := WGet2 (fst (gq_prepare_park gq)) GetTick)) pend all"
proof -
  have "unat (gq_idle_threads gq) < index_limit"
    using park_invD(1) [OF inv] count_parked_le [of n pcs] n by simp
  then have "unat (gq_idle_threads gq + 1) = Suc (count_parked n pcs)"
    using park_invD(1) [OF inv] unat_plus_one by simp
  then show ?thesis
    using park_invD [OF inv] count_parked_add [OF i, of pcs "WGet2 (gq_wake_epoch gq) GetTick"] pc i
    unfolding park_inv_def gq_prepare_park_def by auto
qed

lemma park_inv_leave:
  assumes inv: "park_inv n c gq pcs pend all" and i: "i < n"
    and pc: "parked (pcs i)" "\<not> parked pc'"
    and gq': "gq' = gq\<lparr>gq_idle_threads := gq_idle_threads gq - 1\<rparr>"
  shows "park_inv n c gq' (pcs(i := pc')) pend all"
proof -
  have "0 < unat (gq_idle_threads gq)" using park_invD(1) [OF inv] count_parked_pos [OF i] pc by simp
  then have "unat (gq_idle_threads gq - 1) = count_parked n pcs - 1"
    using park_invD(1) [OF inv] unat_minus_one by simp
  moreover have "\<not> is_wait pc'" "seen_empty pc' = None" "observed pc' = None"
    using pc(2) wait_parked seen_observed observed_parked by (metis option.exhaust)+
  ultimately show ?thesis
    using park_invD [OF inv] count_parked_remove [of i n pcs pc', OF i pc] i
    unfolding park_inv_def gq' by auto
qed

lemma park_inv_sleep:
  assumes inv: "park_inv n c gq pcs pend all" and i: "i < n"
    and pc: "seen_empty (pcs i) = Some e" and pred: "\<not> gq_park_pred e gq"
  shows "park_inv n c gq (pcs(i := WWait e)) pend all"
proof -
  have eq: "e = gq_wake_epoch gq" and stop: "\<not> gq_stop_flag gq" using pred by (auto simp: gq_park_pred_def)
  then have q: "gq_queue gq = []" using park_invD(4) [OF inv i pc] by simp
  have "parked (pcs i)" using seen_observed [OF pc] observed_parked by blast
  then show ?thesis
    using park_invD [OF inv] count_parked_same [of "WWait e" pcs i n] eq stop q
    unfolding park_inv_def by auto
qed

lemma wake_pc_simps [simp]:
  "parked (wake_pc pc) = parked pc" "observed (wake_pc pc) = observed pc"
  "seen_empty (wake_pc pc) = seen_empty pc" "\<not> is_wait (wake_pc pc)"
  by (cases pc; simp)+

lemma park_inv_wake_all:
  assumes "park_inv n c gq pcs pend all" "0 < n"
  shows "park_inv n c gq (\<lambda>i. wake_pc (pcs i)) pend all'"
  using assms park_invD [OF assms(1)] unfolding park_inv_def count_parked_def by auto

lemma park_inv_wake:
  assumes inv: "park_inv n c gq pcs pend all" and w: "w < n"
  shows "park_inv n c gq (pcs(w := wake_pc (pcs w))) pend' all"
  using w park_invD [OF inv] count_parked_same [of "wake_pc (pcs w)" pcs w n]
  unfolding park_inv_def by auto

lemma park_inv_unheard:
  assumes inv: "park_inv n c gq pcs pend all" and n: "0 < n" and none: "\<And>i. i < n \<Longrightarrow> \<not> is_wait (pcs i)"
  shows "park_inv n c gq pcs pend' all"
  using n none park_invD [OF inv] unfolding park_inv_def by auto

section \<open>The search and the enqueueing, step by step\<close>

fun get_ok :: "nat \<Rightarrow> get_pc \<Rightarrow> bool" where
  "get_ok n (GetSteal v k) \<longleftrightarrow> v < n \<and> k \<le> n"
| "get_ok n (GetSize v t) \<longleftrightarrow> v < n \<and> t \<noteq> None"
| "get_ok n (GetNotify t) \<longleftrightarrow> t \<noteq> None"
| "get_ok n _ \<longleftrightarrow> True"

fun came_up_empty :: "get_pc \<Rightarrow> bool" where
  "came_up_empty (GetSteal v k) = True"
| "came_up_empty (GetRet None) = True"
| "came_up_empty _ = False"

definition gq_quiet :: "global_queue \<Rightarrow> global_queue \<Rightarrow> bool" where
  "gq_quiet gq gq' \<longleftrightarrow>
     gq_idle_threads gq' = gq_idle_threads gq \<and> gq_wake_epoch gq' = gq_wake_epoch gq \<and>
     gq_stop_flag gq' = gq_stop_flag gq \<and> (gq_queue gq = [] \<longrightarrow> gq_queue gq' = [])"

text \<open>What a step does to the deques: none that is empty gets a task.\<close>

definition locals_shrink :: "scheduler \<Rightarrow> scheduler \<Rightarrow> bool" where
  "locals_shrink sc sc' \<longleftrightarrow>
     length (sc_local sc') = length (sc_local sc) \<and> sc_running sc' = sc_running sc \<and>
     (\<forall>j<length (sc_local sc). ws_tasks (sc_local sc ! j) = [] \<longrightarrow> ws_tasks (sc_local sc' ! j) = [])"

definition get_effect :: "nat \<Rightarrow> nat \<Rightarrow> scheduler \<Rightarrow> get_pc \<Rightarrow> nat \<Rightarrow> scheduler \<Rightarrow> get_pc \<Rightarrow> bool" where
  "get_effect b i sc pc wake sc' pc' \<longleftrightarrow>
     sc_ok b sc' \<and> locals_shrink sc sc' \<and> get_ok (length (sc_local sc)) pc' \<and>
     sc_tasks sc = sc_tasks sc' + mset (newly_got pc pc') \<and>
     (pc' = GetGlobal \<longrightarrow> ws_tasks (sc_local sc' ! i) = []) \<and>
     (came_up_empty pc' \<longrightarrow> pc = GetGlobal \<or> came_up_empty pc) \<and>
     (if \<exists>t. pc = GetNotify t then (wake, sc_global sc') = gq_notify_one_idle (sc_global sc)
      else wake = 0 \<and> gq_quiet (sc_global sc) (sc_global sc') \<and>
           (pc = GetGlobal \<and> came_up_empty pc' \<longrightarrow> gq_queue (sc_global sc') = []))"

lemma locals_shrink_update:
  assumes "i < length (sc_local sc)" "ws_tasks (sc_local sc ! i) = [] \<Longrightarrow> ws_tasks lq = []"
  shows "locals_shrink sc (sc\<lparr>sc_local := (sc_local sc)[i := lq]\<rparr>)"
  using assms by (auto simp: locals_shrink_def nth_list_update)

lemma locals_shrink_refl [simp]: "locals_shrink sc sc" "locals_shrink sc (sc\<lparr>sc_global := gq\<rparr>)"
  by (auto simp: locals_shrink_def)

lemma gq_quiet_refl [simp]: "gq_quiet gq gq"
  by (simp add: gq_quiet_def)

lemma try_pop_effect:
  assumes "sc_ok (Suc b) sc"
  shows "\<exists>t gq. gq_try_pop (sc_global sc) = (t, gq) \<and> gq_quiet (sc_global sc) gq \<and>
     sc_ok b (sc\<lparr>sc_global := gq\<rparr>) \<and>
     sc_tasks sc = sc_tasks (sc\<lparr>sc_global := gq\<rparr>) + (case t of None \<Rightarrow> {#} | Some h \<Rightarrow> {#h#}) \<and>
     (t = None \<longrightarrow> gq_queue gq = [])"
proof (cases "gq_queue (sc_global sc) = []")
  case True
  then have "gq_try_pop (sc_global sc) = (None, sc_global sc)" by (simp add: gq_try_pop_def)
  then show ?thesis using True sc_ok_mono [OF assms, of b] by simp
next
  case False
  then obtain h g where g: "gq_queue (sc_global sc) = Some h # g" using sc_ok_head [OF assms] by blast
  then have "gq_try_pop (sc_global sc) = (Some h, (sc_global sc)\<lparr>gq_queue := g\<rparr>)"
    by (simp add: gq_try_pop_def)
  then show ?thesis
    using g sc_ok_mono [OF assms, of b] by (simp add: gq_quiet_def sc_ok_def sc_tasks_def)
qed

lemma get_step_tick:
  assumes "sc_ok (Suc b) sc"
  shows "\<exists>wake tick' sc' pc'. get_step r a i tick sc GetTick = Inr (wake, tick', sc', pc')
           \<and> get_effect b i sc GetTick wake sc' pc'"
proof (cases "(tick + 1) mod 61 = 0")
  case True
  obtain t gq where t: "gq_try_pop (sc_global sc) = (t, gq)" "gq_quiet (sc_global sc) gq"
    "sc_ok b (sc\<lparr>sc_global := gq\<rparr>)"
    "sc_tasks sc = sc_tasks (sc\<lparr>sc_global := gq\<rparr>) + (case t of None \<Rightarrow> {#} | Some h \<Rightarrow> {#h#})"
    using try_pop_effect [OF assms] by blast
  then show ?thesis using True
    by (cases t) (auto simp: get_effect_def Let_def newly_got_def)
next
  case False
  then show ?thesis
    using sc_ok_mono [OF assms, of b] by (simp add: get_effect_def Let_def newly_got_def)
qed

lemma get_step_local:
  assumes ok: "sc_ok (Suc b) sc" and i: "i < length (sc_local sc)"
  shows "\<exists>wake tick' sc' pc'. get_step r a i tick sc GetLocal = Inr (wake, tick', sc', pc')
           \<and> get_effect b i sc GetLocal wake sc' pc'"
proof (cases "ws_tasks (sc_local sc ! i) = []")
  case True
  have "get_step r a i tick sc GetLocal = Inr (0, tick, sc, GetGlobal)"
    using GetLocal_step [OF ok i, of r a tick] True by auto
  then show ?thesis
    using True sc_ok_mono [OF ok, of b] by (simp only: get_effect_def) (simp add: newly_got_def)
next
  case False
  obtain lq where lq: "get_step r a i tick sc GetLocal =
      Inr (0, tick, sc\<lparr>sc_local := (sc_local sc)[i := lq]\<rparr>, GetRet (Some (last (ws_tasks (sc_local sc ! i)))))"
    "ws_rep kWorkStealingQueueSize b (butlast (ws_tasks (sc_local sc ! i))) lq"
    using GetLocal_step [OF ok i, of r a tick] False by auto
  have "mset (ws_tasks (sc_local sc ! i)) = mset (ws_tasks lq) + {#last (ws_tasks (sc_local sc ! i))#}"
    using ws_tasks_rep [OF lq(2)] False by (metis append_butlast_last_id mset.simps mset_append)
  then have "get_effect b i sc GetLocal 0 (sc\<lparr>sc_local := (sc_local sc)[i := lq]\<rparr>)
      (GetRet (Some (last (ws_tasks (sc_local sc ! i)))))"
    using sc_ok_update [OF ok lq(2), of i] sc_tasks_local [OF i, of lq] locals_shrink_update [OF i] False
    by (simp add: get_effect_def newly_got_def)
  then show ?thesis using lq(1) by blast
qed

lemma get_step_global:
  assumes "sc_ok (Suc b) sc" "0 < length (sc_local sc)"
  shows "\<exists>wake tick' sc' pc'. get_step r a i tick sc GetGlobal = Inr (wake, tick', sc', pc')
           \<and> get_effect b i sc GetGlobal wake sc' pc'"
proof -
  obtain t gq where t: "gq_try_pop (sc_global sc) = (t, gq)" "gq_quiet (sc_global sc) gq"
    "sc_ok b (sc\<lparr>sc_global := gq\<rparr>)" "t = None \<longrightarrow> gq_queue gq = []"
    "sc_tasks sc = sc_tasks (sc\<lparr>sc_global := gq\<rparr>) + (case t of None \<Rightarrow> {#} | Some h \<Rightarrow> {#h#})"
    using try_pop_effect [OF assms(1)] by blast
  have "r mod length (sc_local sc) < length (sc_local sc)" using assms(2) by (rule mod_less_divisor)
  then show ?thesis using t by (cases t) (auto simp: get_effect_def newly_got_def)
qed

lemma get_step_steal:
  assumes ok: "sc_ok (Suc b) sc" and v: "v < length (sc_local sc)" "k \<le> length (sc_local sc)"
  shows "\<exists>wake tick' sc' pc'. get_step r a i tick sc (GetSteal v k) = Inr (wake, tick', sc', pc')
           \<and> get_effect b i sc (GetSteal v k) wake sc' pc'"
proof -
  let ?n = "length (sc_local sc)"
  have next_v: "(v + 1) mod ?n < ?n" using v(1) by (intro mod_less_divisor) linarith
  have quiet: "get_effect b i sc (GetSteal v k) 0 sc pc'"
    if "pc' = GetRet None \<or> (k < ?n \<and> pc' = GetSteal ((v + 1) mod ?n) (Suc k))" for pc'
    using that sc_ok_mono [OF ok, of b] next_v by (auto simp: get_effect_def newly_got_def)
  show ?thesis
  proof (cases "k < ?n \<and> v \<noteq> i \<and> \<not> a")
    case False
    then have "get_step r a i tick sc (GetSteal v k) =
        Inr (0, tick, sc, if k = ?n then GetRet None else GetSteal ((v + 1) mod ?n) (Suc k))"
      using v(2) by (auto simp: Let_def)
    moreover have "get_effect b i sc (GetSteal v k) 0 sc
        (if k = ?n then GetRet None else GetSteal ((v + 1) mod ?n) (Suc k))"
      using quiet v(2) by auto
    ultimately show ?thesis by blast
  next
    case True
    then have a: "a = False" by simp
    show ?thesis
    proof (cases "ws_tasks (sc_local sc ! v) = []")
      case empty: True
      have "get_step r a i tick sc (GetSteal v k) = Inr (0, tick, sc, GetSteal ((v + 1) mod ?n) (Suc k))"
        using GetSteal_victim [OF ok v(1), of i k r tick] True empty unfolding a by auto
      then show ?thesis using quiet True by blast
    next
      case False
      obtain lq where lq: "get_step r a i tick sc (GetSteal v k) =
          Inr (0, tick, sc\<lparr>sc_local := (sc_local sc)[v := lq]\<rparr>, GetSize v (Some (hd (ws_tasks (sc_local sc ! v)))))"
        "ws_rep kWorkStealingQueueSize b (tl (ws_tasks (sc_local sc ! v))) lq"
        using GetSteal_victim [OF ok v(1), of i k r tick] True False unfolding a by auto
      have "mset (ws_tasks (sc_local sc ! v)) = mset (ws_tasks lq) + {#hd (ws_tasks (sc_local sc ! v))#}"
        using ws_tasks_rep [OF lq(2)] False by (cases "ws_tasks (sc_local sc ! v)") auto
      then have "get_effect b i sc (GetSteal v k) 0 (sc\<lparr>sc_local := (sc_local sc)[v := lq]\<rparr>)
          (GetSize v (Some (hd (ws_tasks (sc_local sc ! v)))))"
        using sc_ok_update [OF ok lq(2), of v] sc_tasks_local [OF v(1), of lq] locals_shrink_update [OF v(1)]
          False v(1)
        by (simp add: get_effect_def newly_got_def)
      then show ?thesis using lq(1) by blast
    qed
  qed
qed

lemma get_step_effect:
  assumes ok: "sc_ok (Suc b) sc" and i: "i < length (sc_local sc)" and pc: "get_ok (length (sc_local sc)) pc"
  shows "\<exists>wake tick' sc' pc'. get_step r a i tick sc pc = Inr (wake, tick', sc', pc')
           \<and> get_effect b i sc pc wake sc' pc'"
proof (cases pc)
  case (GetSize v t)
  then have v: "v < length (sc_local sc)" "t \<noteq> None" using pc by auto
  obtain sz where "ws_approx_size (sc_local sc ! v) = Inr sz"
    using ws_approx_local(1) [OF sc_ok_nth [OF ok v(1)]] by blast
  then show ?thesis
    using GetSize v sc_ok_mono [OF ok, of b] by (auto simp: get_effect_def newly_got_def)
next
  case (GetNotify t)
  then obtain h where h: "t = Some h" using pc by auto
  have q: "gq_queue (snd (gq_notify_one_idle (sc_global sc))) = gq_queue (sc_global sc)" by (simp add: gq_simps)
  then have "sc_ok b (sc\<lparr>sc_global := snd (gq_notify_one_idle (sc_global sc))\<rparr>)"
    using sc_ok_mono [OF ok, of b] by (simp add: sc_ok_def)
  then show ?thesis
    using GetNotify h sc_tasks_global [OF q] by (auto simp: get_effect_def newly_got_def case_prod_unfold Let_def)
next
  case (GetRet t)
  then show ?thesis using sc_ok_mono [OF ok, of b] by (cases t) (auto simp: get_effect_def newly_got_def)
next
  case GetTick
  then show ?thesis using get_step_tick [OF ok] by simp
next
  case GetLocal
  then show ?thesis using get_step_local [OF ok i] by simp
next
  case GetGlobal
  then show ?thesis using get_step_global [OF ok] i by (metis gr_implies_not0 neq0_conv)
next
  case (GetSteal v k)
  then show ?thesis using get_step_steal [OF ok] pc by simp
qed

fun enq_ok :: "enqueue_pc \<Rightarrow> bool" where
  "enq_ok (EnqLocal h) \<longleftrightarrow> h \<noteq> None"
| "enq_ok (EnqGlobal h) \<longleftrightarrow> h \<noteq> None"
| "enq_ok _ \<longleftrightarrow> True"

definition enq_effect :: "nat \<Rightarrow> nat \<Rightarrow> scheduler \<Rightarrow> enqueue_pc \<Rightarrow> nat \<Rightarrow> scheduler \<Rightarrow> enqueue_pc \<Rightarrow> bool" where
  "enq_effect b i sc pc wake sc' pc' \<longleftrightarrow>
     sc_ok b sc' \<and> enq_ok pc' \<and> length (sc_local sc') = length (sc_local sc) \<and>
     sc_running sc' = sc_running sc \<and> sc_tasks sc' = sc_tasks sc + mset (enqueued pc pc') \<and>
     (\<forall>j. j \<noteq> i \<longrightarrow> sc_local sc' ! j = sc_local sc ! j) \<and>
     gq_idle_threads (sc_global sc') = gq_idle_threads (sc_global sc) \<and>
     gq_stop_flag (sc_global sc') = gq_stop_flag (sc_global sc) \<and>
     (if pc = EnqNotify \<or> (\<exists>h. pc = EnqGlobal h)
      then gq_wake_epoch (sc_global sc') =
             (if 0 < gq_idle_threads (sc_global sc) then gq_wake_epoch (sc_global sc) + 1
              else gq_wake_epoch (sc_global sc)) \<and>
           (0 < gq_idle_threads (sc_global sc) \<longrightarrow> 0 < wake)
      else wake = 0 \<and> sc_global sc' = sc_global sc)"

lemma enqueue_local_effect:
  assumes ok: "sc_ok (Suc b) sc" and i: "i < length (sc_local sc)"
  shows "\<exists>wake sc' pc'. enqueue_step i sc (EnqLocal (Some h)) = Inr (wake, sc', pc')
           \<and> enq_effect b i sc (EnqLocal (Some h)) wake sc' pc'"
proof -
  let ?ts = "ws_tasks (sc_local sc ! i)" let ?room = "length ?ts < unat kWorkStealingQueueSize"
  obtain lq where lq: "ws_push (Some h) (sc_local sc ! i) = (?room, lq)"
    "ws_rep kWorkStealingQueueSize b (if ?room then ?ts @ [h] else ?ts) lq"
    using ws_push_rep [OF sc_ok_nth [OF ok i], of h] by auto
  have "mset (ws_tasks lq) = mset ?ts + mset (if ?room then [h] else [])"
    using ws_tasks_rep [OF lq(2)] by simp
  then have "sc_tasks (sc\<lparr>sc_local := (sc_local sc)[i := lq]\<rparr>) = sc_tasks sc + mset (if ?room then [h] else [])"
    using sc_tasks_local [of i "sc\<lparr>sc_local := (sc_local sc)[i := lq]\<rparr>" "sc_local sc ! i"] i by simp
  then show ?thesis
    using lq(1) sc_ok_update [OF ok lq(2), of i] by (simp add: enq_effect_def)
qed

lemma enqueue_step_effect:
  assumes ok: "sc_ok (Suc b) sc" and i: "i < length (sc_local sc)" and pc: "enq_ok pc"
  shows "\<exists>wake sc' pc'. enqueue_step i sc pc = Inr (wake, sc', pc') \<and> enq_effect b i sc pc wake sc' pc'"
proof (cases pc)
  case (EnqLocal h)
  then show ?thesis using enqueue_local_effect [OF ok i] pc by auto
next
  case EnqSize
  obtain sz where "ws_approx_size (sc_local sc ! i) = Inr sz"
    using ws_approx_local(1) [OF sc_ok_nth [OF ok i]] by blast
  then show ?thesis using EnqSize sc_ok_mono [OF ok, of b] by (simp add: enq_effect_def)
next
  case EnqNotify
  have "sc_ok b (sc\<lparr>sc_global := snd (gq_notify_one_idle (sc_global sc))\<rparr>)"
    using sc_ok_mono [OF ok, of b] by (simp add: sc_ok_def gq_simps)
  then show ?thesis
    using EnqNotify by (simp add: enq_effect_def case_prod_unfold Let_def sc_tasks_def gq_simps)
next
  case (EnqGlobal h)
  then obtain h' where h: "h = Some h'" using pc by auto
  have "sc_ok b (sc\<lparr>sc_global := snd (gq_push h (sc_global sc))\<rparr>)"
    using sc_ok_mono [OF ok, of b] h by (simp add: sc_ok_def gq_simps)
  moreover have "sc_tasks (sc\<lparr>sc_global := snd (gq_push h (sc_global sc))\<rparr>) = sc_tasks sc + {#h'#}"
    using h by (simp add: sc_tasks_def gq_simps)
  ultimately have "enq_effect b i sc (EnqGlobal h) (fst (gq_push h (sc_global sc)))
      (sc\<lparr>sc_global := snd (gq_push h (sc_global sc))\<rparr>) EnqDone"
    using h by (simp add: enq_effect_def gq_simps)
  then show ?thesis using EnqGlobal by (simp add: case_prod_unfold Let_def)
next
  case EnqDone
  then show ?thesis using sc_ok_mono [OF ok, of b] by (simp add: enq_effect_def)
qed

section \<open>The invariant of the threads\<close>

fun own_empty :: "worker_pc \<Rightarrow> bool" where
  "own_empty (WGet2 e GetGlobal) = True"
| "own_empty (WGet2 e pc) = came_up_empty pc"
| "own_empty (WWait e) = True"
| "own_empty (WNotified e) = True"
| "own_empty _ = False"

fun pc_ok :: "nat \<Rightarrow> worker_pc \<Rightarrow> bool" where
  "pc_ok n (WGet1 pc) = get_ok n pc"
| "pc_ok n (WGet2 e pc) = get_ok n pc"
| "pc_ok n (WEnq pc) = enq_ok pc"
| "pc_ok n _ = True"

definition work_inv :: "nat \<Rightarrow> nat \<Rightarrow> thr_sys \<Rightarrow> bool" where
  "work_inv n b s \<longleftrightarrow>
     n_workers s = n \<and> sc_ok b (th_sc s) \<and>
     (\<forall>i<n. pc_ok n (th_pc s i) \<and> (own_empty (th_pc s i) \<longrightarrow> ws_tasks (sc_local (th_sc s) ! i) = [])) \<and>
     mset (th_in s) = mset (th_taken s) + sc_tasks (th_sc s)"

definition thr_inv :: "nat \<Rightarrow> nat \<Rightarrow> thr_sys \<Rightarrow> bool" where
  "thr_inv n c s \<longleftrightarrow>
     c < index_limit \<and> work_inv n (index_limit - 1 - c) s \<and>
     park_inv n c (sc_global (th_sc s)) (th_pc s) (th_notify s) (th_notify_all s)"

lemma thr_inv_start: "thr_inv n 0 (thr_start n)"
proof -
  have "\<forall>lq\<in>set (sc_local (scheduler_new n)). mset (ws_tasks lq) = {#}"
    by (simp add: scheduler_new_def ws_tasks_def ws_new_def)
  then have "sc_tasks (scheduler_new n) = {#}"
    using sum_list_map_zero [of "sc_local (scheduler_new n)" "\<lambda>lq. mset (ws_tasks lq)"]
    by (simp add: sc_tasks_def) (simp add: scheduler_new_def gq_new_def)
  moreover have "sc_ok (index_limit - 1) (scheduler_new n)" by (rule sc_ok_new) simp
  ultimately have "work_inv n (index_limit - 1 - 0) (thr_start n)"
    by (simp add: work_inv_def thr_start_def n_workers_def) (simp add: scheduler_new_def)
  moreover have "park_inv n 0 (sc_global (scheduler_new n)) (\<lambda>_. WLoop) 0 False"
    by (auto simp: park_inv_def scheduler_new_def gq_new_def count_parked_def)
  ultimately show ?thesis by (simp add: thr_inv_def thr_start_def)
qed

lemma thr_inv_budget:
  assumes "thr_inv n c s" "Suc c < index_limit"
  shows "\<exists>b. work_inv n (Suc b) s \<and> b = index_limit - 1 - Suc c"
proof -
  have eq: "index_limit - 1 - c = Suc (index_limit - 1 - Suc c)" using assms(2) by linarith
  have "work_inv n (index_limit - 1 - c) s" using assms(1) unfolding thr_inv_def by blast
  then show ?thesis unfolding eq by blast
qed

lemma work_inv_mono: "work_inv n b s \<Longrightarrow> b' \<le> b \<Longrightarrow> work_inv n b' s"
  by (auto simp: work_inv_def intro: sc_ok_mono)

lemma came_up_seen: "came_up_empty pc \<Longrightarrow> seen_empty (WGet2 e pc) = Some e"
  by (cases pc rule: came_up_empty.cases) auto

lemma seen_came_up: "seen_empty (WGet2 e pc) = Some e' \<Longrightarrow> came_up_empty pc \<and> e' = e"
  by (cases "WGet2 e pc" rule: seen_empty.cases) auto

lemma own_empty_came_up: "own_empty (WGet2 e pc) \<longleftrightarrow> pc = GetGlobal \<or> came_up_empty pc"
  by (cases pc) auto

lemma work_inv_step:
  assumes inv: "work_inv n (Suc b) s" and i: "i < n"
    and sc: "sc_ok b (th_sc s')" "length (sc_local (th_sc s')) = n"
    and pcs: "th_pc s' = (th_pc s)(i := pc)" "pc_ok n pc"
    and own: "own_empty pc \<Longrightarrow> ws_tasks (sc_local (th_sc s') ! i) = []"
    and others: "\<And>j. j < n \<Longrightarrow> j \<noteq> i \<Longrightarrow> ws_tasks (sc_local (th_sc s) ! j) = [] \<Longrightarrow>
                   ws_tasks (sc_local (th_sc s') ! j) = []"
    and tasks: "mset (th_in s') = mset (th_taken s') + sc_tasks (th_sc s')"
  shows "work_inv n b s'"
  using assms by (auto simp: work_inv_def n_workers_def)

text \<open>A step that leaves the tasks where they are.\<close>

lemma work_inv_still:
  assumes inv: "work_inv n (Suc b) s" and i: "i < n"
    and sc: "sc_local (th_sc s') = sc_local (th_sc s)" "gq_queue (sc_global (th_sc s')) = gq_queue (sc_global (th_sc s))"
    and pcs: "th_pc s' = (th_pc s)(i := pc)" "pc_ok n pc" "own_empty pc \<Longrightarrow> own_empty (th_pc s i)"
    and ghost: "th_in s' = th_in s" "th_taken s' = th_taken s"
  shows "work_inv n b s'"
proof -
  have "sc_ok (Suc b) (th_sc s)" using inv by (simp add: work_inv_def)
  then have "sc_ok b (th_sc s')" using sc_ok_mono [of "Suc b" "th_sc s" b] sc by (simp add: sc_ok_def)
  moreover have "sc_tasks (th_sc s') = sc_tasks (th_sc s)" using sc by (simp add: sc_tasks_def)
  ultimately show ?thesis
    using inv i sc(1) pcs ghost by (auto simp: work_inv_def n_workers_def)
qed

lemma search_step_inv:
  assumes inv: "thr_inv n c s" and c: "Suc c < index_limit" and i: "i < n" and pc: "th_pc s i = wrap pc"
    and wrap: "wrap = WGet1 \<or> wrap = WGet2 e"
  shows "\<exists>s'. search_step r a i wrap pc s = Inr s' \<and> thr_inv n (Suc c) s'"
proof -
  obtain b where w: "work_inv n (Suc b) s" and b: "b = index_limit - 1 - Suc c"
    using thr_inv_budget [OF inv c] by blast
  have p: "park_inv n c (sc_global (th_sc s)) (th_pc s) (th_notify s) (th_notify_all s)"
    using inv by (simp add: thr_inv_def)
  have n: "length (sc_local (th_sc s)) = n" and ok: "sc_ok (Suc b) (th_sc s)" and gok: "get_ok n pc"
    and tasks: "mset (th_in s) = mset (th_taken s) + sc_tasks (th_sc s)"
    and own: "own_empty (th_pc s i) \<Longrightarrow> ws_tasks (sc_local (th_sc s) ! i) = []"
    using w i pc wrap by (auto simp: work_inv_def n_workers_def)
  obtain wake tick sc' pc' where st: "get_step r a i (th_tick s i) (th_sc s) pc = Inr (wake, tick, sc', pc')"
    and eff: "get_effect b i (th_sc s) pc wake sc' pc'"
    using get_step_effect [OF ok, of i pc r a "th_tick s i"] i n gok by auto
  define s' where "s' = s\<lparr>th_sc := sc', th_pc := (th_pc s)(i := wrap pc'), th_tick := (th_tick s)(i := tick),
                 th_notify := th_notify s + wake, th_taken := th_taken s @ newly_got pc pc'\<rparr>"
  have run: "search_step r a i wrap pc s = Inr s'" by (simp add: search_step_def st s'_def)
  have shrink: "locals_shrink (th_sc s) sc'" using eff by (simp add: get_effect_def)
  have "own_empty (wrap pc') \<Longrightarrow> ws_tasks (sc_local sc' ! i) = []"
    using eff wrap own shrink i n pc own_empty_came_up
    by (auto simp: get_effect_def locals_shrink_def)
  then have work: "work_inv n b s'"
    using eff shrink wrap n tasks
    by (intro work_inv_step [OF w i, of s' "wrap pc'"])
      (auto simp: s'_def get_effect_def locals_shrink_def)
  have "park_inv n (Suc c) (sc_global sc') ((th_pc s)(i := wrap pc')) (th_notify s + wake) (th_notify_all s)"
  proof (cases "\<exists>t. pc = GetNotify t")
    case True
    then have gq: "sc_global sc' = snd (gq_notify_one_idle (sc_global (th_sc s)))"
      "wake = fst (gq_notify_one_idle (sc_global (th_sc s)))" "\<not> came_up_empty pc'"
      using eff by (auto simp: get_effect_def prod_eq_iff)
    have bump: "park_inv n (Suc c) (sc_global sc') (th_pc s) (th_notify s + wake) (th_notify_all s)"
      using c i by (intro park_inv_bump [OF p]) (auto simp: gq gq_simps)
    show ?thesis
      using wrap pc gq(3) seen_came_up by (intro park_inv_move [OF bump i]) (auto dest: seen_came_up)
  next
    case False
    then have gq: "gq_quiet (sc_global (th_sc s)) (sc_global sc')" "wake = 0"
      "came_up_empty pc' \<Longrightarrow> came_up_empty pc \<or> gq_queue (sc_global sc') = []"
      using eff by (auto simp: get_effect_def)
    have "park_inv n c (sc_global sc') ((th_pc s)(i := wrap pc')) (th_notify s + wake) (th_notify_all s)"
    proof (rule park_inv_move [of n c "sc_global (th_sc s)"])
      fix e' assume "seen_empty (wrap pc') = Some e'"
      then have "wrap = WGet2 e' \<and> came_up_empty pc'" using wrap seen_came_up by fastforce
      then show "seen_empty (th_pc s i) = Some e' \<or> gq_queue (sc_global sc') = []"
        using gq(3) pc came_up_seen by metis
    qed (use wrap pc gq(1,2) p i in \<open>auto simp: gq_quiet_def\<close>)
    then show ?thesis by (rule park_inv_mono) simp
  qed
  then have "thr_inv n (Suc c) s'" using work c unfolding thr_inv_def b s'_def by simp
  then show ?thesis using run by blast
qed

lemma body_enqueue_step_inv:
  assumes inv: "thr_inv n c s" and c: "Suc c < index_limit" and i: "i < n" and pc: "th_pc s i = WEnq pc"
  shows "\<exists>s'. body_enqueue_step i pc s = Inr s' \<and> thr_inv n (Suc c) s'"
proof -
  obtain b where w: "work_inv n (Suc b) s" and b: "b = index_limit - 1 - Suc c"
    using thr_inv_budget [OF inv c] by blast
  have p: "park_inv n c (sc_global (th_sc s)) (th_pc s) (th_notify s) (th_notify_all s)"
    using inv by (simp add: thr_inv_def)
  have n: "length (sc_local (th_sc s)) = n" and ok: "sc_ok (Suc b) (th_sc s)" and eok: "enq_ok pc"
    and tasks: "mset (th_in s) = mset (th_taken s) + sc_tasks (th_sc s)"
    using w i assms(4) by (auto simp: work_inv_def n_workers_def)
  obtain wake sc' pc' where st: "enqueue_step i (th_sc s) pc = Inr (wake, sc', pc')"
    and eff: "enq_effect b i (th_sc s) pc wake sc' pc'"
    using enqueue_step_effect [OF ok, of i pc] i n eok by auto
  define s' where "s' = s\<lparr>th_sc := sc', th_pc := (th_pc s)(i := WEnq pc'),
                 th_notify := th_notify s + wake, th_in := th_in s @ enqueued pc pc'\<rparr>"
  have run: "body_enqueue_step i pc s = Inr s'" by (simp add: body_enqueue_step_def st s'_def)
  have work: "work_inv n b s'"
    using eff n tasks by (intro work_inv_step [OF w i, of s' "WEnq pc'"]) (auto simp: s'_def enq_effect_def)
  have "park_inv n (Suc c) (sc_global sc') (th_pc s) (th_notify s + wake) (th_notify_all s)"
  proof (cases "pc = EnqNotify \<or> (\<exists>h. pc = EnqGlobal h)")
    case True
    then show ?thesis using eff i c by (intro park_inv_bump [OF p]) (auto simp: enq_effect_def)
  next
    case False
    then have "sc_global sc' = sc_global (th_sc s)" "wake = 0" using eff by (auto simp: enq_effect_def)
    then show ?thesis using park_inv_mono [OF p, of "Suc c"] by simp
  qed
  then have "park_inv n (Suc c) (sc_global sc') ((th_pc s)(i := WEnq pc')) (th_notify s + wake) (th_notify_all s)"
    using assms(4) by (intro park_inv_move [OF _ i]) auto
  then have "thr_inv n (Suc c) s'" using work c unfolding thr_inv_def b s'_def by simp
  then show ?thesis using run by blast
qed

lemma thr_inv_still:
  assumes inv: "thr_inv n c s" and c: "Suc c < index_limit" and i: "i < n"
    and sc: "sc_local (th_sc s') = sc_local (th_sc s)" "gq_queue (sc_global (th_sc s')) = gq_queue (sc_global (th_sc s))"
    and pcs: "th_pc s' = (th_pc s)(i := pc)" "pc_ok n pc" "own_empty pc \<Longrightarrow> own_empty (th_pc s i)"
    and ghost: "th_in s' = th_in s" "th_taken s' = th_taken s"
    and park: "park_inv n c (sc_global (th_sc s')) (th_pc s') (th_notify s') (th_notify_all s')"
  shows "thr_inv n (Suc c) s'"
proof -
  obtain b where "work_inv n (Suc b) s" and b: "b = index_limit - 1 - Suc c"
    using thr_inv_budget [OF inv c] by blast
  then have "work_inv n b s'" using work_inv_still [OF _ i sc pcs ghost] by blast
  then show ?thesis using c park_inv_mono [OF park, of "Suc c"] unfolding thr_inv_def b by simp
qed

lemma thr_inv_park:
  "thr_inv n c s \<Longrightarrow> park_inv n c (sc_global (th_sc s)) (th_pc s) (th_notify s) (th_notify_all s)"
  by (simp add: thr_inv_def)

text \<open>A worker outside the search and outside \<^verbatim>\<open>park\<close> goes to another such place.\<close>

lemma thr_inv_goto:
  assumes inv: "thr_inv n c s" and c: "Suc c < index_limit" and i: "i < n"
    and old: "\<not> parked (th_pc s i)" and new: "\<not> parked pc" "\<not> own_empty pc" "pc_ok n pc"
  shows "thr_inv n (Suc c) (set_pc i pc s)"
proof -
  have none: "observed pc' = None" "seen_empty pc' = None" "\<not> is_wait pc'" if "\<not> parked pc'" for pc'
    using that seen_observed observed_parked wait_parked by (metis option.exhaust)+
  have "park_inv n c (sc_global (th_sc s)) ((th_pc s)(i := pc)) (th_notify s) (th_notify_all s)"
    using none old new by (intro park_inv_move [OF thr_inv_park [OF inv] i]) auto
  then show ?thesis
    using new by (intro thr_inv_still [OF inv c i, of _ pc]) (auto simp: set_pc_def)
qed

lemma park_check_inv:
  assumes inv: "thr_inv n c s" and c: "Suc c < index_limit" and i: "i < n"
    and seen: "seen_empty (th_pc s i) = Some e" and own: "own_empty (th_pc s i)"
  shows "thr_inv n (Suc c) (park_check i e s)"
proof -
  note p = thr_inv_park [OF inv]
  have "parked (th_pc s i)" using seen_observed [OF seen] observed_parked by blast
  then have "park_inv n c (gq_park_leave (sc_global (th_sc s))) ((th_pc s)(i := WLoop)) (th_notify s) (th_notify_all s)"
    by (intro park_inv_leave [OF p i]) (simp_all add: gq_park_leave_def)
  then have leave: "thr_inv n (Suc c) (set_pc i WLoop (set_global (gq_park_leave (sc_global (th_sc s))) s))"
    by (intro thr_inv_still [OF inv c i, of _ WLoop]) (simp_all add: set_pc_def set_global_def gq_park_leave_def)
  have "thr_inv n (Suc c) (set_pc i (WWait e) s)" if "\<not> gq_park_pred e (sc_global (th_sc s))"
    using park_inv_sleep [OF p i seen that] own
    by (intro thr_inv_still [OF inv c i, of _ "WWait e"]) (simp_all add: set_pc_def)
  then show ?thesis using leave by (simp add: park_check_def)
qed

lemma worker_step_inv:
  assumes inv: "thr_inv n c s" and c: "Suc c < index_limit" and i: "i < n" and n: "n < 2 ^ 32"
    and pc: "th_pc s i = pc"
  shows "\<exists>s'. worker_step r flag i s pc = Inr s' \<and> thr_inv n (Suc c) s'"
proof -
  note p = thr_inv_park [OF inv]
  have same: "thr_inv n (Suc c) s"
    using inv p c i by (intro thr_inv_still [OF inv c i, of s "th_pc s i"]) (auto simp: thr_inv_def work_inv_def)
  have search1: "\<exists>s'. search_step r flag i WGet1 g s = Inr s' \<and> thr_inv n (Suc c) s'" if "pc = WGet1 g" for g
    using that pc by (intro search_step_inv [OF inv c i]) auto
  have search2: "\<exists>s'. search_step r flag i (WGet2 e) g s = Inr s' \<and> thr_inv n (Suc c) s'" if "pc = WGet2 e g" for e g
    using that pc by (intro search_step_inv [OF inv c i]) auto
  have enq: "\<exists>s'. body_enqueue_step i q s = Inr s' \<and> thr_inv n (Suc c) s'" if "pc = WEnq q" for q
    using that pc by (intro body_enqueue_step_inv [OF inv c i]) auto
  have "park_inv n c (snd (gq_prepare_park (sc_global (th_sc s))))
      ((th_pc s)(i := WGet2 (fst (gq_prepare_park (sc_global (th_sc s)))) GetTick)) (th_notify s) (th_notify_all s)"
    if "\<not> parked pc"
    using that pc by (intro park_inv_prepare [OF p i n]) auto
  then have prepare: "thr_inv n (Suc c) (set_pc i (WGet2 (fst (gq_prepare_park (sc_global (th_sc s)))) GetTick)
      (set_global (snd (gq_prepare_park (sc_global (th_sc s)))) s))" if "\<not> parked pc"
    using that
    by (intro thr_inv_still [OF inv c i, of _ "WGet2 (fst (gq_prepare_park (sc_global (th_sc s)))) GetTick"]) (simp_all add: set_pc_def set_global_def gq_simps)
  have "park_inv n c (gq_cancel_park (sc_global (th_sc s))) ((th_pc s)(i := WResume h)) (th_notify s) (th_notify_all s)"
    if "parked pc" for h
    using that pc by (intro park_inv_leave [OF p i]) (simp_all add: gq_cancel_park_def)
  then have cancel: "thr_inv n (Suc c) (set_pc i (WResume h) (set_global (gq_cancel_park (sc_global (th_sc s))) s))"
    if "parked pc" for h
    using that by (intro thr_inv_still [OF inv c i, of _ "WResume h"]) (simp_all add: set_pc_def set_global_def gq_simps)
  note goto = thr_inv_goto [OF inv c i] and check = park_check_inv [OF inv c i]
  show ?thesis
    using pc same search1 search2 enq prepare cancel goto check
    by (cases "(r, flag, i, s, pc)" rule: worker_step.cases)
      (simp_all add: case_prod_unfold Let_def)
qed

lemma thr_inv_same:
  assumes "thr_inv n c s" "Suc c < index_limit" "0 < n"
  shows "thr_inv n (Suc c) s"
  using assms(1) by (intro thr_inv_still [OF assms, of s "th_pc s 0"]) (use assms(3) in \<open>auto simp: thr_inv_def work_inv_def\<close>)

text \<open>Tasks arriving from a thread that is no worker.\<close>

lemma thr_inv_arrive:
  assumes inv: "thr_inv n c s" and c: "Suc c < index_limit" and n: "0 < n"
    and sc: "th_sc s' = (th_sc s)\<lparr>sc_global := gq\<rparr>" and gq: "gq_queue gq = gq_queue (sc_global (th_sc s)) @ map Some hs"
    and s': "th_pc s' = th_pc s" "th_in s' = th_in s @ hs" "th_taken s' = th_taken s" "th_notify_all s' = th_notify_all s"
    and park: "park_inv n (Suc c) gq (th_pc s) (th_notify s') (th_notify_all s)"
  shows "thr_inv n (Suc c) s'"
proof -
  obtain b where w: "work_inv n (Suc b) s" and b: "b = index_limit - 1 - Suc c"
    using thr_inv_budget [OF inv c] by blast
  have "sc_ok b (th_sc s)" using w sc_ok_mono [of "Suc b" "th_sc s" b] by (simp add: work_inv_def)
  then have "sc_ok b (th_sc s')" using sc gq by (auto simp: sc_ok_def)
  moreover have "sc_tasks (th_sc s') = sc_tasks (th_sc s) + mset hs"
    using sc gq by (simp add: sc_tasks_def multiset.map_comp comp_def)
  ultimately have "work_inv n b s'" using w sc s' by (auto simp: work_inv_def n_workers_def)
  then show ?thesis using c park sc s' unfolding thr_inv_def b by simp
qed

lemma work_inv_wake:
  assumes "work_inv n b s" "th_sc s' = th_sc s" "th_in s' = th_in s" "th_taken s' = th_taken s"
    and "\<And>i. i < n \<Longrightarrow> th_pc s' i = th_pc s i \<or> th_pc s' i = wake_pc (th_pc s i)"
  shows "work_inv n b s'"
proof -
  have "pc_ok n (wake_pc pc) = pc_ok n pc" "own_empty (wake_pc pc) = own_empty pc" for pc
    by (cases pc; simp)+
  then have "pc_ok n (th_pc s' i) = pc_ok n (th_pc s i)" "own_empty (th_pc s' i) = own_empty (th_pc s i)"
    if "i < n" for i using assms(5) [OF that] by auto
  then show ?thesis using assms(1-4) by (simp add: work_inv_def n_workers_def)
qed

lemma thr_inv_wake:
  assumes inv: "thr_inv n c s" and c: "Suc c < index_limit"
    and s': "th_sc s' = th_sc s" "th_in s' = th_in s" "th_taken s' = th_taken s"
    and pcs: "\<And>i. i < n \<Longrightarrow> th_pc s' i = th_pc s i \<or> th_pc s' i = wake_pc (th_pc s i)"
    and park: "park_inv n c (sc_global (th_sc s)) (th_pc s') (th_notify s') (th_notify_all s')"
  shows "thr_inv n (Suc c) s'"
proof -
  obtain b where w: "work_inv n (Suc b) s" and b: "b = index_limit - 1 - Suc c"
    using thr_inv_budget [OF inv c] by blast
  have "work_inv n b s'" using work_inv_wake [OF w s' pcs] work_inv_mono by fastforce
  then show ?thesis using c park_inv_mono [OF park, of "Suc c"] s'(1) unfolding thr_inv_def b by simp
qed

lemma notify_one_inv:
  assumes inv: "thr_inv n c s" and c: "Suc c < index_limit" and n: "0 < n"
  shows "\<exists>s'. thr_act (NotifyOne w) s = Inr s' \<and> thr_inv n (Suc c) s'"
proof -
  note p = thr_inv_park [OF inv] and same = thr_inv_same [OF inv c n]
  have nw: "n_workers s = n" using inv by (simp add: thr_inv_def work_inv_def)
  have wake: "thr_inv n (Suc c) ((wake_worker w s)\<lparr>th_notify := th_notify s - 1\<rparr>)" if "w < n"
    using park_inv_wake [OF p that] by (intro thr_inv_wake [OF inv c]) (auto simp: wake_worker_def set_pc_def)
  have "thr_inv n (Suc c) (s\<lparr>th_notify := th_notify s - 1\<rparr>)"
    if "\<not> list_ex (\<lambda>i. is_wait (th_pc s i)) [0..<n]"
  proof -
    have "\<And>i. i < n \<Longrightarrow> \<not> is_wait (th_pc s i)" using that by (auto simp: list_ex_iff)
    then show ?thesis
      using park_inv_unheard [OF p n] by (intro thr_inv_wake [OF inv c]) auto
  qed
  then show ?thesis using same wake nw by simp
qed

lemma shutdown_inv:
  assumes inv: "thr_inv n c s" and c: "Suc c < index_limit" and n: "0 < n"
  shows "thr_inv n (Suc c) (s\<lparr>th_sc := shutdown_store (th_sc s)\<rparr>)"
    and "\<exists>s'. thr_act ShutdownStop s = Inr s' \<and> thr_inv n (Suc c) s'"
proof -
  have still: "thr_inv n (Suc c) (s\<lparr>th_sc := sc, th_notify_all := na\<rparr>)"
    if "sc_local sc = sc_local (th_sc s)" "gq_queue (sc_global sc) = gq_queue (sc_global (th_sc s))"
      "park_inv n (Suc c) (sc_global sc) (th_pc s) (th_notify s) na" for sc na
  proof -
    obtain b where w: "work_inv n (Suc b) s" and b: "b = index_limit - 1 - Suc c"
      using thr_inv_budget [OF inv c] by blast
    have "work_inv n b (s\<lparr>th_sc := sc, th_notify_all := na\<rparr>)"
      using that w n by (intro work_inv_still [OF w n, of _ "th_pc s 0"]) (auto simp: work_inv_def)
    then show ?thesis using c that(3) unfolding thr_inv_def b by simp
  qed
  note p = thr_inv_park [OF inv]
  show "thr_inv n (Suc c) (s\<lparr>th_sc := shutdown_store (th_sc s)\<rparr>)"
    using still [of "shutdown_store (th_sc s)" "th_notify_all s"] park_inv_mono [OF p, of "Suc c"]
    by (simp add: shutdown_store_def)
  show "\<exists>s'. thr_act ShutdownStop s = Inr s' \<and> thr_inv n (Suc c) s'"
    using still [of "snd (shutdown_stop (th_sc s))" "th_notify_all s \<or> fst (shutdown_stop (th_sc s))"]
      park_inv_stop [OF p] c
    by (simp add: shutdown_stop_def case_prod_unfold Let_def gq_simps)
qed

lemma thr_act_inv:
  assumes inv: "thr_inv n c s" and c: "Suc c < index_limit" and n: "0 < n" "n < 2 ^ 32"
  shows "\<exists>s'. thr_act a s = Inr s' \<and> thr_inv n (Suc c) s'"
proof -
  note p = thr_inv_park [OF inv] and same = thr_inv_same [OF inv c n(1)]
  have nw: "n_workers s = n" using inv by (simp add: thr_inv_def work_inv_def)
  show ?thesis
  proof (cases a)
    case (WorkerStep i r flag)
    then show ?thesis using worker_step_inv [OF inv c _ n(2) refl, of i r flag] same nw by auto
  next
    case (BodyEnqueue i h)
    then show ?thesis
      using thr_inv_goto [OF inv c, of i "WEnq (EnqLocal (Some h))"] same nw by (auto simp: enqueue_entry_def)
  next
    case (BodyReturn i)
    then show ?thesis using thr_inv_goto [OF inv c, of i WLoop] same nw by auto
  next
    case (ExtEnqueue h)
    have "park_inv n (Suc c) (snd (gq_push (Some h) (sc_global (th_sc s)))) (th_pc s)
        (th_notify s + fst (gq_push (Some h) (sc_global (th_sc s)))) (th_notify_all s)"
      using c by (intro park_inv_bump [OF p n(1)]) (auto simp: gq_simps)
    then have "thr_inv n (Suc c) ((set_global (snd (gq_push (Some h) (sc_global (th_sc s)))) s)
        \<lparr>th_notify := th_notify s + fst (gq_push (Some h) (sc_global (th_sc s))), th_in := th_in s @ [h]\<rparr>)"
      by (intro thr_inv_arrive [OF inv c n(1), of _ "snd (gq_push (Some h) (sc_global (th_sc s)))" "[h]"])
        (simp_all add: set_global_def gq_simps)
    then show ?thesis using ExtEnqueue by (simp add: case_prod_unfold Let_def)
  next
    case (ExtBatch hs)
    show ?thesis
    proof (cases "length hs < 2 ^ 64 \<and> hs \<noteq> []")
      case True
      let ?b = "gq_push_batch (map Some hs) (sc_global (th_sc s))"
      have len: "length (map Some hs) < 2 ^ 64" using True by simp
      have "park_inv n (Suc c) (snd ?b) (th_pc s) (th_notify s + fst ?b) (th_notify_all s)"
        using c True
        by (intro park_inv_bump [OF p n(1)])
          (auto simp: gq_push_batch_simps [OF len] word_less_nat_alt)
      then have "thr_inv n (Suc c) (s\<lparr>th_sc := (th_sc s)\<lparr>sc_global := snd ?b\<rparr>,
          th_notify := th_notify s + fst ?b, th_in := th_in s @ hs\<rparr>)"
        by (intro thr_inv_arrive [OF inv c n(1), of _ "snd ?b" hs])
          (simp_all add: gq_push_batch_simps [OF len])
      then show ?thesis using ExtBatch True by (simp add: EnqueueBatch_def case_prod_unfold Let_def)
    next
      case False
      then show ?thesis
        using ExtBatch same by (auto simp: EnqueueBatch_def gq_push_batch_def)
    qed
  next
    case (NotifyOne w)
    then show ?thesis using notify_one_inv [OF inv c n(1)] by blast
  next
    case (SpuriousWake w)
    have "thr_inv n (Suc c) (wake_worker w s)" if "w < n"
      using park_inv_wake [OF p that] by (intro thr_inv_wake [OF inv c]) (auto simp: wake_worker_def set_pc_def)
    then show ?thesis using SpuriousWake same nw by simp
  next
    case NotifyAll
    have "thr_inv n (Suc c) (s\<lparr>th_pc := (\<lambda>i. wake_pc (th_pc s i)), th_notify_all := False\<rparr>)"
      using park_inv_wake_all [OF p n(1)] by (intro thr_inv_wake [OF inv c]) auto
    then show ?thesis using NotifyAll same by simp
  qed (use shutdown_inv [OF inv c n(1)] in auto)
qed

lemma thr_run_inv:
  assumes "thr_inv n c s" "c + length acts < index_limit" "0 < n" "n < 2 ^ 32"
  shows "\<exists>s'. thr_run acts s = Inr s' \<and> thr_inv n (c + length acts) s'"
proof (rule threads.exec_budget [where I = "thr_inv n" and lim = "index_limit - 1"])
  show "\<exists>t. thr_act a s = Inr t \<and> thr_inv n (Suc c) t" if "thr_inv n c s" "c < index_limit - 1" for c a s
    using thr_act_inv [OF that(1) _ assms(3,4)] that(2) by simp
qed (use assms(1,2) in simp_all)

section \<open>Properties\<close>

lemma asleep_no_local_task:
  assumes "thr_inv n c s" "\<forall>i<n. is_wait (th_pc s i)" "gq_queue (sc_global (th_sc s)) = []"
  shows "sc_tasks (th_sc s) = {#}"
proof -
  have "own_empty pc" if "is_wait pc" for pc using that by (cases pc) auto
  then have "ws_tasks lq = []" if "lq \<in> set (sc_local (th_sc s))" for lq
    using that assms(1,2) by (auto simp: thr_inv_def work_inv_def n_workers_def in_set_conv_nth)
  then show ?thesis using assms(3) by (simp add: sc_tasks_def sum_list_map_zero)
qed

text \<open>
  C1. No wake-up is lost. Whatever the threads of a scheduler with \<open>n\<close> workers do (fewer than \<open>2 ^ 63\<close>
  steps), nothing is undefined, and whenever a task is queued anywhere while every worker is
  asleep, a \<^verbatim>\<open>notify_one\<close> is on its way. While the global queue has a task, every worker asleep or just
  woken inside \<^verbatim>\<open>park\<close> finds its predicate true, so a woken worker goes back to its loop.
\<close>

theorem scheduler_no_lost_wakeup:
  assumes "0 < n" "n < 2 ^ 32" "length acts < index_limit"
  shows "\<exists>s. thr_run acts (thr_start n) = Inr s
       \<and> (sc_tasks (th_sc s) \<noteq> {#} \<and> (\<forall>i<n. is_wait (th_pc s i)) \<longrightarrow> 0 < th_notify s)
       \<and> (\<forall>i<n. \<forall>e. gq_queue (sc_global (th_sc s)) \<noteq> [] \<and> (th_pc s i = WWait e \<or> th_pc s i = WNotified e)
             \<longrightarrow> gq_park_pred e (sc_global (th_sc s)))"
proof -
  obtain s where s: "thr_run acts (thr_start n) = Inr s" and inv: "thr_inv n (length acts) s"
    using thr_run_inv [OF thr_inv_start [of n], of acts] assms by auto
  note p = thr_inv_park [OF inv]
  have "0 < th_notify s" if "sc_tasks (th_sc s) \<noteq> {#}" "\<forall>i<n. is_wait (th_pc s i)"
    using asleep_no_local_task [OF inv that(2)] park_invD(5) [OF p] that by auto
  moreover have "gq_park_pred e (sc_global (th_sc s))"
    if "i < n" "gq_queue (sc_global (th_sc s)) \<noteq> []" "th_pc s i = WWait e \<or> th_pc s i = WNotified e" for i e
    using park_invD(4) [OF p that(1), of e] that(2,3) by (auto simp: gq_park_pred_def)
  ultimately show ?thesis using s by blast
qed

text \<open>Both workers search, find nothing and fall asleep; then a task arrives.\<close>

definition sleep_then_task :: "thr_action list" where
  "sleep_then_task =
     replicate 15 (WorkerStep 0 0 False) @ replicate 15 (WorkerStep 1 1 False) @ [ExtEnqueue 7]"

theorem scheduler_no_lost_wakeup_witness:
  "\<exists>s. thr_run sleep_then_task (thr_start 2) = Inr s \<and> (\<forall>i<2. is_wait (th_pc s i)) \<and> 0 < th_notify s"
proof -
  have len: "length sleep_then_task < index_limit" by (simp add: sleep_then_task_def)
  have two: "(0 :: nat) < 2" "(2 :: nat) < 2 ^ 32" by simp_all
  have "case thr_run sleep_then_task (thr_start 2) of Inl _ \<Rightarrow> False
       | Inr s \<Rightarrow> is_wait (th_pc s 0) \<and> is_wait (th_pc s 1) \<and> gq_queue (sc_global (th_sc s)) = [Some 7]"
    by code_simp
  then obtain s where s: "thr_run sleep_then_task (thr_start 2) = Inr s"
    "is_wait (th_pc s 0)" "is_wait (th_pc s 1)" "gq_queue (sc_global (th_sc s)) = [Some 7]"
    by (auto split: sum.splits)
  have all: "\<forall>i<2. is_wait (th_pc s i)" using s(2,3) by (auto simp: less_2_cases_iff)
  have "sc_tasks (th_sc s) \<noteq> {#}" using s(4) by (simp add: sc_tasks_def)
  then show ?thesis using scheduler_no_lost_wakeup [OF two len] s(1) all by auto
qed

text \<open>
  C17. Every task is run at most once and none is lost: in any schedule, the tasks handed to \<^verbatim>\<open>Enqueue\<close>
  and \<^verbatim>\<open>EnqueueBatch\<close> are, counted with multiplicity, those some worker has taken plus those still
  in the global queue and the local deques.
\<close>

theorem scheduler_task_conservation:
  assumes "0 < n" "n < 2 ^ 32" "length acts < index_limit" "thr_run acts (thr_start n) = Inr s"
  shows "mset (th_in s) = mset (th_taken s) + sc_tasks (th_sc s)"
  using thr_run_inv [OF thr_inv_start [of n], of acts] assms by (auto simp: thr_inv_def work_inv_def)

text \<open>The sleeping worker 0 is notified, looks again and takes the task.\<close>

definition task_taken :: "thr_action list" where
  "task_taken = sleep_then_task @ [NotifyOne 0] @ replicate 6 (WorkerStep 0 0 False)"

theorem scheduler_task_conservation_witness:
  "\<exists>s. thr_run task_taken (thr_start 2) = Inr s \<and> th_taken s = [7] \<and> th_pc s 0 = WResume 7
     \<and> sc_tasks (th_sc s) = {#}"
proof -
  have len: "length task_taken < index_limit" by (simp add: task_taken_def sleep_then_task_def)
  have two: "(0 :: nat) < 2" "(2 :: nat) < 2 ^ 32" by simp_all
  have "case thr_run task_taken (thr_start 2) of Inl _ \<Rightarrow> False
       | Inr s \<Rightarrow> th_taken s = [7] \<and> th_in s = [7] \<and> th_pc s 0 = WResume 7"
    by code_simp
  then obtain s where s: "thr_run task_taken (thr_start 2) = Inr s"
    "th_taken s = [7]" "th_in s = [7]" "th_pc s 0 = WResume 7"
    by (auto split: sum.splits)
  then show ?thesis using scheduler_task_conservation [OF two len s(1)] by simp
qed

text \<open>
  \<^verbatim>\<open>Shutdown\<close> reaches every worker: in any schedule, once the queue has been stopped and its
  \<^verbatim>\<open>notify_all\<close> has been made, no worker is asleep, and a worker woken inside \<^verbatim>\<open>park\<close> leaves it at its
  next step.
\<close>

theorem scheduler_stop_wakes_all:
  assumes "0 < n" "n < 2 ^ 32" "length acts < index_limit" "thr_run acts (thr_start n) = Inr s"
    and "gq_stop_flag (sc_global (th_sc s))" "\<not> th_notify_all s" "i < n"
  shows "\<not> is_wait (th_pc s i)
       \<and> (\<forall>e. th_pc s i = WNotified e \<longrightarrow> (\<exists>s'. thr_act (WorkerStep i r flag) s = Inr s' \<and> th_pc s' i = WLoop))"
proof -
  have inv: "thr_inv n (length acts) s" using thr_run_inv [OF thr_inv_start [of n], of acts] assms(1-4) by auto
  have "n_workers s = n" using inv by (simp add: thr_inv_def work_inv_def)
  then show ?thesis
    using park_invD(6) [OF thr_inv_park [OF inv] assms(5,6,7)] assms(5,7)
    by (auto simp: park_check_def gq_park_pred_def set_pc_def)
qed

end
