(* ===== verification/Scheduler_Join.thy ===== *)
theory Scheduler_Join
  imports Scheduler_Threads
begin

text \<open>
  The destruction of the scheduler: \<^verbatim>\<open>~ActorScheduler\<close> of \<^verbatim>\<open>actor_scheduler.cc\<close> shuts down and joins the
  worker threads one after the other. A worker may be anywhere at that moment; it is shown how many steps are left
  at most until the last join returns.
\<close>

section \<open>The destructor and the workers\<close>

text \<open>
  The scheduler with its threads, and the number of threads the loop of the destructor has joined. The
  workers go on with their steps; the coroutine a worker runs may call \<^verbatim>\<open>Enqueue\<close> and gives control back. \<^verbatim>\<open>pthread_join\<close>
  returns when the thread has ended.
\<close>

record dtor =
  dt_thr :: thr_sys
  dt_joined :: nat

datatype dtor_action =
    DStep nat nat bool
  | DReturn nat
  | DCall nat handle
  | DJoin

fun dtor_act :: "dtor_action \<Rightarrow> dtor \<Rightarrow> dtor res" where
  "dtor_act (DStep i r flag) d = res_bind (thr_act (WorkerStep i r flag) (dt_thr d)) (\<lambda>s. Inr (d\<lparr>dt_thr := s\<rparr>))"
| "dtor_act (DReturn i) d = res_bind (thr_act (BodyReturn i) (dt_thr d)) (\<lambda>s. Inr (d\<lparr>dt_thr := s\<rparr>))"
| "dtor_act (DCall i h) d = res_bind (thr_act (BodyEnqueue i h) (dt_thr d)) (\<lambda>s. Inr (d\<lparr>dt_thr := s\<rparr>))"
| "dtor_act DJoin d = Inr (d\<lparr>dt_joined := Suc (dt_joined d)\<rparr>)"

fun moves :: "worker_pc \<Rightarrow> bool" where
  "moves (WWait e) = False"
| "moves WBody = False"
| "moves WExit = False"
| "moves _ = True"

fun dtor_enabled :: "dtor_action \<Rightarrow> dtor \<Rightarrow> bool" where
  "dtor_enabled (DStep i r flag) d \<longleftrightarrow> i < n_workers (dt_thr d) \<and> moves (th_pc (dt_thr d) i)"
| "dtor_enabled (DReturn i) d \<longleftrightarrow> i < n_workers (dt_thr d) \<and> th_pc (dt_thr d) i = WBody"
| "dtor_enabled (DCall i h) d \<longleftrightarrow> i < n_workers (dt_thr d) \<and> th_pc (dt_thr d) i = WBody"
| "dtor_enabled DJoin d \<longleftrightarrow> dt_joined d < n_workers (dt_thr d) \<and> th_pc (dt_thr d) (dt_joined d) = WExit"

fun dtor_run :: "dtor_action list \<Rightarrow> dtor \<Rightarrow> dtor res" where
  "dtor_run [] d = Inr d"
| "dtor_run (a # acts) d = res_bind (dtor_act a d) (dtor_run acts)"

text \<open>Every action of the schedule does something when its turn comes.\<close>

fun dtor_works :: "dtor_action list \<Rightarrow> dtor \<Rightarrow> bool" where
  "dtor_works [] d = True"
| "dtor_works (a # acts) d \<longleftrightarrow> dtor_enabled a d \<and> (case dtor_act a d of Inl _ \<Rightarrow> True | Inr d' \<Rightarrow> dtor_works acts d')"

interpretation destruction: schedules "\<lambda>a d d'. dtor_enabled a d \<and> dtor_act a d = Inr d'"
    "\<lambda>acts d d'. dtor_works acts d \<and> dtor_run acts d = Inr d'"
  by unfold_locales (auto simp: res_bind_Inr_iff)

fun is_call :: "dtor_action \<Rightarrow> bool" where
  "is_call (DCall i h) = True"
| "is_call _ = False"

section \<open>How much is left for a worker\<close>

fun get_rank :: "nat \<Rightarrow> get_pc \<Rightarrow> nat" where
  "get_rank n GetTick = n + 6"
| "get_rank n GetLocal = n + 5"
| "get_rank n GetGlobal = n + 4"
| "get_rank n (GetSteal v k) = 3 + (n - k)"
| "get_rank n (GetSize v t) = 2"
| "get_rank n (GetNotify t) = 1"
| "get_rank n (GetRet t) = 0"

fun enq_rank :: "enqueue_pc \<Rightarrow> nat" where
  "enq_rank (EnqLocal h) = 3"
| "enq_rank EnqSize = 2"
| "enq_rank EnqNotify = 1"
| "enq_rank (EnqGlobal h) = 1"
| "enq_rank EnqDone = 0"

fun pc_rank :: "nat \<Rightarrow> worker_pc \<Rightarrow> nat" where
  "pc_rank n WExit = 0"
| "pc_rank n WLoop = 1"
| "pc_rank n WBody = 2"
| "pc_rank n (WNotified e) = 2"
| "pc_rank n (WWait e) = 2"
| "pc_rank n (WResume h) = 3"
| "pc_rank n (WEnq pc) = 3 + enq_rank pc"
| "pc_rank n (WGet2 e pc) = 4 + get_rank n pc"
| "pc_rank n (WGet1 pc) = n + 11 + get_rank n pc"

lemma get_rank_le: "get_rank n pc \<le> n + 6"
  by (cases pc) auto

lemma pc_rank_le: "pc_rank n pc \<le> 2 * n + 17"
proof (cases pc)
  case (WEnq e)
  then show ?thesis by (cases e) auto
next
  case (WGet1 g)
  then show ?thesis using get_rank_le [of n g] by simp
next
  case (WGet2 e g)
  then show ?thesis using get_rank_le [of n g] by simp
qed auto

lemma get_step_rank:
  assumes "get_step r a i tick sc pc = Inr (wake, tick', sc', pc')" "\<nexists>t. pc = GetRet t"
    and "get_ok (length (sc_local sc)) pc"
  shows "get_rank (length (sc_local sc)) pc' < get_rank (length (sc_local sc)) pc"
  using assms
  by (cases pc) (auto simp: Let_def res_bind_Inr_iff split: if_splits prod.splits)

lemma enqueue_step_rank:
  assumes "enqueue_step i sc pc = Inr (wake, sc', pc')" "pc \<noteq> EnqDone"
  shows "enq_rank pc' < enq_rank pc"
  using assms by (cases pc) (auto simp: Let_def res_bind_Inr_iff split: if_splits prod.splits)

text \<open>The scheduler is shut down: the flag is cleared, the queue stopped and all have been notified.\<close>

definition is_down :: "thr_sys \<Rightarrow> bool" where
  "is_down s \<longleftrightarrow> \<not> sc_running (th_sc s) \<and> gq_stop_flag (sc_global (th_sc s)) \<and> \<not> th_notify_all s"

text \<open>What a step of worker \<open>i\<close> leaves alone, and that it brings the worker closer to its end.\<close>

definition closer :: "nat \<Rightarrow> nat \<Rightarrow> thr_sys \<Rightarrow> thr_sys \<Rightarrow> bool" where
  "closer n i s s' \<longleftrightarrow>
     is_down s' \<and> (\<exists>pc. th_pc s' = (th_pc s)(i := pc) \<and> pc_rank n pc < pc_rank n (th_pc s i))"

lemma search_closer:
  assumes "work_inv n (Suc b) s" "is_down s" "i < n" "get_ok n pc" "\<nexists>t. pc = GetRet t"
    and step: "search_step r a i wrap pc s = Inr s'"
    and wrap: "th_pc s i = wrap pc" "\<And>p p'. pc_rank n (wrap p) < pc_rank n (wrap p') \<longleftrightarrow> get_rank n p < get_rank n p'"
  shows "closer n i s s'"
proof -
  have sc: "sc_ok (Suc b) (th_sc s)" "length (sc_local (th_sc s)) = n"
    using assms(1) by (auto simp: work_inv_def n_workers_def)
  obtain wake tick sc' pc' where g: "get_step r a i (th_tick s i) (th_sc s) pc = Inr (wake, tick, sc', pc')"
    "get_effect b i (th_sc s) pc wake sc' pc'"
    using get_step_effect [OF sc(1), of i pc] assms(3,4) sc(2) by blast
  have "gq_stop_flag (sc_global sc') = gq_stop_flag (sc_global (th_sc s))" "sc_running sc' = sc_running (th_sc s)"
    using g(2) by (auto simp: get_effect_def gq_quiet_def locals_shrink_def gq_notify_one_idle_def split: if_splits)
  moreover have "get_rank n pc' < get_rank n pc" using get_step_rank [OF g(1) assms(5)] assms(4) sc(2) by simp
  ultimately show ?thesis
    using step g(1) assms(2) wrap by (auto simp: search_step_def closer_def is_down_def)
qed

lemma body_enqueue_closer:
  assumes "work_inv n (Suc b) s" "is_down s" "i < n" "enq_ok pc" "pc \<noteq> EnqDone" "th_pc s i = WEnq pc"
    and step: "body_enqueue_step i pc s = Inr s'"
  shows "closer n i s s'"
proof -
  have sc: "sc_ok (Suc b) (th_sc s)" "length (sc_local (th_sc s)) = n"
    using assms(1) by (auto simp: work_inv_def n_workers_def)
  obtain wake sc' pc' where e: "enqueue_step i (th_sc s) pc = Inr (wake, sc', pc')"
    "enq_effect b i (th_sc s) pc wake sc' pc'"
    using enqueue_step_effect [OF sc(1), of i pc] assms(3,4) sc(2) by blast
  then show ?thesis
    using step enqueue_step_rank [OF e(1) assms(5)] assms(2,6)
    by (auto simp: body_enqueue_step_def closer_def is_down_def enq_effect_def)
qed

lemma park_check_closer:
  assumes "is_down s" "1 < pc_rank n (th_pc s i)"
  shows "closer n i s (park_check i e s)"
  using assms by (auto simp: park_check_def gq_park_pred_def closer_def is_down_def set_pc_def set_global_def gq_park_leave_def)

lemmas closer_simps = closer_def is_down_def set_pc_def set_global_def gq_prepare_park_def gq_cancel_park_def

lemma worker_closer:
  assumes inv: "work_inv n (Suc b) s" and down: "is_down s" and i: "i < n" and m: "moves (th_pc s i)"
    and step: "worker_step r flag i s (th_pc s i) = Inr s'"
  shows "closer n i s s'"
proof -
  have ok: "pc_ok n (th_pc s i)" using inv i by (simp add: work_inv_def)
  show ?thesis
  proof (cases "th_pc s i")
    case (WGet1 pc)
    show ?thesis
    proof (cases "\<exists>t. pc = GetRet t")
      case True
      then obtain t where "pc = GetRet t" by blast
      then show ?thesis using WGet1 step down by (cases t) (auto simp: closer_simps)
    next
      case False
      then have "search_step r flag i WGet1 pc s = Inr s'" using step WGet1 by (cases pc) auto
      then show ?thesis using search_closer [OF inv down i _ False, of r flag WGet1 s'] ok WGet1 by simp
    qed
  next
    case (WGet2 e pc)
    show ?thesis
    proof (cases "\<exists>t. pc = GetRet t")
      case True
      then obtain t where "pc = GetRet t" by blast
      then show ?thesis
        using WGet2 step down park_check_closer [OF down, of n i e] by (cases t) (auto simp: closer_simps)
    next
      case False
      then have "search_step r flag i (WGet2 e) pc s = Inr s'" using step WGet2 by (cases pc) auto
      then show ?thesis using search_closer [OF inv down i _ False, of r flag "WGet2 e" s'] ok WGet2 by simp
    qed
  next
    case (WEnq pc)
    show ?thesis
    proof (cases "pc = EnqDone")
      case False
      then have "body_enqueue_step i pc s = Inr s'" using step WEnq by (cases pc) auto
      then show ?thesis using body_enqueue_closer [OF inv down i _ False WEnq] ok WEnq by simp
    qed (use WEnq step down in \<open>auto simp: closer_simps\<close>)
  next
    case (WNotified e)
    then show ?thesis using step park_check_closer [OF down, of n i e] by simp
  qed (use step down m in \<open>auto simp: closer_simps\<close>)
qed

section \<open>The invariant of the destruction\<close>

definition dtor_inv :: "nat \<Rightarrow> nat \<Rightarrow> dtor \<Rightarrow> bool" where
  "dtor_inv n c d \<longleftrightarrow>
     thr_inv n c (dt_thr d) \<and> is_down (dt_thr d) \<and> dt_joined d \<le> n \<and> (\<forall>j<dt_joined d. th_pc (dt_thr d) j = WExit)"

definition dtor_rank :: "nat \<Rightarrow> dtor \<Rightarrow> nat" where
  "dtor_rank n d = (\<Sum>i<n. pc_rank n (th_pc (dt_thr d) i)) + (n - dt_joined d)"

lemma dtor_rank_le: "dtor_rank n d \<le> n * (2 * n + 18)"
proof -
  have "(\<Sum>i<n. pc_rank n (th_pc (dt_thr d) i)) \<le> n * (2 * n + 17)"
    using sum_bounded_above [of "{..<n}" "\<lambda>i. pc_rank n (th_pc (dt_thr d) i)" "2 * n + 17"] pc_rank_le by simp
  then show ?thesis by (simp add: dtor_rank_def algebra_simps)
qed

lemma sum_pc_rank:
  assumes "i < (n :: nat)"
  shows "(\<Sum>j<n. f ((g(i := x)) j)) + f (g i) = (\<Sum>j<n. f (g j)) + (f x :: nat)"
proof -
  have "(\<Sum>j\<in>{..<n} - {i}. f ((g(i := x)) j)) = (\<Sum>j\<in>{..<n} - {i}. f (g j))" by (rule sum.cong) auto
  then show ?thesis
    using sum.remove [of "{..<n}" i "\<lambda>j. f ((g(i := x)) j)"] sum.remove [of "{..<n}" i "\<lambda>j. f (g j)"] assms by simp
qed

lemma dtor_rank_move:
  assumes "i < n" "th_pc s = (th_pc (dt_thr d))(i := pc)"
  shows "dtor_rank n (d\<lparr>dt_thr := s\<rparr>) + pc_rank n (th_pc (dt_thr d) i) = dtor_rank n d + pc_rank n pc"
  using sum_pc_rank [OF assms(1), of "pc_rank n" "th_pc (dt_thr d)" pc] assms(2) by (simp add: dtor_rank_def)

lemma dtor_thread:
  assumes inv: "dtor_inv n c d" and c: "Suc c < index_limit" and n: "0 < n" "n < 2 ^ 32"
    and i: "i < n" "th_pc (dt_thr d) i \<noteq> WExit"
    and act: "thr_act a (dt_thr d) = Inr s" "is_down s" "th_pc s = (th_pc (dt_thr d))(i := pc)"
  shows "dtor_inv n (Suc c) (d\<lparr>dt_thr := s\<rparr>)"
proof -
  have "thr_inv n c (dt_thr d)" using inv by (simp add: dtor_inv_def)
  then have "thr_inv n (Suc c) s" using thr_act_inv [OF _ c n, of "dt_thr d" a] act(1) by auto
  moreover have "\<not> i < dt_joined d" using inv i(2) by (auto simp: dtor_inv_def)
  ultimately show ?thesis using inv act(2,3) by (auto simp: dtor_inv_def)
qed

lemma dtor_step:
  assumes inv: "dtor_inv n c d" and c: "Suc c < index_limit" and n: "0 < n" "n < 2 ^ 32" and en: "dtor_enabled a d"
  shows "\<exists>d'. dtor_act a d = Inr d' \<and> dtor_inv n (Suc c) d'
           \<and> Suc (dtor_rank n d') \<le> dtor_rank n d + (if is_call a then 5 else 0)"
proof -
  let ?s = "dt_thr d"
  have thr: "thr_inv n c ?s" and down: "is_down ?s" using inv by (simp_all add: dtor_inv_def)
  have nw: "n_workers ?s = n" using thr by (simp add: thr_inv_def work_inv_def)
  note keep = dtor_thread [OF inv c n] and rank = dtor_rank_move [of _ n _ d]
  show ?thesis
  proof (cases a)
    case (DStep i r flag)
    then have i: "i < n" "moves (th_pc ?s i)" using en nw by auto
    obtain s where s: "thr_act (WorkerStep i r flag) ?s = Inr s" using thr_act_inv [OF thr c n] by blast
    obtain b where "work_inv n (Suc b) ?s" using thr_inv_budget [OF thr c] by blast
    then have cl: "closer n i ?s s" using worker_closer [OF _ down i] s i(1) nw by auto
    then obtain pc where pc: "th_pc s = (th_pc ?s)(i := pc)" "pc_rank n pc < pc_rank n (th_pc ?s i)"
      unfolding closer_def by blast
    have "th_pc ?s i \<noteq> WExit" using i(2) by auto
    then show ?thesis using DStep s cl keep [OF i(1) _ s _ pc(1)] rank [OF i(1) pc(1)] pc(2) by (simp add: closer_def)
  next
    case (DReturn i)
    then have i: "i < n" "th_pc ?s i = WBody" using en nw by auto
    let ?t = "set_pc i WLoop ?s"
    have t: "thr_act (BodyReturn i) ?s = Inr ?t" "is_down ?t" "th_pc ?t = (th_pc ?s)(i := WLoop)"
      using i nw down by (simp_all add: set_pc_def is_down_def)
    show ?thesis using DReturn keep [OF i(1) _ t] rank [OF i(1) t(3)] t(1) i by simp
  next
    case (DCall i h)
    then have i: "i < n" "th_pc ?s i = WBody" using en nw by auto
    let ?e = "WEnq (enqueue_entry (Some i) (Some h))" let ?t = "set_pc i ?e ?s"
    have t: "thr_act (BodyEnqueue i h) ?s = Inr ?t" "is_down ?t" "th_pc ?t = (th_pc ?s)(i := ?e)"
      using i nw down by (simp_all add: set_pc_def is_down_def)
    show ?thesis
      using DCall keep [OF i(1) _ t] rank [OF i(1) t(3)] t(1) i by (simp add: enqueue_entry_def)
  next
    case DJoin
    then have "dt_joined d < n" "th_pc ?s (dt_joined d) = WExit" using en nw by auto
    moreover have "thr_inv n (Suc c) ?s" using thr_act_inv [OF thr c n, of "BodyReturn n"] nw by simp
    ultimately show ?thesis using DJoin inv by (auto simp: dtor_inv_def dtor_rank_def less_Suc_eq)
  qed
qed

lemma dtor_bound:
  assumes "dtor_inv n c d" "c + length works < index_limit" "0 < n" "n < 2 ^ 32" "dtor_works works d"
  shows "\<exists>d'. dtor_run works d = Inr d' \<and> dtor_inv n (c + length works) d'
           \<and> length works + dtor_rank n d' \<le> dtor_rank n d + 5 * length (filter is_call works)"
  using assms
proof (induction works arbitrary: c d)
  case (Cons a works)
  obtain u where u: "dtor_act a d = Inr u" "dtor_inv n (Suc c) u"
    "Suc (dtor_rank n u) \<le> dtor_rank n d + (if is_call a then 5 else 0)"
    using dtor_step [OF Cons.prems(1) _ Cons.prems(3,4), of a] Cons.prems(2,5) by auto
  obtain d' where "dtor_run works u = Inr d'" "dtor_inv n (Suc c + length works) d'"
    "length works + dtor_rank n d' \<le> dtor_rank n u + 5 * length (filter is_call works)"
    using Cons.IH [OF u(2)] Cons.prems u(1) by auto
  then show ?case using u by (auto split: if_splits)
qed simp

lemma dtor_stuck:
  assumes inv: "dtor_inv n c d" and stuck: "\<forall>a. \<not> dtor_enabled a d"
  shows "dt_joined d = n \<and> (\<forall>i<n. th_pc (dt_thr d) i = WExit)"
proof -
  have thr: "thr_inv n c (dt_thr d)" and down: "is_down (dt_thr d)" using inv by (simp_all add: dtor_inv_def)
  have nw: "n_workers (dt_thr d) = n" using thr by (simp add: thr_inv_def work_inv_def)
  have ended: "th_pc (dt_thr d) i = WExit" if "i < n" for i
  proof -
    have "\<not> is_wait (th_pc (dt_thr d) i)"
      using park_invD(6) [OF thr_inv_park [OF thr]] down that by (simp add: is_down_def)
    moreover have "\<not> moves (th_pc (dt_thr d) i)" "th_pc (dt_thr d) i \<noteq> WBody"
      using stuck that nw dtor_enabled.simps(1,2) by blast+
    ultimately show ?thesis by (cases "th_pc (dt_thr d) i") auto
  qed
  have "\<not> dt_joined d < n" using ended stuck nw dtor_enabled.simps(4) by blast
  then show ?thesis using inv ended by (simp add: dtor_inv_def)
qed

section \<open>Properties\<close>

text \<open>
  C14. \<^verbatim>\<open>~ActorScheduler\<close> returns. Let the workers be anywhere when the scheduler has been shut down (flag cleared, queue stopped,
  all notified). Whatever the threads do from then on, nothing is undefined, and they do at most \<open>n * (2 * n + 18)\<close>
  steps, plus five for every \<^verbatim>\<open>Enqueue\<close> called by the coroutines that still run; when no thread can do anything, because
  these coroutines have given control back, every worker has ended and every \<^verbatim>\<open>pthread_join\<close> has returned.
\<close>

theorem scheduler_destructor_returns:
  assumes "0 < n" "n < 2 ^ 32" "thr_run acts (thr_start n) = Inr s" "is_down s"
    and "length acts + length works < index_limit" "dtor_works works \<lparr>dt_thr = s, dt_joined = 0\<rparr>"
  shows "\<exists>d. dtor_run works \<lparr>dt_thr = s, dt_joined = 0\<rparr> = Inr d
     \<and> length works \<le> n * (2 * n + 18) + 5 * length (filter is_call works)
     \<and> ((\<forall>a. \<not> dtor_enabled a d) \<longrightarrow> dt_joined d = n \<and> (\<forall>i<n. th_pc (dt_thr d) i = WExit))"
proof -
  let ?d = "\<lparr>dt_thr = s, dt_joined = 0\<rparr>"
  have "thr_inv n (length acts) s" using thr_run_inv [OF thr_inv_start [of n], of acts] assms(1-3,5) by auto
  then have "dtor_inv n (length acts) ?d" using assms(4) by (simp add: dtor_inv_def)
  then obtain d where d: "dtor_run works ?d = Inr d" "dtor_inv n (length acts + length works) d"
    "length works + dtor_rank n d \<le> dtor_rank n ?d + 5 * length (filter is_call works)"
    using dtor_bound [OF _ assms(5,1,2,6)] by blast
  then show ?thesis using dtor_rank_le [of n ?d] dtor_stuck [OF d(2)] by auto
qed

text \<open>Two workers, one of them asleep when the scheduler is shut down.\<close>

definition stop_while_asleep :: "thr_action list" where
  "stop_while_asleep = replicate 15 (WorkerStep 0 0 False) @ [ShutdownStore, ShutdownStop, NotifyAll]"

definition both_end :: "dtor_action list" where
  "both_end = [DStep 0 0 False, DStep 1 0 False, DStep 0 0 False, DJoin, DJoin]"

theorem scheduler_destructor_returns_witness:
  "\<exists>s d. thr_run stop_while_asleep (thr_start 2) = Inr s \<and> dtor_run both_end \<lparr>dt_thr = s, dt_joined = 0\<rparr> = Inr d
     \<and> dt_joined d = 2 \<and> (\<forall>i<2. th_pc (dt_thr d) i = WExit)"
proof -
  have two: "(0 :: nat) < 2" "(2 :: nat) < 2 ^ 32" by simp_all
  have len: "length stop_while_asleep + length both_end < index_limit" by (simp add: stop_while_asleep_def both_end_def)
  have "case thr_run stop_while_asleep (thr_start 2) of Inl _ \<Rightarrow> False
       | Inr s \<Rightarrow> is_down s \<and> dtor_works both_end \<lparr>dt_thr = s, dt_joined = 0\<rparr>
           \<and> (case dtor_run both_end \<lparr>dt_thr = s, dt_joined = 0\<rparr> of Inl _ \<Rightarrow> False
              | Inr d \<Rightarrow> dt_joined d = 2 \<and> n_workers (dt_thr d) = 2 \<and> th_pc (dt_thr d) 0 = WExit \<and> th_pc (dt_thr d) 1 = WExit)"
    by code_simp
  then obtain s d where s: "thr_run stop_while_asleep (thr_start 2) = Inr s" "is_down s"
    "dtor_works both_end \<lparr>dt_thr = s, dt_joined = 0\<rparr>" "dtor_run both_end \<lparr>dt_thr = s, dt_joined = 0\<rparr> = Inr d"
    "dt_joined d = 2" "n_workers (dt_thr d) = 2" "th_pc (dt_thr d) 0 = WExit" "th_pc (dt_thr d) 1 = WExit"
    by (auto split: sum.splits)
  have "th_pc (dt_thr d) i = WExit" if "i < 2" for i using that s(7,8) by (auto simp: less_2_cases_iff)
  then have "\<not> dtor_enabled a d" for a using s(5,6) by (cases a) auto
  then show ?thesis using scheduler_destructor_returns [OF two s(1,2) len s(3)] s(1,4) by auto
qed

end
