(* ===== verification/Mail_Box.thy ===== *)
theory Mail_Box
  imports Mail_Queue
begin

text \<open>
  The actor mailbox \<^verbatim>\<open>MailBox\<close> of \<^verbatim>\<open>include/mail_box.h\<close> and \<^verbatim>\<open>src/core/mail_box.cc\<close>, called one
  operation at a time: sending, receiving, waiting and destruction, with the messages in their
  heap and the coroutine frames as a table of the live ones. The same operations broken into
  their shared accesses and interleaved are in theory \<open>Mail_Box_Protocol\<close>.
\<close>

section \<open>State\<close>

record mail_box =
  mb_discarded_nr :: size_t
  mb_solved_nr :: size_t
  mb_consumer :: "handle option"
  mb_scheduled :: bool
  mb_mailbox :: mail_queue

text \<open>The coroutine frames that exist, each with the answer of \<^verbatim>\<open>done()\<close>.\<close>

type_synonym coro_table = "handle \<rightharpoonup> bool"

definition coro_done :: "handle \<Rightarrow> coro_table \<Rightarrow> bool res" where
  "coro_done h frames = (case frames h of None \<Rightarrow> Inl (UseAfterFree h) | Some d \<Rightarrow> Inr d)"

definition mail_box_new :: "size_t \<Rightarrow> mail_box res" where
  "mail_box_new sz =
     res_bind (mail_queue_new sz) (\<lambda>q. Inr
       \<lparr>mb_discarded_nr = 0, mb_solved_nr = 0, mb_consumer = None, mb_scheduled = False,
        mb_mailbox = q\<rparr>)"

section \<open>Operations\<close>

definition ArmConsumer :: "handle \<Rightarrow> mail_box \<Rightarrow> mail_box" where
  "ArmConsumer h mb = mb\<lparr>mb_consumer := Some h, mb_scheduled := True\<rparr>"

definition MarkRunning :: "mail_box \<Rightarrow> mail_box" where
  "MarkRunning mb = mb\<lparr>mb_scheduled := True\<rparr>"

definition try_receive :: "mail_box \<Rightarrow> (addr option option \<times> mail_box) run" where
  "try_receive mb =
     run_bind (try_dequeue (mb_mailbox mb)) (\<lambda>(r, q).
       let mb = mb\<lparr>mb_mailbox := q\<rparr>
       in run_ret (r, if r \<noteq> None then mb\<lparr>mb_solved_nr := mb_solved_nr mb + 1\<rparr> else mb))"

text \<open>
  \<^verbatim>\<open>Send\<close>: the mailbox, the messages, and the coroutine handles passed to the scheduler's
  \<^verbatim>\<open>Enqueue\<close>.
\<close>

definition wake_consumer :: "coro_table \<Rightarrow> mail_box \<Rightarrow> (mail_box \<times> handle list) res" where
  "wake_consumer frames mb =
     (if \<not> mb_scheduled mb
      then let mb = mb\<lparr>mb_scheduled := True\<rparr>
           in case mb_consumer mb of
                None \<Rightarrow> Inr (mb, [])
              | Some h \<Rightarrow> res_bind (coro_done h frames) (\<lambda>d. Inr (mb, if d then [] else [h]))
      else Inr (mb, []))"

definition Send :: "coro_table \<Rightarrow> addr \<Rightarrow> mail_box \<Rightarrow> msg_store \<Rightarrow> (mail_box \<times> msg_store \<times> handle list) run" where
  "Send frames message mb st =
     run_bind (try_enqueue message (mb_mailbox mb)) (\<lambda>(ok, q).
       let mb = mb\<lparr>mb_mailbox := q\<rparr>
       in if ok
          then run_bind (run_res (wake_consumer frames mb)) (\<lambda>(mb, hs). run_ret (mb, st, hs))
          else run_bind (run_res (release_ptr message st)) (\<lambda>st.
                 run_ret (mb\<lparr>mb_discarded_nr := mb_discarded_nr mb + 1\<rparr>, st, [])))"

text \<open>The awaiter of \<^verbatim>\<open>Wait\<close>: \<open>await_suspend\<close> answers whether the coroutine stays suspended.\<close>

definition await_ready :: "mail_box \<Rightarrow> bool res" where
  "await_ready mb = can_dequeue (mb_mailbox mb)"

definition await_suspend :: "handle \<Rightarrow> mail_box \<Rightarrow> (bool \<times> mail_box) res" where
  "await_suspend h mb =
     (let mb = mb\<lparr>mb_consumer := Some h, mb_scheduled := False\<rparr>
      in res_bind (can_dequeue (mb_mailbox mb)) (\<lambda>ready.
           Inr (if ready \<and> \<not> mb_scheduled mb then (False, mb\<lparr>mb_scheduled := True\<rparr>) else (True, mb))))"

text \<open>The destructor's loop, with a bound on its rounds.\<close>

fun mail_box_drain :: "nat \<Rightarrow> mail_box \<Rightarrow> msg_store \<Rightarrow> (mail_box \<times> msg_store) run" where
  "mail_box_drain 0 mb st = None"
| "mail_box_drain (Suc fuel) mb st =
     run_bind (try_dequeue (mb_mailbox mb)) (\<lambda>(r, q).
       let mb = mb\<lparr>mb_mailbox := q\<rparr>
       in case r of
            None \<Rightarrow> run_ret (mb, st)
          | Some msg \<Rightarrow> run_bind (run_res (event_message_release (Some msg) st)) (\<lambda>(p, st).
                          mail_box_drain fuel mb st))"

section \<open>Lemmas\<close>

definition mb_holds :: "nat \<Rightarrow> nat \<Rightarrow> addr list \<Rightarrow> mail_box \<Rightarrow> bool" where
  "mb_holds n b ms mb \<longleftrightarrow> mq_contents n b ms (mb_mailbox mb)"

lemma mb_holds_mono: "mb_holds n b ms mb \<Longrightarrow> b' \<le> b \<Longrightarrow> mb_holds n b' ms mb"
  by (auto simp: mb_holds_def mq_contents_def)

lemma mb_holds_fields [simp]:
  "mb_holds n b ms (mb\<lparr>mb_scheduled := x\<rparr>) = mb_holds n b ms mb"
  "mb_holds n b ms (mb\<lparr>mb_consumer := h\<rparr>) = mb_holds n b ms mb"
  "mb_holds n b ms (mb\<lparr>mb_discarded_nr := d\<rparr>) = mb_holds n b ms mb"
  "mb_holds n b ms (mb\<lparr>mb_solved_nr := d\<rparr>) = mb_holds n b ms mb"
  by (simp_all add: mb_holds_def)

lemma mb_holds_unique: "mb_holds n b ms mb \<Longrightarrow> mb_holds n b' ms' mb \<Longrightarrow> ms = ms'"
  unfolding mb_holds_def mq_contents_def using mq_rep_unique by blast

lemma mb_holds_ready: "mb_holds n b ms mb \<Longrightarrow> await_ready mb = Inr (ms \<noteq> [])"
  by (auto simp: mb_holds_def await_ready_def mq_contents_def can_dequeue_rep)

lemma mail_box_new_holds:
  assumes "mail_box_new sz = Inr mb" "2 \<le> unat sz" "unat (mq_size (mb_mailbox mb)) + b < index_limit"
  shows "mb_holds (unat (mq_size (mb_mailbox mb))) b [] mb"
proof -
  have "mail_queue_new sz = Inr (mb_mailbox mb)"
    using assms(1) by (auto simp: mail_box_new_def res_bind_Inr_iff)
  then have "mq_rep (unat (mq_size (mb_mailbox mb))) 0 [] (mb_mailbox mb)"
    using mail_queue_new_rep assms(2,3) by simp
  then show ?thesis using assms(3) by (auto simp: mb_holds_def mq_contents_def)
qed

lemma wake_consumer_holds:
  "wake_consumer frames mb = Inr (mb', hs) \<Longrightarrow> mb_holds n b ms mb' = mb_holds n b ms mb \<and> mb_scheduled mb'"
  by (auto simp: wake_consumer_def Let_def res_bind_Inr_iff split: if_splits option.splits)

text \<open>
  The frame a sleeping consumer is bound to still exists; the handle a successful \<^verbatim>\<open>Send\<close> puts
  into the scheduler.
\<close>

definition consumer_ok :: "coro_table \<Rightarrow> mail_box \<Rightarrow> bool" where
  "consumer_ok frames mb \<longleftrightarrow>
     mb_scheduled mb \<or> (case mb_consumer mb of None \<Rightarrow> True | Some h \<Rightarrow> frames h \<noteq> None)"

definition woken :: "coro_table \<Rightarrow> mail_box \<Rightarrow> handle list" where
  "woken frames mb =
     (if mb_scheduled mb then []
      else case mb_consumer mb of None \<Rightarrow> [] | Some h \<Rightarrow> if frames h = Some False then [h] else [])"

lemma wake_consumer_result:
  "consumer_ok frames mb \<Longrightarrow> wake_consumer frames mb = Inr (mb\<lparr>mb_scheduled := True\<rparr>, woken frames mb)"
  by (cases "mb_consumer mb") (auto simp: wake_consumer_def Let_def coro_done_def consumer_ok_def woken_def)

lemma consumer_ok_mailbox [simp]:
  "consumer_ok frames (mb\<lparr>mb_mailbox := q\<rparr>) = consumer_ok frames mb"
  "woken frames (mb\<lparr>mb_mailbox := q\<rparr>) = woken frames mb"
  by (simp_all add: consumer_ok_def woken_def)

lemma Send_room:
  assumes "mb_holds n (Suc b) ms mb" "length ms < n" "consumer_ok frames mb"
  shows "\<exists>mb'. Send frames m mb st = Some (Inr (mb', st, woken frames mb))
           \<and> mb_holds n b (ms @ [m]) mb' \<and> mb_scheduled mb' \<and> mb_consumer mb' = mb_consumer mb
           \<and> mb_discarded_nr mb' = mb_discarded_nr mb \<and> mb_solved_nr mb' = mb_solved_nr mb"
proof -
  obtain q' where q': "try_enqueue m (mb_mailbox mb) = Some (Inr (True, q'))" "mq_contents n b (ms @ [m]) q'"
    using mail_fifo.enq_room assms(1,2) unfolding mb_holds_def by blast
  then show ?thesis
    using wake_consumer_result [of frames "mb\<lparr>mb_mailbox := q'\<rparr>"] assms(3)
    by (simp add: Send_def run_simps run_ret_def mb_holds_def)
qed

lemma Send_full:
  assumes "mb_holds n (Suc b) ms mb" "length ms = n" "release_ptr m st = Inr st'"
  shows "\<exists>mb'. Send frames m mb st = Some (Inr (mb', st', [])) \<and> mb_holds n b ms mb'
           \<and> mb_discarded_nr mb' = mb_discarded_nr mb + 1 \<and> mb_scheduled mb' = mb_scheduled mb
           \<and> mb_consumer mb' = mb_consumer mb \<and> mb_solved_nr mb' = mb_solved_nr mb"
proof -
  obtain q' where "try_enqueue m (mb_mailbox mb) = Some (Inr (False, q'))" "mq_contents n b ms q'"
    using mail_fifo.enq_full assms(1,2) unfolding mb_holds_def by blast
  then show ?thesis using assms(3) by (simp add: Send_def run_simps run_ret_def mb_holds_def)
qed

lemma mb_holds_length: "mb_holds n b ms mb \<Longrightarrow> length ms \<le> n"
  unfolding mb_holds_def by (rule mail_fifo.rep_length)

lemma try_receive_holds:
  assumes "mb_holds n (Suc b) ms mb"
  shows "\<exists>mb'. try_receive mb = Some (Inr (if ms = [] then None else Some (Some (hd ms)), mb'))
           \<and> mb_holds n b (tl ms) mb' \<and> mb_scheduled mb' = mb_scheduled mb \<and> mb_consumer mb' = mb_consumer mb
           \<and> mb_solved_nr mb' = (if ms = [] then mb_solved_nr mb else mb_solved_nr mb + 1)"
proof -
  obtain q' where "try_dequeue (mb_mailbox mb) = Some (Inr (if ms = [] then None else Some (Some (hd ms)), q'))"
    "mq_contents n b (tl ms) q'"
    using mail_fifo.dequeue_step assms unfolding mb_holds_def by blast
  then show ?thesis by (cases ms) (simp_all add: try_receive_def run_simps run_ret_def mb_holds_def)
qed

text \<open>Releasing each of a list of messages once.\<close>

fun release_all :: "addr list \<Rightarrow> msg_store \<Rightarrow> msg_store res" where
  "release_all [] st = Inr st"
| "release_all (m # ms) st = res_bind (release_ptr m st) (release_all ms)"

section \<open>Properties\<close>

text \<open>
  C23. Sending into a mailbox of capacity \<open>n\<close> that holds \<open>ms\<close>: the call returns without a fault. With
  room, the message becomes the newest one, the mailbox counts as scheduled, and the consumer is
  handed to the scheduler exactly when it was asleep, bound and not finished. When the mailbox is
  full, nothing in it changes, the sender's reference is released and the discard counter grows.
\<close>

theorem Send_delivers_or_drops:
  assumes "mb_holds n (Suc b) ms mb" "consumer_ok frames mb" "release_ptr m st = Inr st'"
  shows "\<exists>mb'. (if length ms < n
             then Send frames m mb st = Some (Inr (mb', st, woken frames mb))
                  \<and> mb_holds n b (ms @ [m]) mb' \<and> mb_scheduled mb'
                  \<and> mb_discarded_nr mb' = mb_discarded_nr mb
             else Send frames m mb st = Some (Inr (mb', st', []))
                  \<and> mb_holds n b ms mb' \<and> mb_scheduled mb' = mb_scheduled mb
                  \<and> mb_discarded_nr mb' = mb_discarded_nr mb + 1)
         \<and> mb_consumer mb' = mb_consumer mb \<and> mb_solved_nr mb' = mb_solved_nr mb"
proof (cases "length ms < n")
  case True
  then show ?thesis using Send_room [OF assms(1) True assms(2)] by auto
next
  case False
  then have "length ms = n" using mb_holds_length [OF assms(1)] by simp
  then show ?thesis using Send_full [OF assms(1) _ assms(3)] False by auto
qed

text \<open>A mailbox for two messages, with its consumer asleep.\<close>

definition sleeping_box :: mail_box where
  "sleeping_box =
     \<lparr>mb_discarded_nr = 0, mb_solved_nr = 0, mb_consumer = Some 7, mb_scheduled = False,
      mb_mailbox = \<lparr>mq_write_index = 0, mq_read_index = 0,
         mq_queue = [\<lparr>slot_sequence = 0, slot_message = None\<rparr>, \<lparr>slot_sequence = 1, slot_message = None\<rparr>],
         mq_size = 2, mq_mask = 1\<rparr>\<rparr>"

lemma sleeping_box_new:
  "mail_box_new 2 = Inr (sleeping_box\<lparr>mb_consumer := None\<rparr>)"
  by code_simp

lemma sleeping_box_holds: "mb_holds 2 (Suc b) [] sleeping_box" if "b < 100"
proof -
  have "mb_holds (unat (mq_size (mb_mailbox (sleeping_box\<lparr>mb_consumer := None\<rparr>)))) (Suc b) []
      (sleeping_box\<lparr>mb_consumer := None\<rparr>)"
    using that by (intro mail_box_new_holds [OF sleeping_box_new]) (simp_all add: sleeping_box_def)
  then show ?thesis by (simp add: sleeping_box_def mb_holds_def)
qed

theorem Send_delivers_or_drops_witness:
  "\<exists>mb'. Send [7 \<mapsto> False] 0 sleeping_box demo_store = Some (Inr (mb', demo_store, [7])) \<and> mb_scheduled mb'"
proof -
  have "consumer_ok [7 \<mapsto> False] sleeping_box" "woken [7 \<mapsto> False] sleeping_box = [7]"
    by (simp_all add: consumer_ok_def woken_def sleeping_box_def)
  moreover obtain st' where "release_ptr 0 demo_store = Inr st'"
    by (simp add: demo_store_def new_message_def empty_store_def msg_simps)
  ultimately show ?thesis
    using Send_delivers_or_drops [OF sleeping_box_holds [of 0], of "[7 \<mapsto> False]" 0 demo_store st'] by auto
qed

text \<open>
  C31. The destructor gives back every message still in the mailbox: with more rounds allowed than
  messages held, its loop ends, and it has released each of them once, oldest first.
\<close>

theorem mail_box_drain_releases:
  assumes "mb_holds n (Suc (length ms) + b) ms mb" "length ms < fuel" "release_all ms st = Inr st'"
  shows "\<exists>mb'. mail_box_drain fuel mb st = Some (Inr (mb', st')) \<and> mb_holds n b [] mb'"
  using assms
proof (induction ms arbitrary: mb st fuel)
  case Nil
  then obtain f where f: "fuel = Suc f" by (cases fuel) auto
  obtain q' where "try_dequeue (mb_mailbox mb) = Some (Inr (None, q'))" "mq_contents n b [] q'"
    using mail_fifo.deq_empty [of n b] Nil.prems(1) unfolding mb_holds_def by auto
  then show ?case using Nil.prems(3) f by (simp add: run_simps run_ret_def mb_holds_def)
next
  case (Cons m ms)
  then obtain f where f: "fuel = Suc f" "length ms < f" by (cases fuel) auto
  obtain q' where q': "try_dequeue (mb_mailbox mb) = Some (Inr (Some (Some m), q'))"
    "mq_contents n (Suc (length ms) + b) ms q'"
    using mail_fifo.deq_next [of n "Suc (length ms) + b" m ms "mb_mailbox mb"] Cons.prems(1)
    unfolding mb_holds_def by auto
  obtain st1 where st1: "release_ptr m st = Inr st1" "release_all ms st1 = Inr st'"
    using Cons.prems(3) by (auto simp: res_bind_Inr_iff)
  then obtain p where "event_message_release (Some (Some m)) st = Inr (p, st1)"
    by (auto simp: release_ptr_def res_bind_Inr_iff)
  then show ?case
    using Cons.IH [of "mb\<lparr>mb_mailbox := q'\<rparr>" f st1] q' st1(2) f by (simp add: run_simps mb_holds_def)
qed

theorem mail_box_drain_releases_witness:
  "\<exists>mb mb' st st'. Send [7 \<mapsto> False] 0 sleeping_box demo_store = Some (Inr (mb, st, [7]))
     \<and> mail_box_drain 5 mb st = Some (Inr (mb', st')) \<and> mb_holds 2 0 [] mb'"
proof -
  have "consumer_ok [7 \<mapsto> False] sleeping_box" "woken [7 \<mapsto> False] sleeping_box = [7]"
    by (simp_all add: consumer_ok_def woken_def sleeping_box_def)
  then obtain mb where mb: "Send [7 \<mapsto> False] 0 sleeping_box demo_store = Some (Inr (mb, demo_store, [7]))"
    "mb_holds 2 2 ([] @ [0]) mb"
    using Send_room [OF sleeping_box_holds [of 2], of "[7 \<mapsto> False]" 0 demo_store] by auto
  obtain st' where st': "release_ptr 0 demo_store = Inr st'"
    by (simp add: demo_store_def new_message_def empty_store_def msg_simps)
  have "mb_holds 2 (Suc (length [0 :: nat]) + 0) [0] mb" "release_all [0] demo_store = Inr st'"
    using mb(2) st' by (simp_all add: numeral_2_eq_2)
  then show ?thesis using mail_box_drain_releases [of 2 "[0]" 0 mb 5 demo_store st'] mb(1) by auto
qed

end
