(* ===== verification/Mail_Box_Protocol.thy ===== *)
theory Mail_Box_Protocol
  imports Mail_Box Schedules
begin

text \<open>
  The sleeping and waking of a mailbox's consumer coroutine, with any number of threads inside
  \<^verbatim>\<open>MailBox::Send\<close> at the same time. \<^verbatim>\<open>scheduled_\<close> acts as a token: whoever turns it from false to true
  is the one to resume the consumer, and the running consumer gives it up when it goes to sleep. The
  queue operations are the step machines of theory \<open>Mail_Queue\<close>; every shared access is one step.
\<close>

section \<open>The threads\<close>

text \<open>
  A thread inside \<^verbatim>\<open>Send\<close>: in \<^verbatim>\<open>try_enqueue\<close> (whose successful return is followed by the exchange on
  \<^verbatim>\<open>scheduled_\<close>), about to count a dropped message, to load \<^verbatim>\<open>consumer_\<close>, to ask \<^verbatim>\<open>done()\<close>, to call
  \<^verbatim>\<open>Enqueue\<close>.
\<close>

datatype sender_pc = SIdle | SEnq addr enq_pc | SDrop | SLoad | SCheck handle | SSchedule handle

text \<open>
  The consumer while it is executing: before \<^verbatim>\<open>MarkRunning\<close>, in its own code, in \<^verbatim>\<open>try_receive\<close>, in
  \<^verbatim>\<open>await_ready\<close>, about to store \<^verbatim>\<open>consumer_\<close>, about to clear \<^verbatim>\<open>scheduled_\<close>.
\<close>

datatype consumer_pc = CMark | CBody | CRecv deq_pc | CReady | CStore | CClear

text \<open>
  The rest of \<^verbatim>\<open>await_suspend\<close> after \<^verbatim>\<open>scheduled_\<close> has been cleared. The coroutine counts as suspended by
  then, so another thread may resume it while this one still looks at the queue again: load the
  read index, load the slot's sequence, exchange \<^verbatim>\<open>scheduled_\<close>.
\<close>

datatype recheck_pc = RLoad | RSeq size_t | RTry

record mp_sys =
  mp_mb :: mail_box
  mp_store :: msg_store
  mp_senders :: "sender_pc list"
  mp_cons :: "consumer_pc option"
  mp_rechecks :: "recheck_pc list"
  mp_queued :: nat
  mp_started :: bool
  mp_alive :: bool

text \<open>The coroutine frame; there is one.\<close>

definition the_frame :: handle where
  "the_frame = 1"

text \<open>
  A start as the class comment asks for it (the consumer bound by \<^verbatim>\<open>ArmConsumer\<close> before it is enqueued for
  the first time), and the start of a module actor, whose mailbox is not armed.
\<close>

definition armed_start :: "mail_box \<Rightarrow> msg_store \<Rightarrow> nat \<Rightarrow> mp_sys" where
  "armed_start mb st n =
     \<lparr>mp_mb = ArmConsumer the_frame mb, mp_store = st, mp_senders = replicate n SIdle, mp_cons = None,
      mp_rechecks = [], mp_queued = 1, mp_started = False, mp_alive = True\<rparr>"

definition unarmed_start :: "mail_box \<Rightarrow> msg_store \<Rightarrow> nat \<Rightarrow> mp_sys" where
  "unarmed_start mb st n = (armed_start mb st n)\<lparr>mp_mb := mb\<rparr>"

section \<open>Steps\<close>

text \<open>A thread executes the coroutine: undefined when its frame is gone or it is already running.\<close>

definition resume :: "consumer_pc \<Rightarrow> mp_sys \<Rightarrow> mp_sys res" where
  "resume pc s =
     (if \<not> mp_alive s then Inl (UseAfterFree the_frame)
      else if mp_cons s \<noteq> None then Inl (DoubleResume the_frame)
      else Inr (s\<lparr>mp_cons := Some pc\<rparr>))"

definition set_sender :: "nat \<Rightarrow> sender_pc \<Rightarrow> mp_sys \<Rightarrow> mp_sys" where
  "set_sender i pc s = s\<lparr>mp_senders := (mp_senders s)[i := pc]\<rparr>"

fun sender_step :: "bool \<Rightarrow> nat \<Rightarrow> mp_sys \<Rightarrow> sender_pc \<Rightarrow> mp_sys res" where
  "sender_step spurious i s SIdle = Inr s"
| "sender_step spurious i s (SEnq m (EnqRet True)) =
     Inr (if mb_scheduled (mp_mb s) then set_sender i SIdle s
          else set_sender i SLoad (s\<lparr>mp_mb := (mp_mb s)\<lparr>mb_scheduled := True\<rparr>\<rparr>))"
| "sender_step spurious i s (SEnq m (EnqRet False)) =
     res_bind (release_ptr m (mp_store s)) (\<lambda>st. Inr (set_sender i SDrop (s\<lparr>mp_store := st\<rparr>)))"
| "sender_step spurious i s (SEnq m pc) =
     res_bind (enq_step spurious m (mb_mailbox (mp_mb s)) pc)
       (\<lambda>(q, pc'). Inr (set_sender i (SEnq m pc') (s\<lparr>mp_mb := (mp_mb s)\<lparr>mb_mailbox := q\<rparr>\<rparr>)))"
| "sender_step spurious i s SDrop =
     Inr (set_sender i SIdle (s\<lparr>mp_mb := (mp_mb s)\<lparr>mb_discarded_nr := mb_discarded_nr (mp_mb s) + 1\<rparr>\<rparr>))"
| "sender_step spurious i s SLoad =
     Inr (set_sender i (case mb_consumer (mp_mb s) of None \<Rightarrow> SIdle | Some h \<Rightarrow> SCheck h) s)"
| "sender_step spurious i s (SCheck h) =
     (if mp_alive s then Inr (set_sender i (SSchedule h) s) else Inl (UseAfterFree the_frame))"
| "sender_step spurious i s (SSchedule h) =
     Inr (set_sender i SIdle (s\<lparr>mp_queued := Suc (mp_queued s)\<rparr>))"

fun consumer_step :: "mp_sys \<Rightarrow> consumer_pc \<Rightarrow> mp_sys res" where
  "consumer_step s CMark = Inr (s\<lparr>mp_mb := MarkRunning (mp_mb s), mp_cons := Some CBody\<rparr>)"
| "consumer_step s CBody = Inr s"
| "consumer_step s (CRecv (DeqRet r)) =
     Inr (s\<lparr>mp_cons := Some CBody,
            mp_mb := (if r \<noteq> None then (mp_mb s)\<lparr>mb_solved_nr := mb_solved_nr (mp_mb s) + 1\<rparr> else mp_mb s)\<rparr>)"
| "consumer_step s (CRecv pc) =
     res_bind (deq_step (mb_mailbox (mp_mb s)) pc)
       (\<lambda>(q, pc'). Inr (s\<lparr>mp_mb := (mp_mb s)\<lparr>mb_mailbox := q\<rparr>, mp_cons := Some (CRecv pc')\<rparr>))"
| "consumer_step s CReady =
     res_bind (await_ready (mp_mb s)) (\<lambda>ready. Inr (s\<lparr>mp_cons := Some (if ready then CBody else CStore)\<rparr>))"
| "consumer_step s CStore =
     Inr (s\<lparr>mp_mb := (mp_mb s)\<lparr>mb_consumer := Some the_frame\<rparr>, mp_cons := Some CClear\<rparr>)"
| "consumer_step s CClear =
     Inr (s\<lparr>mp_mb := (mp_mb s)\<lparr>mb_scheduled := False\<rparr>, mp_cons := None, mp_rechecks := mp_rechecks s @ [RLoad]\<rparr>)"

text \<open>
  The awaiter lives in the coroutine frame, so each of these accesses goes through it. Winning the
  exchange makes \<^verbatim>\<open>await_suspend\<close> return false, which resumes the coroutine on this thread.
\<close>

fun recheck_step :: "nat \<Rightarrow> mp_sys \<Rightarrow> recheck_pc \<Rightarrow> mp_sys res" where
  "recheck_step j s RLoad =
     (if mp_alive s
      then Inr (s\<lparr>mp_rechecks := (mp_rechecks s)[j := RSeq (mq_read_index (mb_mailbox (mp_mb s)))]\<rparr>)
      else Inl (UseAfterFree the_frame))"
| "recheck_step j s (RSeq read_idx) =
     res_bind (ptrdiff_sub (slot_sequence (mq_slot (mb_mailbox (mp_mb s)) read_idx)) (read_idx + 1))
       (\<lambda>diff. Inr (s\<lparr>mp_rechecks :=
          (if diff \<ge> 0 then (mp_rechecks s)[j := RTry] else drop_nth j (mp_rechecks s))\<rparr>))"
| "recheck_step j s RTry =
     (if \<not> mp_alive s then Inl (UseAfterFree the_frame)
      else let won = \<not> mb_scheduled (mp_mb s);
               s' = s\<lparr>mp_mb := (mp_mb s)\<lparr>mb_scheduled := True\<rparr>, mp_rechecks := drop_nth j (mp_rechecks s)\<rparr>
           in if won then resume CBody s' else Inr s')"

datatype mp_action =
    SendCall nat addr | SendStep nat bool | RunNext | RecvCall | WaitCall | Return | ConsumerStep | RecheckStep nat

fun mp_act :: "mp_action \<Rightarrow> mp_sys \<Rightarrow> mp_sys res" where
  "mp_act (SendCall i m) s =
     Inr (if i < length (mp_senders s) \<and> mp_senders s ! i = SIdle then set_sender i (SEnq m EnqStart) s else s)"
| "mp_act (SendStep i spurious) s =
     (if i < length (mp_senders s) then sender_step spurious i s (mp_senders s ! i) else Inr s)"
| "mp_act RunNext s =
     (if mp_queued s = 0 then Inr s
      else resume (if mp_started s then CBody else CMark)
             (s\<lparr>mp_queued := mp_queued s - 1, mp_started := True\<rparr>))"
| "mp_act RecvCall s = Inr (if mp_cons s = Some CBody then s\<lparr>mp_cons := Some (CRecv DeqStart)\<rparr> else s)"
| "mp_act WaitCall s = Inr (if mp_cons s = Some CBody then s\<lparr>mp_cons := Some CReady\<rparr> else s)"
| "mp_act Return s =
     Inr (if mp_cons s = Some CBody then s\<lparr>mp_cons := None, mp_alive := False\<rparr> else s)"
| "mp_act ConsumerStep s = (case mp_cons s of None \<Rightarrow> Inr s | Some pc \<Rightarrow> consumer_step s pc)"
| "mp_act (RecheckStep j) s =
     (if j < length (mp_rechecks s) then recheck_step j s (mp_rechecks s ! j) else Inr s)"

fun mp_run :: "mp_action list \<Rightarrow> mp_sys \<Rightarrow> mp_sys res" where
  "mp_run [] s = Inr s"
| "mp_run (a # acts) s = res_bind (mp_act a s) (mp_run acts)"

interpretation mailbox_threads: faulting_schedules mp_act mp_run
  by unfold_locales simp_all

section \<open>The token\<close>

fun holds_token :: "sender_pc \<Rightarrow> bool" where
  "holds_token SLoad = True"
| "holds_token (SCheck h) = True"
| "holds_token (SSchedule h) = True"
| "holds_token _ = False"

text \<open>Who may resume the consumer, is executing it, or has ended it.\<close>

definition tokens :: "mp_sys \<Rightarrow> nat" where
  "tokens s =
     (if mp_cons s \<noteq> None then 1 else 0) + mp_queued s + length (filter holds_token (mp_senders s))
     + (if mp_alive s then 0 else 1)"

definition token_inv :: "mp_sys \<Rightarrow> bool" where
  "token_inv s \<longleftrightarrow>
     mb_consumer (mp_mb s) = Some the_frame \<and> tokens s = (if mb_scheduled (mp_mb s) then 1 else 0)"

text \<open>A look at the queue that will still notice a message at its head.\<close>

fun useful :: "mail_queue \<Rightarrow> recheck_pc \<Rightarrow> bool" where
  "useful q RLoad = True"
| "useful q (RSeq r) = (r = mq_read_index q)"
| "useful q RTry = True"

definition about_to_wake :: "mp_sys \<Rightarrow> bool" where
  "about_to_wake s \<longleftrightarrow>
     (\<exists>m. SEnq m (EnqRet True) \<in> set (mp_senders s)) \<or>
     (\<exists>r\<in>set (mp_rechecks s). useful (mb_mailbox (mp_mb s)) r)"

definition wake_inv :: "mp_sys \<Rightarrow> bool" where
  "wake_inv s \<longleftrightarrow>
     mb_scheduled (mp_mb s) \<or> await_ready (mp_mb s) \<noteq> Inr True \<or> about_to_wake s"

definition mp_inv :: "mp_sys \<Rightarrow> bool" where
  "mp_inv s \<longleftrightarrow> token_inv s \<and> wake_inv s"

lemma mp_inv_start: "mp_inv (armed_start mb st n)"
  by (simp add: mp_inv_def token_inv_def wake_inv_def tokens_def armed_start_def ArmConsumer_def)

lemma tokens_set_sender:
  assumes "i < length (mp_senders s)" "holds_token pc = holds_token (mp_senders s ! i)"
  shows "tokens (set_sender i pc s) = tokens s"
  using length_filter_update [OF assms(1), of holds_token pc] assms(2)
  by (simp add: tokens_def set_sender_def split: if_splits)

lemma tokens_gain:
  assumes "i < length (mp_senders s)" "holds_token pc" "\<not> holds_token (mp_senders s ! i)"
  shows "tokens (set_sender i pc s) = Suc (tokens s)"
  using length_filter_update [OF assms(1), of holds_token pc] assms(2,3)
  by (simp add: tokens_def set_sender_def)

lemma tokens_lose:
  assumes "i < length (mp_senders s)" "\<not> holds_token pc" "holds_token (mp_senders s ! i)"
  shows "Suc (tokens (set_sender i pc s)) = tokens s"
  using length_filter_update [OF assms(1), of holds_token pc] assms(2,3)
  by (simp add: tokens_def set_sender_def)

lemma token_inv_idle:
  assumes "token_inv s" "\<not> mb_scheduled (mp_mb s)"
  shows "mp_cons s = None" "mp_queued s = 0" "mp_alive s" "pc \<in> set (mp_senders s) \<Longrightarrow> \<not> holds_token pc"
  using assms by (auto simp: token_inv_def tokens_def filter_empty_conv split: if_splits)

text \<open>While one thread holds the token nobody else can be executing the consumer.\<close>

lemma token_inv_exclusive:
  assumes "token_inv s" "0 < mp_queued s \<or> (\<exists>pc\<in>set (mp_senders s). holds_token pc)"
  shows "mp_cons s = None" "mp_alive s"
proof -
  have "tokens s \<le> 1" using assms(1) by (simp add: token_inv_def)
  moreover have "0 < mp_queued s + length (filter holds_token (mp_senders s))"
    using assms(2) by (auto simp: filter_empty_conv)
  ultimately show "mp_cons s = None" "mp_alive s"
    by (auto simp: tokens_def split: if_splits)
qed

section \<open>Senders\<close>

lemma nth_update_same:
  "f (g (xs ! i)) = f (xs ! i) \<Longrightarrow> f (xs[i := g (xs ! i)] ! j) = f (xs ! j)"
  by (cases "i = j"; cases "i < length xs") (simp_all add: list_update_beyond)

lemma mq_slot_set_message:
  "slot_sequence (mq_slot (mq_set_slot q w ((mq_slot q w)\<lparr>slot_message := m\<rparr>)) r) = slot_sequence (mq_slot q r)"
proof -
  have "slot_pos (mq_set_slot q w x) r = slot_pos q r" for x by (simp add: slot_pos_def)
  then show ?thesis
    using nth_update_same [of slot_sequence "\<lambda>sl. sl\<lparr>slot_message := m\<rparr>" "mq_queue q" "slot_pos q w" "slot_pos q r"]
    by (simp add: mq_slot_def)
qed

text \<open>Only the publication of a message changes what \<^verbatim>\<open>can_dequeue\<close> sees.\<close>

lemma enq_step_sequence:
  assumes "enq_step sp m q pc = Inr (q', pc')" "pc' \<noteq> EnqRet True"
  shows "slot_sequence (mq_slot q' r) = slot_sequence (mq_slot q r) \<and> mq_read_index q' = mq_read_index q"
proof (cases pc)
  case (EnqCas w)
  then show ?thesis using assms by (auto simp: mq_slot_def slot_pos_def split: if_splits)
next
  case (EnqMsg w)
  then show ?thesis using assms mq_slot_set_message [of q w "Some m" r] by auto
qed (use assms in \<open>auto simp: res_bind_Inr_iff\<close>)

lemma enq_step_can_dequeue:
  assumes "enq_step sp m q pc = Inr (q', pc')" "pc' \<noteq> EnqRet True"
  shows "can_dequeue q' = can_dequeue q"
  using enq_step_sequence [OF assms] by (simp add: can_dequeue_def)

lemma enq_step_read_index: "enq_step sp m q pc = Inr (q', pc') \<Longrightarrow> mq_read_index q' = mq_read_index q"
  by (cases pc) (auto simp: res_bind_Inr_iff split: if_splits)

lemma in_set_update: "x \<in> set xs \<Longrightarrow> x \<noteq> xs ! i \<Longrightarrow> x \<in> set (xs[i := y])"
  by (metis in_set_conv_nth length_list_update nth_list_update_neq)

lemma useful_cong: "mq_read_index q' = mq_read_index q \<Longrightarrow> useful q' r = useful q r"
  by (cases r) auto

lemma wake_inv_sender:
  assumes "wake_inv s" "mb_scheduled (mp_mb s') = mb_scheduled (mp_mb s)"
    and "can_dequeue (mb_mailbox (mp_mb s')) = can_dequeue (mb_mailbox (mp_mb s))"
    and "mq_read_index (mb_mailbox (mp_mb s')) = mq_read_index (mb_mailbox (mp_mb s))"
    and "mp_rechecks s' = mp_rechecks s" "mp_senders s' = (mp_senders s)[i := pc]"
    and "\<And>m. mp_senders s ! i \<noteq> SEnq m (EnqRet True)"
  shows "wake_inv s'"
proof -
  have "about_to_wake s'" if "about_to_wake s"
    using that assms(4-7) in_set_update [of _ "mp_senders s" i pc] useful_cong [OF assms(4)]
    unfolding about_to_wake_def by (metis (no_types, lifting))
  then show ?thesis using assms(1-3) by (auto simp: wake_inv_def await_ready_def)
qed

lemma token_inv_sender:
  assumes "token_inv s" "i < length (mp_senders s)" "holds_token pc = holds_token (mp_senders s ! i)"
    and "mp_senders s' = (mp_senders s)[i := pc]" "mp_cons s' = mp_cons s" "mp_queued s' = mp_queued s"
    and "mp_alive s' = mp_alive s" "mb_scheduled (mp_mb s') = mb_scheduled (mp_mb s)"
    and "mb_consumer (mp_mb s') = mb_consumer (mp_mb s)"
  shows "token_inv s'"
proof -
  have "tokens s' = tokens (set_sender i pc s)" using assms(4-7) by (simp add: tokens_def set_sender_def)
  then show ?thesis using tokens_set_sender [OF assms(2,3)] assms(1,8,9) by (simp add: token_inv_def)
qed

lemma sender_enq_inv:
  assumes inv: "mp_inv s" and i: "i < length (mp_senders s)" and pc: "mp_senders s ! i = SEnq m pc"
    and run: "\<And>b. pc \<noteq> EnqRet b" and st: "enq_step sp m (mb_mailbox (mp_mb s)) pc = Inr (q, pc')"
  shows "mp_inv (set_sender i (SEnq m pc') (s\<lparr>mp_mb := (mp_mb s)\<lparr>mb_mailbox := q\<rparr>\<rparr>))" (is "mp_inv ?s")
proof -
  have "token_inv s" using inv by (simp add: mp_inv_def)
  then have tok: "token_inv ?s"
    by (rule token_inv_sender [OF _ i, of "SEnq m pc'"]) (simp_all add: pc set_sender_def)
  show ?thesis
  proof (cases "pc' = EnqRet True")
    case True
    then have "SEnq m (EnqRet True) \<in> set (mp_senders ?s)"
      using set_update_memI [OF i, of "SEnq m pc'"] by (simp add: set_sender_def)
    then have "about_to_wake ?s" unfolding about_to_wake_def by blast
    then show ?thesis using tok by (simp add: mp_inv_def wake_inv_def)
  next
    case False
    have "wake_inv ?s"
    proof (rule wake_inv_sender [of s ?s i "SEnq m pc'"])
      show "wake_inv s" using inv by (simp add: mp_inv_def)
      show "mp_senders s ! i \<noteq> SEnq m' (EnqRet True)" for m' using pc run by simp
    qed (simp_all add: set_sender_def enq_step_can_dequeue [OF st False] enq_step_read_index [OF st])
    then show ?thesis using tok by (simp add: mp_inv_def)
  qed
qed

text \<open>The exchange after a published message.\<close>

lemma sender_wins_inv:
  assumes inv: "mp_inv s" and i: "i < length (mp_senders s)" and pc: "mp_senders s ! i = SEnq m (EnqRet True)"
    and st: "sender_step sp i s (SEnq m (EnqRet True)) = Inr s'"
  shows "mp_inv s'"
proof (cases "mb_scheduled (mp_mb s)")
  case True
  then have s': "s' = set_sender i SIdle s" using st by simp
  have "token_inv s" using inv by (simp add: mp_inv_def)
  then have "token_inv s'" by (rule token_inv_sender [OF _ i, of SIdle]) (simp_all add: s' set_sender_def pc)
  then show ?thesis using True by (simp add: mp_inv_def wake_inv_def s' set_sender_def)
next
  case False
  let ?s = "s\<lparr>mp_mb := (mp_mb s)\<lparr>mb_scheduled := True\<rparr>\<rparr>"
  have s': "s' = set_sender i SLoad ?s" using st False by simp
  have "tokens s' = Suc (tokens ?s)" using tokens_gain [of i ?s SLoad] i pc by (simp add: s')
  moreover have "tokens ?s = tokens s" by (simp add: tokens_def)
  moreover have "mb_scheduled (mp_mb s')" "mb_consumer (mp_mb s') = mb_consumer (mp_mb s)"
    by (simp_all add: s' set_sender_def)
  ultimately show ?thesis using inv False by (simp add: mp_inv_def wake_inv_def token_inv_def)
qed

lemma sender_step_inv:
  assumes inv: "mp_inv s" and i: "i < length (mp_senders s)"
    and st: "sender_step sp i s (mp_senders s ! i) = Inr s'"
  shows "mp_inv s'"
proof -
  have tok: "token_inv s" and wake: "wake_inv s" using inv by (simp_all add: mp_inv_def)
  have plain: "mp_inv (set_sender i pc s1)"
    if "mp_senders s1 = mp_senders s" "mp_cons s1 = mp_cons s" "mp_queued s1 = mp_queued s"
      "mp_alive s1 = mp_alive s" "mp_rechecks s1 = mp_rechecks s"
      "mb_scheduled (mp_mb s1) = mb_scheduled (mp_mb s)" "mb_consumer (mp_mb s1) = mb_consumer (mp_mb s)"
      "mb_mailbox (mp_mb s1) = mb_mailbox (mp_mb s)"
      "holds_token pc = holds_token (mp_senders s ! i)" "\<And>m. mp_senders s ! i \<noteq> SEnq m (EnqRet True)"
    for s1 pc
    unfolding mp_inv_def
  proof
    show "token_inv (set_sender i pc s1)"
      by (rule token_inv_sender [OF tok i, of pc]) (simp_all add: that set_sender_def)
    show "wake_inv (set_sender i pc s1)"
      by (rule wake_inv_sender [OF wake, of _ i pc]) (simp_all add: that set_sender_def)
  qed
  show ?thesis
  proof (cases "mp_senders s ! i")
    case (SEnq m pc)
    show ?thesis
    proof (cases "\<exists>b. pc = EnqRet b")
      case False
      then have "sender_step sp i s (SEnq m pc) =
          res_bind (enq_step sp m (mb_mailbox (mp_mb s)) pc)
            (\<lambda>(q, pc'). Inr (set_sender i (SEnq m pc') (s\<lparr>mp_mb := (mp_mb s)\<lparr>mb_mailbox := q\<rparr>\<rparr>)))"
        by (cases pc) auto
      then obtain q pc' where "enq_step sp m (mb_mailbox (mp_mb s)) pc = Inr (q, pc')"
        "s' = set_sender i (SEnq m pc') (s\<lparr>mp_mb := (mp_mb s)\<lparr>mb_mailbox := q\<rparr>\<rparr>)"
        using st SEnq by (auto simp: res_bind_Inr_iff)
      then show ?thesis using sender_enq_inv [OF inv i SEnq] False by blast
    next
      case True
      then obtain b where b: "pc = EnqRet b" by blast
      show ?thesis
      proof (cases b)
        case False
        then obtain st' where "s' = set_sender i SDrop (s\<lparr>mp_store := st'\<rparr>)"
          using st SEnq b by (auto simp: res_bind_Inr_iff)
        then show ?thesis using plain [of "s\<lparr>mp_store := st'\<rparr>" SDrop] SEnq b False by simp
      next
        case True
        then show ?thesis using sender_wins_inv [OF inv i, of m] st SEnq b by simp
      qed
    qed
  next
    case (SSchedule h)
    have s': "s' = set_sender i SIdle (s\<lparr>mp_queued := Suc (mp_queued s)\<rparr>)" using st SSchedule by simp
    have "Suc (tokens (set_sender i SIdle s)) = tokens s" using tokens_lose [OF i, of SIdle] SSchedule by simp
    moreover have "tokens s' = Suc (tokens (set_sender i SIdle s))" by (simp add: s' tokens_def set_sender_def)
    moreover have "mp_mb s' = mp_mb s" by (simp add: s' set_sender_def)
    ultimately show ?thesis using tok by (simp add: mp_inv_def wake_inv_def token_inv_def split: if_splits)
  next
    case SIdle
    then show ?thesis using st inv by simp
  next
    case SDrop
    then have "s' = set_sender i SIdle (s\<lparr>mp_mb := (mp_mb s)\<lparr>mb_discarded_nr := mb_discarded_nr (mp_mb s) + 1\<rparr>\<rparr>)"
      using st by simp
    then show ?thesis
      using plain [of "s\<lparr>mp_mb := (mp_mb s)\<lparr>mb_discarded_nr := mb_discarded_nr (mp_mb s) + 1\<rparr>\<rparr>" SIdle] SDrop
      by simp
  next
    case SLoad
    then have "s' = set_sender i (SCheck the_frame) s" using st tok by (simp add: token_inv_def)
    then show ?thesis using plain [of s "SCheck the_frame"] SLoad by simp
  next
    case (SCheck h)
    then have "s' = set_sender i (SSchedule h) s" using st by (simp split: if_splits)
    then show ?thesis using plain [of s "SSchedule h"] SCheck by simp
  qed
qed

section \<open>The consumer and its second look\<close>

lemma token_inv_running:
  assumes "token_inv s" "mp_cons s = Some pc"
  shows "mb_scheduled (mp_mb s)" "mp_alive s" "mp_queued s = 0"
  using assms by (auto simp: token_inv_def tokens_def split: if_splits)

lemma running_inv:
  assumes "token_inv s" "mp_cons s = Some pc" "mp_cons s' = Some pc'" "mp_senders s' = mp_senders s"
    and "mp_queued s' = mp_queued s" "mp_alive s' = mp_alive s" "mb_scheduled (mp_mb s')"
    and "mb_consumer (mp_mb s') = Some the_frame"
  shows "mp_inv s'"
  using assms token_inv_running [OF assms(1,2)]
  by (simp add: mp_inv_def wake_inv_def token_inv_def tokens_def)

lemma consumer_step_inv:
  assumes inv: "mp_inv s" and c: "mp_cons s = Some pc" and st: "consumer_step s pc = Inr s'"
  shows "mp_inv s'"
proof -
  have tok: "token_inv s" using inv by (simp add: mp_inv_def)
  note run = token_inv_running [OF tok c]
  have con: "mb_consumer (mp_mb s) = Some the_frame" using tok by (simp add: token_inv_def)
  show ?thesis
  proof (cases "pc = CClear")
    case True
    then have "s' = s\<lparr>mp_mb := (mp_mb s)\<lparr>mb_scheduled := False\<rparr>, mp_cons := None, mp_rechecks := mp_rechecks s @ [RLoad]\<rparr>"
      using st by simp
    then show ?thesis
      using tok c run by (simp add: mp_inv_def token_inv_def tokens_def wake_inv_def about_to_wake_def)
  next
    case False
    have "(\<exists>pc'. mp_cons s' = Some pc') \<and> mp_senders s' = mp_senders s \<and> mp_queued s' = mp_queued s \<and>
      mp_alive s' = mp_alive s \<and> mb_scheduled (mp_mb s') \<and> mb_consumer (mp_mb s') = Some the_frame"
    proof (cases pc)
      case (CRecv d)
      then show ?thesis using st run(1) con by (cases d) (auto simp: res_bind_Inr_iff)
    qed (use st False run(1) con c in \<open>auto simp: res_bind_Inr_iff MarkRunning_def\<close>)
    then show ?thesis using running_inv [OF tok c] by auto
  qed
qed

lemma in_set_drop_nth: "x \<in> set xs \<Longrightarrow> x \<noteq> xs ! j \<Longrightarrow> j < length xs \<Longrightarrow> x \<in> set (drop_nth j xs)"
  using set_drop_nth [of j xs] by auto

lemma recheck_keep_inv:
  assumes "mp_inv s" "mp_cons s' = mp_cons s" "mp_senders s' = mp_senders s" "mp_queued s' = mp_queued s"
    and "mp_alive s' = mp_alive s" "mp_mb s' = mp_mb s"
    and "mb_scheduled (mp_mb s) \<or> await_ready (mp_mb s) \<noteq> Inr True \<or>
         (\<forall>r\<in>set (mp_rechecks s). useful (mb_mailbox (mp_mb s)) r \<longrightarrow>
            (\<exists>r'\<in>set (mp_rechecks s'). useful (mb_mailbox (mp_mb s)) r'))"
  shows "mp_inv s'"
proof -
  have "token_inv s'" using assms(1-6) by (simp add: mp_inv_def token_inv_def tokens_def)
  moreover have "wake_inv s'"
    using assms unfolding mp_inv_def wake_inv_def about_to_wake_def by metis
  ultimately show ?thesis by (simp add: mp_inv_def)
qed

lemma recheck_step_inv:
  assumes inv: "mp_inv s" and j: "j < length (mp_rechecks s)" and st: "recheck_step j s (mp_rechecks s ! j) = Inr s'"
  shows "mp_inv s'"
proof (cases "mp_rechecks s ! j")
  case RLoad
  then have s': "s' = s\<lparr>mp_rechecks := (mp_rechecks s)[j := RSeq (mq_read_index (mb_mailbox (mp_mb s)))]\<rparr>"
    using st by (simp split: if_splits)
  have "\<exists>r'\<in>set (mp_rechecks s'). useful (mb_mailbox (mp_mb s)) r'"
    unfolding s' using set_update_memI [OF j] by (intro bexI) auto
  then show ?thesis by (intro recheck_keep_inv [OF inv]) (simp_all add: s')
next
  case (RSeq r)
  then obtain d where d: "ptrdiff_sub (slot_sequence (mq_slot (mb_mailbox (mp_mb s)) r)) (r + 1) = Inr d"
    "s' = s\<lparr>mp_rechecks := (if d \<ge> 0 then (mp_rechecks s)[j := RTry] else drop_nth j (mp_rechecks s))\<rparr>"
    using st by (auto simp: res_bind_Inr_iff)
  let ?q = "mb_mailbox (mp_mb s)"
  have "await_ready (mp_mb s) \<noteq> Inr True \<or>
      (\<forall>r\<in>set (mp_rechecks s). useful ?q r \<longrightarrow> (\<exists>r'\<in>set (mp_rechecks s'). useful ?q r'))"
  proof (cases "d \<ge> 0")
    case True
    then have "RTry \<in> set (mp_rechecks s')" using set_update_memI [OF j] d(2) by simp
    then show ?thesis by (metis useful.simps(3))
  next
    case False
    show ?thesis
    proof (cases "r = mq_read_index ?q")
      case True
      then have "await_ready (mp_mb s) = Inr False" using d(1) False by (simp add: await_ready_def can_dequeue_def Let_def)
      then show ?thesis by simp
    next
      case other: False
      have "x \<in> set (mp_rechecks s')" if "x \<in> set (mp_rechecks s)" "useful ?q x" for x
      proof -
        have "x \<noteq> RSeq r" using that(2) other by auto
        then show ?thesis using in_set_drop_nth [OF that(1) _ j] d(2) False RSeq by simp
      qed
      then show ?thesis by blast
    qed
  qed
  then show ?thesis by (intro recheck_keep_inv [OF inv]) (auto simp: d(2))
next
  case RTry
  let ?s = "s\<lparr>mp_mb := (mp_mb s)\<lparr>mb_scheduled := True\<rparr>, mp_rechecks := drop_nth j (mp_rechecks s)\<rparr>"
  have tok: "token_inv s" using inv by (simp add: mp_inv_def)
  show ?thesis
  proof (cases "mb_scheduled (mp_mb s)")
    case True
    then have "s' = ?s" using st RTry by (simp add: Let_def split: if_splits)
    then show ?thesis using tok True by (simp add: mp_inv_def wake_inv_def token_inv_def tokens_def)
  next
    case False
    then have "s' = ?s\<lparr>mp_cons := Some CBody\<rparr>"
      using st RTry token_inv_idle [OF tok False] by (simp add: resume_def Let_def split: if_splits)
    then show ?thesis
      using tok False token_inv_idle(1-3) [OF tok False]
      by (simp add: mp_inv_def wake_inv_def token_inv_def tokens_def)
  qed
qed

section \<open>Every schedule\<close>

lemma send_call_inv:
  assumes inv: "mp_inv s" and i: "i < length (mp_senders s)" "mp_senders s ! i = SIdle"
  shows "mp_inv (set_sender i (SEnq m EnqStart) s)" (is "mp_inv ?s")
proof -
  have *: "token_inv s" "wake_inv s" using inv by (simp_all add: mp_inv_def)
  have "token_inv ?s"
    by (rule token_inv_sender [OF *(1) i(1), of "SEnq m EnqStart"]) (simp_all add: i set_sender_def)
  moreover have "wake_inv ?s"
    by (rule wake_inv_sender [OF *(2), of ?s i "SEnq m EnqStart"]) (simp_all add: i set_sender_def)
  ultimately show ?thesis by (simp add: mp_inv_def)
qed

lemma run_next_inv:
  assumes inv: "mp_inv s" and q: "0 < mp_queued s"
  shows "\<exists>s'. mp_act RunNext s = Inr s' \<and> mp_inv s'"
proof -
  have tok: "token_inv s" using inv by (simp add: mp_inv_def)
  note ex = token_inv_exclusive [OF tok disjI1 [OF q]]
  have "mb_scheduled (mp_mb s)" using token_inv_idle(2) [OF tok] q by force
  then show ?thesis
    using tok q ex
    by (auto simp: resume_def mp_inv_def wake_inv_def token_inv_def tokens_def simp flip: length_0_conv)
qed

lemma body_inv:
  assumes "mp_inv s" "mp_cons s = Some CBody"
  shows "mp_inv (s\<lparr>mp_cons := Some (CRecv DeqStart)\<rparr>)" "mp_inv (s\<lparr>mp_cons := Some CReady\<rparr>)"
    "mp_inv (s\<lparr>mp_cons := None, mp_alive := False\<rparr>)"
proof -
  have tok: "token_inv s" using assms(1) by (simp add: mp_inv_def)
  note run = token_inv_running [OF tok assms(2)]
  show "mp_inv (s\<lparr>mp_cons := Some (CRecv DeqStart)\<rparr>)" "mp_inv (s\<lparr>mp_cons := Some CReady\<rparr>)"
    using tok run by (simp_all add: running_inv [OF tok assms(2)] token_inv_def)
  show "mp_inv (s\<lparr>mp_cons := None, mp_alive := False\<rparr>)"
    using tok run assms(2) by (simp add: mp_inv_def wake_inv_def token_inv_def tokens_def)
qed

lemma mp_act_inv:
  assumes inv: "mp_inv s" and st: "mp_act a s = Inr s'"
  shows "mp_inv s'"
proof (cases a)
  case (SendCall i m)
  then show ?thesis using st inv send_call_inv [OF inv, of i m] by (auto split: if_splits)
next
  case (SendStep i sp)
  then show ?thesis using st inv sender_step_inv [OF inv, of i sp s'] by (auto split: if_splits)
next
  case RunNext
  then show ?thesis using st inv run_next_inv [OF inv] by (cases "mp_queued s = 0") auto
next
  case ConsumerStep
  then show ?thesis using st inv consumer_step_inv [OF inv] by (auto split: option.splits)
next
  case (RecheckStep j)
  then show ?thesis using st inv recheck_step_inv [OF inv, of j s'] by (auto split: if_splits)
next
  case RecvCall
  then show ?thesis using st inv body_inv(1) [OF inv] by (auto split: if_splits)
next
  case WaitCall
  then show ?thesis using st inv body_inv(2) [OF inv] by (auto split: if_splits)
next
  case Return
  then show ?thesis using st inv body_inv(3) [OF inv] by (auto split: if_splits)
qed

lemma mp_run_inv: "mp_inv s \<Longrightarrow> mp_run acts s = Inr s' \<Longrightarrow> mp_inv s'"
  by (rule mailbox_threads.exec_invariant [where I = mp_inv]) (auto dest: mp_act_inv)

text \<open>What can be undefined in a step: a signed subtraction, a dropped message, the coroutine's frame.\<close>

lemma release_ptr_fault: "release_ptr m st = Inl e \<Longrightarrow> e \<noteq> DoubleResume h"
  by (cases "heap st m") (auto simp: release_ptr_def event_message_release_def load_message_def split: if_splits)

lemma ptrdiff_sub_fault: "ptrdiff_sub a b = Inl e \<Longrightarrow> e = SignedOverflow"
  by (auto simp: ptrdiff_sub_def Let_def split: if_splits)

lemma enq_step_fault: "enq_step sp m q pc = Inl e \<Longrightarrow> e = SignedOverflow"
  by (cases pc) (auto simp: res_bind_Inl_iff dest: ptrdiff_sub_fault split: if_splits)

lemma deq_step_fault: "deq_step q pc = Inl e \<Longrightarrow> e = SignedOverflow"
  by (cases pc) (auto simp: res_bind_Inl_iff dest: ptrdiff_sub_fault split: if_splits)

lemma sender_step_fault:
  assumes "sender_step sp i s pc = Inl e"
  shows "e = SignedOverflow \<or> (\<exists>m. pc = SEnq m (EnqRet False) \<and> release_ptr m (mp_store s) = Inl e)
     \<or> (\<exists>h. pc = SCheck h \<and> \<not> mp_alive s \<and> e = UseAfterFree the_frame)"
proof (cases pc)
  case (SEnq m d)
  show ?thesis
  proof (cases d)
    case (EnqRet b)
    then show ?thesis using SEnq assms by (cases b) (auto simp: res_bind_Inl_iff)
  qed (use assms SEnq in \<open>auto simp: res_bind_Inl_iff dest: enq_step_fault ptrdiff_sub_fault split: if_splits\<close>)
qed (use assms in \<open>auto split: if_splits\<close>)

lemma consumer_step_fault: "consumer_step s pc = Inl e \<Longrightarrow> e = SignedOverflow"
proof (cases pc)
  case (CRecv d)
  then show "consumer_step s pc = Inl e \<Longrightarrow> e = SignedOverflow"
    by (cases d) (auto simp: res_bind_Inl_iff dest: deq_step_fault ptrdiff_sub_fault split: if_splits)
qed (auto simp: res_bind_Inl_iff await_ready_def can_dequeue_def Let_def dest: ptrdiff_sub_fault)

lemma recheck_step_fault:
  assumes "mp_inv s" "recheck_step j s pc = Inl e"
  shows "e = SignedOverflow \<or> pc \<in> {RLoad, RTry} \<and> \<not> mp_alive s \<and> e = UseAfterFree the_frame"
proof (cases pc)
  case RTry
  have "token_inv s" using assms(1) by (simp add: mp_inv_def)
  then show ?thesis
    using token_inv_idle(1,3) [of s] assms(2) RTry by (auto simp: resume_def Let_def split: if_splits)
qed (use assms(2) in \<open>auto simp: res_bind_Inl_iff dest: ptrdiff_sub_fault split: if_splits\<close>)

text \<open>
  What is undefined in an action of an armed mailbox. A sender asks \<^verbatim>\<open>done()\<close> and a worker resumes only while they own the token, so the
  frame is there.
\<close>

lemma mp_act_fault:
  assumes inv: "mp_inv s" and fault: "mp_act a s = Inl e"
  shows "e = SignedOverflow
     \<or> (\<exists>i sp m. a = SendStep i sp \<and> mp_senders s ! i = SEnq m (EnqRet False) \<and> release_ptr m (mp_store s) = Inl e)
     \<or> (\<exists>j<length (mp_rechecks s). a = RecheckStep j \<and> mp_rechecks s ! j \<in> {RLoad, RTry} \<and> \<not> mp_alive s \<and> e = UseAfterFree the_frame)"
proof (cases a)
  case RunNext
  then show ?thesis using run_next_inv [OF inv] fault by (cases "mp_queued s = 0") auto
next
  case (SendStep i sp)
  then have i: "i < length (mp_senders s)" "sender_step sp i s (mp_senders s ! i) = Inl e"
    using fault by (auto split: if_splits)
  have "mp_alive s" if "mp_senders s ! i = SCheck h" for h
  proof (rule token_inv_exclusive(2))
    show "token_inv s" using inv by (simp add: mp_inv_def)
    have "mp_senders s ! i \<in> set (mp_senders s)" using i(1) by simp
    then show "0 < mp_queued s \<or> (\<exists>pc\<in>set (mp_senders s). holds_token pc)" using that holds_token.simps(2) by metis
  qed
  then show ?thesis using sender_step_fault [OF i(2)] SendStep by auto
next
  case (RecheckStep j)
  then show ?thesis using recheck_step_fault [OF inv, of j] fault by (auto split: if_splits)
qed (use fault in \<open>auto dest: consumer_step_fault split: if_splits option.splits\<close>)

lemma mp_act_single:
  assumes "mp_inv s" "mp_act a s = Inl e"
  shows "e \<noteq> DoubleResume h"
  using mp_act_fault [OF assms] release_ptr_fault by fastforce

lemma mp_run_fault: "mp_inv s \<Longrightarrow> mp_run acts s = Inl e \<Longrightarrow> e \<noteq> DoubleResume h"
  by (rule mailbox_threads.run_fault [where I = mp_inv]) (auto dest: mp_act_inv mp_act_single)

section \<open>Properties\<close>

text \<open>
  C6. With the consumer armed before its first run, whatever senders, consumer and workers do and however
  their accesses interleave, the coroutine is never resumed while it is running. At every moment
  \<^verbatim>\<open>scheduled_\<close> is set exactly when there is one party that runs the consumer, holds it in the run queue,
  is about to put it there, or has finished it; there is never a second one.
\<close>

theorem consumer_single_runner:
  "case mp_run acts (armed_start mb st n) of
     Inl e \<Rightarrow> \<forall>h. e \<noteq> DoubleResume h
   | Inr s \<Rightarrow> tokens s = (if mb_scheduled (mp_mb s) then 1 else 0)"
proof (cases "mp_run acts (armed_start mb st n)")
  case (Inl e)
  then show ?thesis using mp_run_fault [OF mp_inv_start] by simp
next
  case (Inr s)
  then show ?thesis using mp_run_inv [OF mp_inv_start Inr] by (simp add: mp_inv_def token_inv_def)
qed

text \<open>
  C9. No message is left behind by a consumer that went to sleep: when every sender has returned from
  \<^verbatim>\<open>Send\<close>, no second look at the queue is pending, and a message is ready at the head of the
  mailbox, then the consumer is running or waits in the run queue, unless it has ended.
\<close>

theorem consumer_no_lost_message:
  assumes "mp_run acts (armed_start mb st n) = Inr s" "mp_senders s = replicate n SIdle" "mp_rechecks s = []"
    and "await_ready (mp_mb s) = Inr True" "mp_alive s"
  shows "mp_queued s = 1 \<or> mp_cons s \<noteq> None"
proof -
  have inv: "token_inv s" "wake_inv s" using mp_run_inv [OF mp_inv_start assms(1)] by (simp_all add: mp_inv_def)
  have "\<not> about_to_wake s" using assms(2,3) by (auto simp: about_to_wake_def)
  then have "tokens s = 1" using inv assms(4) by (simp add: wake_inv_def token_inv_def)
  then show ?thesis using assms(2,5) by (auto simp: tokens_def split: if_splits)
qed

text \<open>A consumer that goes to sleep on an empty mailbox, and a sender that delivers a message.\<close>

definition sleep_acts :: "mp_action list" where
  "sleep_acts = [RunNext, ConsumerStep, WaitCall, ConsumerStep, ConsumerStep, ConsumerStep]"

definition wake_acts :: "mp_action list" where
  "wake_acts = SendCall 0 5 # replicate 9 (SendStep 0 False)"

theorem consumer_no_lost_message_witness:
  "\<exists>s. mp_run (sleep_acts @ wake_acts @ [RecheckStep 0, RecheckStep 0, RecheckStep 0])
         (armed_start sleeping_box empty_store 1) = Inr s
       \<and> await_ready (mp_mb s) = Inr True \<and> (mp_queued s = 1 \<or> mp_cons s \<noteq> None)"
proof -
  let ?r = "mp_run (sleep_acts @ wake_acts @ [RecheckStep 0, RecheckStep 0, RecheckStep 0])
         (armed_start sleeping_box empty_store 1)"
  have "case ?r of Inl e \<Rightarrow> False
          | Inr s \<Rightarrow> mp_senders s = [SIdle] \<and> mp_rechecks s = [] \<and> await_ready (mp_mb s) = Inr True \<and> mp_alive s"
    by code_simp
  then obtain s where s: "?r = Inr s" "mp_senders s = [SIdle]" "mp_rechecks s = []"
    "await_ready (mp_mb s) = Inr True" "mp_alive s"
    by (auto split: sum.splits)
  then have "mp_queued s = 1 \<or> mp_cons s \<noteq> None"
    by (intro consumer_no_lost_message [OF s(1)]) simp_all
  then show ?thesis using s(1,4) by blast
qed

text \<open>
  C36. The window in \<^verbatim>\<open>await_suspend\<close> after \<^verbatim>\<open>scheduled_\<close> is cleared, in every run of an armed mailbox. A thread that
  is still in there (about to load the read index, or to exchange \<^verbatim>\<open>scheduled_\<close>) while the consumer is in the run queue or running
  again is in danger: a worker runs the consumer, it returns and its frame is destroyed, and then the thread goes on through
  the awaiter inside the destroyed frame. This is also the only way in which the frame is used after its end: whatever else
  is undefined in a step is a signed overflow of an index or the release of a message that was dropped.
\<close>

theorem await_suspend_use_after_free:
  assumes "mp_run acts (armed_start mb st n) = Inr s"
  shows "(\<forall>j<length (mp_rechecks s). mp_rechecks s ! j \<in> {RLoad, RTry} \<and> (0 < mp_queued s \<and> mp_started s \<or> mp_cons s = Some CBody)
            \<longrightarrow> mp_run [RunNext, Return, RecheckStep j] s = Inl (UseAfterFree the_frame))
     \<and> (\<forall>a e. mp_act a s = Inl e \<longrightarrow> e = SignedOverflow
          \<or> (\<exists>i sp m. a = SendStep i sp \<and> mp_senders s ! i = SEnq m (EnqRet False) \<and> release_ptr m (mp_store s) = Inl e)
          \<or> (\<exists>j<length (mp_rechecks s). a = RecheckStep j \<and> mp_rechecks s ! j \<in> {RLoad, RTry} \<and> \<not> mp_alive s
                \<and> e = UseAfterFree the_frame))"
proof -
  have inv: "mp_inv s" using mp_run_inv [OF mp_inv_start assms] .
  then have tok: "token_inv s" by (simp add: mp_inv_def)
  have "mp_run [RunNext, Return, RecheckStep j] s = Inl (UseAfterFree the_frame)"
    if j: "j < length (mp_rechecks s)" "mp_rechecks s ! j \<in> {RLoad, RTry}"
      and own: "0 < mp_queued s \<and> mp_started s \<or> mp_cons s = Some CBody" for j
  proof (cases "0 < mp_queued s")
    case True
    then have "mp_cons s = None" "mp_alive s" using token_inv_exclusive [OF tok] by simp_all
    then show ?thesis using True own j by (auto simp: resume_def)
  next
    case False
    then show ?thesis using own j by auto
  qed
  then show ?thesis using mp_act_fault [OF inv] by blast
qed

text \<open>A sender wakes the consumer that has just gone to sleep.\<close>

theorem await_suspend_use_after_free_witness:
  "\<exists>s. mp_run (sleep_acts @ wake_acts) (armed_start sleeping_box empty_store 1) = Inr s
     \<and> mp_run [RunNext, Return, RecheckStep 0] s = Inl (UseAfterFree the_frame)"
proof -
  have "case mp_run (sleep_acts @ wake_acts) (armed_start sleeping_box empty_store 1) of Inl e \<Rightarrow> False
       | Inr s \<Rightarrow> mp_rechecks s = [RLoad] \<and> mp_queued s = 1 \<and> mp_started s"
    by code_simp
  then obtain s where s: "mp_run (sleep_acts @ wake_acts) (armed_start sleeping_box empty_store 1) = Inr s"
    "mp_rechecks s = [RLoad]" "mp_queued s = 1" "mp_started s"
    by (auto split: sum.splits)
  then show ?thesis using await_suspend_use_after_free [OF s(1)] by auto
qed

text \<open>
  What \<^verbatim>\<open>ArmConsumer\<close> is for: a consumer that is enqueued without it can be resumed while
  it runs. A sender wins the exchange before the first run and is delayed until the consumer,
  having taken the message, is asleep; it then schedules the consumer although it no longer owns the
  token, and the sender of the next message schedules it again.
\<close>

lemma unarmed_consumer_double_resume:
  "case mp_run (SendCall 0 5 # replicate 6 (SendStep 0 False)
        @ [RunNext, ConsumerStep, RecvCall] @ replicate 7 ConsumerStep
        @ [WaitCall, ConsumerStep, ConsumerStep, ConsumerStep, RecheckStep 0, RecheckStep 0]
        @ replicate 3 (SendStep 0 False) @ wake_acts @ [RunNext, RunNext])
     (unarmed_start (sleeping_box\<lparr>mb_consumer := None\<rparr>) empty_store 1) of
     Inl e \<Rightarrow> e = DoubleResume the_frame
   | Inr s \<Rightarrow> False"
  by code_simp

end
