(* ===== verification/Message_References.thy ===== *)
theory Message_References
  imports Mail_Box
begin

text \<open>
  Accounting for message references: the relation between the reference counts in the message heap and
  the multiset of everyone who refers to a message, and what releasing, allocating and sending do to it.
\<close>

section \<open>Reference counts\<close>

text \<open>\<open>R\<close> counts who refers to a message; every live message has that count, and at least one.\<close>

definition store_refs :: "msg_store \<Rightarrow> addr multiset \<Rightarrow> bool" where
  "store_refs st R \<longleftrightarrow> store_wf st \<and>
     (\<forall>a. case heap st a of None \<Rightarrow> count R a = 0 | Some m \<Rightarrow> unat (msg_ref m) = count R a \<and> 0 < count R a)"

lemma store_refs_none: "store_refs st R \<Longrightarrow> heap st b = None \<Longrightarrow> count R b = 0"
  unfolding store_refs_def by (drule conjunct2, drule spec [of _ b], simp)

lemma store_refs_some: "store_refs st R \<Longrightarrow> heap st b = Some m \<Longrightarrow> unat (msg_ref m) = count R b \<and> 0 < count R b"
  unfolding store_refs_def by (drule conjunct2, drule spec [of _ b], simp)

lemma store_refs_release:
  assumes "store_refs st (add_mset a R)"
  shows "\<exists>st'. release_ptr a st = Inr st' \<and> store_refs st' R"
proof -
  obtain m where m: "heap st a = Some m" "unat (msg_ref m) = Suc (count R a)"
    using assms unfolding store_refs_def by (cases "heap st a") (auto dest: spec [of _ a])
  have wf: "store_wf st'" if "release_ptr a st = Inr st'" for st'
    using release_ptr_wf [OF _ that] assms by (simp add: store_refs_def)
  have other: "case heap st b of None \<Rightarrow> count R b = 0 | Some m \<Rightarrow> unat (msg_ref m) = count R b \<and> 0 < count R b"
    if "b \<noteq> a" for b
    using assms that by (auto simp: store_refs_def dest!: spec [of _ b] split: option.splits)
  show ?thesis
  proof (cases "msg_ref m = 1")
    case True
    let ?st = "st\<lparr>heap := (heap st)(a := None)\<rparr>"
    have rel: "release_ptr a st = Inr ?st" using m(1) True by (rule release_ptr_last)
    have "count R a = 0" using m(2) True by simp
    then show ?thesis using rel wf [OF rel] other by (simp add: store_refs_def)
  next
    case False
    let ?st = "st\<lparr>heap := (heap st)(a \<mapsto> m\<lparr>msg_ref := msg_ref m - 1\<rparr>)\<rparr>"
    have rel: "release_ptr a st = Inr ?st" using m(1) False by (rule release_ptr_dec)
    have "unat (msg_ref m - 1) = count R a" using m(2) by (metis diff_Suc_1 unat_minus_one unat_0 nat.distinct(1))
    moreover have "count R a \<noteq> 0" using False m(2) by (metis One_nat_def unat_1 word_unat_eq_iff)
    ultimately show ?thesis using rel wf [OF rel] other by (simp add: store_refs_def)
  qed
qed

text \<open>A new message with a reference for each of the \<open>k\<close> mailboxes it is about to go to.\<close>

lemma store_refs_new:
  assumes "store_refs st R" "k < 2 ^ 64" "new_message r type sender st = (a, st1)" "0 < k"
  shows "store_refs (st1\<lparr>heap := (heap st1)(a \<mapsto> m\<lparr>msg_ref := of_nat k\<rparr>)\<rparr>) (R + replicate_mset k a)"
proof -
  have a: "a = next_addr st" using assms(3) by (simp add: new_message_def)
  then have free: "heap st a = None" using assms(1) by (auto simp: store_refs_def store_wf_def)
  then have "count R a = 0" using store_refs_none [OF assms(1)] by simp
  note a = a free this
  have "unat (of_nat k :: size_t) = k" using assms(2) by (rule unat_of_nat64)
  then show ?thesis
    using assms a store_refs_none [OF assms(1)] store_refs_some [OF assms(1)]
    by (auto simp: store_refs_def store_wf_def new_message_def less_Suc_eq split: option.splits)
qed

section \<open>Message bodies\<close>

text \<open>
  What may happen to the messages while others use them: they are counted down, deleted and
  allocated, but the body of a message stays what it was.
\<close>

definition same_body :: "EventMessage \<Rightarrow> EventMessage \<Rightarrow> bool" where
  "same_body m m' \<longleftrightarrow>
     msg_type m' = msg_type m \<and> msg_sender_id m' = msg_sender_id m \<and> msg_payload m' = msg_payload m"

definition store_le :: "msg_store \<Rightarrow> msg_store \<Rightarrow> bool" where
  "store_le st st' \<longleftrightarrow> next_addr st \<le> next_addr st' \<and>
     (\<forall>a<next_addr st. \<forall>m'. heap st' a = Some m' \<longrightarrow> (\<exists>m. heap st a = Some m \<and> same_body m m'))"

lemma store_le_refl: "store_le st st"
  by (simp add: store_le_def same_body_def)

lemma store_le_trans:
  assumes "store_le st st1" "store_le st1 st2"
  shows "store_le st st2"
  unfolding store_le_def
proof (intro conjI allI impI)
  show "next_addr st \<le> next_addr st2" using assms by (simp add: store_le_def)
  fix a m2
  assume a: "a < next_addr st" and m2: "heap st2 a = Some m2"
  have "a < next_addr st1" using a assms(1) by (simp add: store_le_def)
  then obtain m1 where m1: "heap st1 a = Some m1" "same_body m1 m2" using assms(2) m2 unfolding store_le_def by blast
  then obtain m where "heap st a = Some m" "same_body m m1" using assms(1) a unfolding store_le_def by blast
  then show "\<exists>m. heap st a = Some m \<and> same_body m m2" using m1(2) by (auto simp: same_body_def)
qed

lemma store_le_release: "release_ptr a st = Inr st' \<Longrightarrow> store_le st st'"
  by (auto simp: release_ptr_def event_message_release_def res_bind_Inr_iff store_le_def same_body_def load_message_Inr
      split: if_splits)

lemma store_le_new: "new_message r t sender st = (a, st') \<Longrightarrow> store_le st st'"
  by (auto simp: new_message_def store_le_def same_body_def)

text \<open>
  \<^verbatim>\<open>Send\<close> moves a reference from the caller to the mailbox, or
  is given back when the mailbox is full.
\<close>

lemma Send_refs:
  assumes holds: "mb_holds n (Suc b) ms box" and ok: "consumer_ok frames box" and st: "store_refs st (add_mset m R)"
  shows "\<exists>box' st' hs. Send frames m box st = Some (Inr (box', st', hs)) \<and> consumer_ok frames box'
           \<and> mb_holds n b (if length ms < n then ms @ [m] else ms) box'
           \<and> store_refs st' (R + (if length ms < n then {#m#} else {#})) \<and> store_le st st'"
proof -
  obtain st1 where st1: "release_ptr m st = Inr st1" "store_refs st1 R" using store_refs_release [OF st] by blast
  show ?thesis
  proof (cases "length ms < n")
    case True
    then show ?thesis using Send_room [OF holds True ok, of m st] st store_le_refl by (fastforce simp: consumer_ok_def)
  next
    case False
    then have "length ms = n" using mb_holds_length [OF holds] by simp
    then show ?thesis
      using Send_full [OF holds _ st1(1), of frames] st1(2) ok False store_le_release [OF st1(1)]
      by (fastforce simp: consumer_ok_def)
  qed
qed

end
