(* ===== verification/Event_Bus.thy ===== *)
theory Event_Bus
  imports Message_References Schedules
begin

text \<open>
  The publish/subscribe bus \<^verbatim>\<open>ActorEventBus\<close> of \<^verbatim>\<open>include/event_bus.h\<close> and \<^verbatim>\<open>src/core/event_bus.cc\<close>: a
  routing table under a lock with a version number, one cached copy of it per thread, and the
  delivery of one shared message to every subscriber. Threads are interleaved between the critical
  sections, the single \<^verbatim>\<open>Send\<close> calls of a delivery, and what consumers do with their messages.
\<close>

section \<open>State\<close>

type_synonym route_table = "EventType \<rightharpoonup> addr list"

record event_bus =
  eb_event_bus :: route_table
  eb_version :: size_t

text \<open>The \<^verbatim>\<open>thread_local\<close> members.\<close>

record local_route =
  lr_event_bus :: route_table
  lr_version :: size_t

definition event_bus_new :: event_bus where
  "event_bus_new = \<lparr>eb_event_bus = Map.empty, eb_version = 0\<rparr>"

definition local_route_new :: local_route where
  "local_route_new = \<lparr>lr_event_bus = Map.empty, lr_version = 0\<rparr>"

section \<open>Operations\<close>

definition Subscribe :: "EventType \<Rightarrow> addr \<Rightarrow> event_bus \<Rightarrow> event_bus" where
  "Subscribe type mailbox eb =
     eb\<lparr>eb_event_bus := (eb_event_bus eb)
          (type \<mapsto> (case eb_event_bus eb type of None \<Rightarrow> [] | Some v \<Rightarrow> v) @ [mailbox]),
        eb_version := eb_version eb + 1\<rparr>"

text \<open>
  The search loop of \<^verbatim>\<open>Unsubscribe\<close> from index \<open>i\<close>: the first entry equal to the mailbox is overwritten by
  the last one, which is then dropped.
\<close>

function unsubscribe_loop :: "nat \<Rightarrow> addr \<Rightarrow> addr list \<Rightarrow> addr list option" where
  "unsubscribe_loop i mailbox v =
     (if i < length v
      then if v ! i = mailbox then Some (butlast (v[i := last v]))
           else unsubscribe_loop (Suc i) mailbox v
      else None)"
  by pat_completeness auto
termination by (relation "measure (\<lambda>(i, mailbox, v). length v - i)") auto

declare unsubscribe_loop.simps [simp del]

definition Unsubscribe :: "EventType \<Rightarrow> addr \<Rightarrow> event_bus \<Rightarrow> event_bus" where
  "Unsubscribe type mailbox eb =
     (case eb_event_bus eb type of
        None \<Rightarrow> eb
      | Some v \<Rightarrow>
          (case unsubscribe_loop 0 mailbox v of
             None \<Rightarrow> eb
           | Some v' \<Rightarrow>
               eb\<lparr>eb_event_bus := (eb_event_bus eb)(type := if v' = [] then None else Some v'),
                  eb_version := eb_version eb + 1\<rparr>))"

definition sync_route_table :: "event_bus \<Rightarrow> local_route \<Rightarrow> local_route" where
  "sync_route_table eb lr = lr\<lparr>lr_event_bus := eb_event_bus eb, lr_version := eb_version eb\<rparr>"

text \<open>
  \<^verbatim>\<open>Publish\<close> up to its loop: refresh the cached table when it is behind, look the type up; with subscribers
  the reference count becomes their number, without any the message is released.
\<close>

definition publish_route ::
    "event_bus \<Rightarrow> local_route \<Rightarrow> addr \<Rightarrow> msg_store \<Rightarrow> (local_route \<times> addr list \<times> msg_store) res" where
  "publish_route eb lr message st =
     (let lr = (if lr_version lr < eb_version eb then sync_route_table eb lr else lr)
      in res_bind (load_message message st) (\<lambda>m.
           case lr_event_bus lr (msg_type m) of
             Some v \<Rightarrow> Inr (lr, v, st\<lparr>heap := (heap st)(message \<mapsto> m\<lparr>msg_ref := of_nat (length v)\<rparr>)\<rparr>)
           | None \<Rightarrow> res_bind (release_ptr message st) (\<lambda>st. Inr (lr, [], st))))"

text \<open>One round of the loop; a mailbox is its place in the list of mailboxes.\<close>

definition publish_send ::
    "coro_table \<Rightarrow> addr \<Rightarrow> addr \<Rightarrow> mail_box list \<Rightarrow> msg_store \<Rightarrow> (mail_box list \<times> msg_store \<times> handle list) run" where
  "publish_send frames message mb boxes st =
     (if mb < length boxes
      then run_bind (Send frames message (boxes ! mb) st) (\<lambda>(box, st, hs). run_ret (boxes[mb := box], st, hs))
      else run_res (Inl NullDeref))"

fun publish_loop ::
    "coro_table \<Rightarrow> addr \<Rightarrow> addr list \<Rightarrow> mail_box list \<Rightarrow> msg_store \<Rightarrow> (mail_box list \<times> msg_store \<times> handle list) run" where
  "publish_loop frames message [] boxes st = run_ret (boxes, st, [])"
| "publish_loop frames message (mb # v) boxes st =
     run_bind (publish_send frames message mb boxes st) (\<lambda>(boxes, st, hs).
       run_bind (publish_loop frames message v boxes st) (\<lambda>(boxes, st, hs'). run_ret (boxes, st, hs @ hs')))"

definition Publish ::
    "coro_table \<Rightarrow> addr \<Rightarrow> event_bus \<Rightarrow> local_route \<Rightarrow> mail_box list \<Rightarrow> msg_store \<Rightarrow>
     (local_route \<times> mail_box list \<times> msg_store \<times> handle list) run" where
  "Publish frames message eb lr boxes st =
     run_bind (run_res (publish_route eb lr message st)) (\<lambda>(lr, v, st).
       run_bind (publish_loop frames message v boxes st) (\<lambda>(boxes, st, hs). run_ret (lr, boxes, st, hs)))"

section \<open>Threads\<close>

text \<open>
  \<open>bs_pending ! t\<close> is the message thread \<open>t\<close> is delivering and the rest of its vector; \<open>bs_held\<close> are
  the messages consumers have taken and not yet released.
\<close>

record bus_sys =
  bs_bus :: event_bus
  bs_locals :: "local_route list"
  bs_pending :: "(addr \<times> addr list) list"
  bs_boxes :: "mail_box list"
  bs_store :: msg_store
  bs_held :: "addr list"

datatype bus_action =
    DoSubscribe EventType addr
  | DoUnsubscribe EventType addr
  | DoPublish nat EventType size_t
  | DoSend nat
  | DoReceive addr
  | DoRelease nat

text \<open>
  A publisher allocates its message with one reference and gives it away. A thread that is in
  the middle of a delivery does not start another one.
\<close>

definition start_publish :: "nat \<Rightarrow> EventType \<Rightarrow> size_t \<Rightarrow> bus_sys \<Rightarrow> bus_sys res" where
  "start_publish t type sender s =
     (let (a, st) = new_message 1 type sender (bs_store s)
      in res_bind (publish_route (bs_bus s) (bs_locals s ! t) a st) (\<lambda>(lr, v, st).
           Inr (s\<lparr>bs_locals := (bs_locals s)[t := lr], bs_pending := (bs_pending s)[t := (a, v)], bs_store := st\<rparr>)))"

fun bus_act :: "coro_table \<Rightarrow> bus_action \<Rightarrow> bus_sys \<Rightarrow> bus_sys run" where
  "bus_act frames (DoSubscribe type mb) s =
     run_ret (if mb < length (bs_boxes s) then s\<lparr>bs_bus := Subscribe type mb (bs_bus s)\<rparr> else s)"
| "bus_act frames (DoUnsubscribe type mb) s = run_ret (s\<lparr>bs_bus := Unsubscribe type mb (bs_bus s)\<rparr>)"
| "bus_act frames (DoPublish t type sender) s =
     (if t < length (bs_locals s) \<and> snd (bs_pending s ! t) = []
      then run_res (start_publish t type sender s) else run_ret s)"
| "bus_act frames (DoSend t) s =
     (if t < length (bs_locals s)
      then case bs_pending s ! t of
             (message, []) \<Rightarrow> run_ret s
           | (message, mb # v) \<Rightarrow>
               run_bind (publish_send frames message mb (bs_boxes s) (bs_store s)) (\<lambda>(boxes, st, hs).
                 run_ret (s\<lparr>bs_boxes := boxes, bs_store := st, bs_pending := (bs_pending s)[t := (message, v)]\<rparr>))
      else run_ret s)"
| "bus_act frames (DoReceive mb) s =
     (if mb < length (bs_boxes s)
      then run_bind (try_receive (bs_boxes s ! mb)) (\<lambda>(r, box).
             run_ret (s\<lparr>bs_boxes := (bs_boxes s)[mb := box],
                        bs_held := bs_held s @ (case r of Some (Some m) \<Rightarrow> [m] | _ \<Rightarrow> [])\<rparr>))
      else run_ret s)"
| "bus_act frames (DoRelease i) s =
     (if i < length (bs_held s)
      then run_bind (run_res (release_ptr (bs_held s ! i) (bs_store s))) (\<lambda>st.
             run_ret (s\<lparr>bs_store := st, bs_held := drop_nth i (bs_held s)\<rparr>))
      else run_ret s)"

fun bus_run :: "coro_table \<Rightarrow> bus_action list \<Rightarrow> bus_sys \<Rightarrow> bus_sys run" where
  "bus_run frames [] s = run_ret s"
| "bus_run frames (a # acts) s = run_bind (bus_act frames a s) (bus_run frames acts)"

interpretation bus_threads: schedules "\<lambda>a s t. bus_act frames a s = Some (Inr t)"
    "\<lambda>acts s t. bus_run frames acts s = Some (Inr t)" for frames
  by unfold_locales (auto simp: run_ret_def run_bind_Inr_iff)

definition bus_start :: "nat \<Rightarrow> mail_box list \<Rightarrow> bus_sys" where
  "bus_start threads boxes =
     \<lparr>bs_bus = event_bus_new, bs_locals = replicate threads local_route_new,
      bs_pending = replicate threads (0, []), bs_boxes = boxes, bs_store = empty_store, bs_held = []\<rparr>"

section \<open>The routing table\<close>

text \<open>Who is subscribed, from the history of the calls alone, newest call first.\<close>

fun subscribers :: "nat \<Rightarrow> bus_action list \<Rightarrow> EventType \<Rightarrow> addr multiset" where
  "subscribers n [] type = {#}"
| "subscribers n (DoSubscribe t mb # hist) type =
     (if t = type \<and> mb < n then add_mset mb (subscribers n hist type) else subscribers n hist type)"
| "subscribers n (DoUnsubscribe t mb # hist) type =
     (if t = type then subscribers n hist type - {#mb#} else subscribers n hist type)"
| "subscribers n (_ # hist) type = subscribers n hist type"

definition table_of :: "route_table \<Rightarrow> EventType \<Rightarrow> addr multiset" where
  "table_of bus type = (case bus type of None \<Rightarrow> {#} | Some v \<Rightarrow> mset v)"

text \<open>Overwriting with the last entry and dropping it removes one occurrence.\<close>

lemma mset_butlast_update:
  assumes "i < length v"
  shows "mset (butlast (v[i := last v])) = mset v - {#v ! i#}"
proof (cases "i = length v - 1")
  case True
  then have "v ! i = last v" using assms last_conv_nth [of v] by (cases v) auto
  then have "v[i := last v] = v" using list_update_id [of v i] by simp
  then show ?thesis using True assms by (cases v rule: rev_cases) (auto simp: last_conv_nth)
next
  case False
  then obtain w x where v: "v = w @ [x]" "i < length w" using assms by (cases v rule: rev_cases) auto
  then have "butlast (v[i := last v]) = w[i := x]" by (simp add: list_update_append)
  then show ?thesis using v by (simp add: mset_update nth_append)
qed

lemma unsubscribe_loop_spec:
  "case unsubscribe_loop i mb v of
     None \<Rightarrow> mb \<notin> set (drop i v)
   | Some v' \<Rightarrow> mb \<in># mset v \<and> mset v' = mset v - {#mb#}"
proof (induction i mb v rule: unsubscribe_loop.induct)
  case (1 i mb v)
  show ?case
  proof (cases "i < length v")
    case True
    then have d: "drop i v = v ! i # drop (Suc i) v" by (simp add: Cons_nth_drop_Suc)
    show ?thesis
    proof (cases "v ! i = mb")
      case eq: True
      then show ?thesis
        using mset_butlast_update [OF True] True nth_mem [OF True] by (simp add: unsubscribe_loop.simps [of i])
    next
      case False
      then show ?thesis
        using 1 [OF True False] True d by (simp add: unsubscribe_loop.simps [of i] split: option.splits)
    qed
  qed (simp add: unsubscribe_loop.simps [of i])
qed

lemma Subscribe_table:
  "table_of (eb_event_bus (Subscribe t mb eb)) type =
     (if t = type then add_mset mb (table_of (eb_event_bus eb) type) else table_of (eb_event_bus eb) type)"
  by (auto simp: Subscribe_def table_of_def split: option.splits)

lemma Unsubscribe_table:
  "table_of (eb_event_bus (Unsubscribe t mb eb)) type =
     (if t = type then table_of (eb_event_bus eb) type - {#mb#} else table_of (eb_event_bus eb) type)"
proof (cases "eb_event_bus eb t")
  case (Some v)
  then show ?thesis
    using unsubscribe_loop_spec [where i = 0 and mb = mb and v = v]
    by (cases "unsubscribe_loop 0 mb v") (auto simp: Unsubscribe_def table_of_def diff_single_trivial)
qed (auto simp: Unsubscribe_def table_of_def)

text \<open>
  The table of the bus is the history's, no vector in it is empty, and a thread's copy with the
  current version number is the current table. \<open>c\<close> bounds the number of changes.
\<close>

definition table_wf :: "nat \<Rightarrow> route_table \<Rightarrow> bool" where
  "table_wf n bus \<longleftrightarrow> (\<forall>type v. bus type = Some v \<longrightarrow> v \<noteq> [] \<and> (\<forall>mb\<in>set v. mb < n))"

definition routes_inv :: "nat \<Rightarrow> nat \<Rightarrow> bus_action list \<Rightarrow> event_bus \<Rightarrow> local_route list \<Rightarrow> bool" where
  "routes_inv n c hist eb locals \<longleftrightarrow>
     unat (eb_version eb) \<le> c \<and> table_wf n (eb_event_bus eb)
     \<and> (\<forall>type. table_of (eb_event_bus eb) type = subscribers n hist type)
     \<and> (\<forall>type. size (subscribers n hist type) \<le> c)
     \<and> (\<forall>lr\<in>set locals. lr_version lr \<le> eb_version eb \<and>
          (lr_version lr = eb_version eb \<longrightarrow> lr_event_bus lr = eb_event_bus eb))"

lemma table_wf_put:
  "table_wf n bus \<Longrightarrow> v \<noteq> [] \<Longrightarrow> \<forall>mb\<in>set v. mb < n \<Longrightarrow> table_wf n (bus(t \<mapsto> v))"
  "table_wf n bus \<Longrightarrow> table_wf n (bus(t := None))"
  by (auto simp: table_wf_def)

lemma table_wf_entry: "table_wf n bus \<Longrightarrow> bus t = Some v \<Longrightarrow> v \<noteq> [] \<and> (\<forall>mb\<in>set v. mb < n)"
  by (auto simp: table_wf_def)

lemma routes_inv_facts:
  assumes "routes_inv n c hist eb locals"
  shows "table_of (eb_event_bus eb) type = subscribers n hist type" "table_wf n (eb_event_bus eb)"
    "size (subscribers n hist type) \<le> c" "unat (eb_version eb) \<le> c"
  using assms by (simp_all add: routes_inv_def)

lemma routes_start: "routes_inv n c [] event_bus_new (replicate k local_route_new)"
  by (auto simp: routes_inv_def event_bus_new_def local_route_new_def table_wf_def table_of_def)

lemma routes_changed:
  assumes inv: "routes_inv n c hist eb locals" and c: "c < index_limit"
    and eb': "eb_version eb' = eb_version eb + 1" "table_wf n (eb_event_bus eb')"
    and tab: "\<And>type. table_of (eb_event_bus eb') type = subscribers n hist' type"
    and size: "\<And>type. size (subscribers n hist' type) \<le> Suc c"
  shows "routes_inv n (Suc c) hist' eb' locals"
proof -
  have v: "unat (eb_version eb') = Suc (unat (eb_version eb))"
    using inv c by (simp add: eb' routes_inv_def unat_plus_one)
  have less: "lr_version lr < eb_version eb'" if "lr \<in> set locals" for lr
    using inv that v by (auto simp: routes_inv_def word_less_nat_alt word_le_nat_alt)
  have "lr_version lr \<le> eb_version eb' \<and> lr_version lr \<noteq> eb_version eb'" if "lr \<in> set locals" for lr
    using less [OF that] by auto
  moreover have "unat (eb_version eb') \<le> Suc c" using inv v by (simp add: routes_inv_def)
  ultimately show ?thesis using eb'(2) tab size unfolding routes_inv_def by blast
qed

lemma routes_Subscribe:
  assumes inv: "routes_inv n c hist eb locals" and c: "c < index_limit" and mb: "mb < n"
  shows "routes_inv n (Suc c) (DoSubscribe t mb # hist) (Subscribe t mb eb) locals"
proof (rule routes_changed [OF inv c])
  show "table_wf n (eb_event_bus (Subscribe t mb eb))"
    using inv mb table_wf_entry [of n "eb_event_bus eb" t]
    by (cases "eb_event_bus eb t") (simp_all add: routes_inv_def Subscribe_def table_wf_put)
  show "table_of (eb_event_bus (Subscribe t mb eb)) type = subscribers n (DoSubscribe t mb # hist) type" for type
    using mb by (simp add: Subscribe_table routes_inv_facts(1) [OF inv])
  show "size (subscribers n (DoSubscribe t mb # hist) type) \<le> Suc c" for type
    using inv by (simp add: routes_inv_def le_SucI)
qed (simp add: Subscribe_def)

lemma unsubscribe_loop_set:
  assumes "unsubscribe_loop 0 mb v = Some v'"
  shows "set v' \<subseteq> set v"
proof -
  have "mset v' = mset v - {#mb#}"
    using unsubscribe_loop_spec [where i = 0 and mb = mb and v = v] assms by simp
  then show ?thesis by (metis diff_subset_eq_self set_mset_mono set_mset_mset)
qed

lemma subscribers_unsubscribe_size:
  assumes "routes_inv n c hist eb locals"
  shows "size (subscribers n (DoUnsubscribe t mb # hist) type) \<le> Suc c"
proof -
  have "size (subscribers n hist type - {#mb#}) \<le> size (subscribers n hist type)"
    by (rule size_mset_mono) simp
  moreover have "size (subscribers n hist type) \<le> c" using assms by (simp add: routes_inv_def)
  ultimately show ?thesis by simp
qed

lemma routes_Unsubscribe:
  assumes inv: "routes_inv n c hist eb locals" and c: "c < index_limit"
  shows "routes_inv n (Suc c) (DoUnsubscribe t mb # hist) (Unsubscribe t mb eb) locals"
proof (cases "Unsubscribe t mb eb = eb")
  case True
  have "table_of (eb_event_bus (Unsubscribe t mb eb)) type = subscribers n (DoUnsubscribe t mb # hist) type" for type
    by (simp add: Unsubscribe_table routes_inv_facts(1) [OF inv])
  moreover have "size (subscribers n (DoUnsubscribe t mb # hist) type) \<le> Suc c" for type
    using inv by (rule subscribers_unsubscribe_size)
  moreover have "unat (eb_version eb) \<le> Suc c" using inv by (simp add: routes_inv_def)
  ultimately show ?thesis using inv unfolding True routes_inv_def by blast
next
  case False
  obtain v where v: "eb_event_bus eb t = Some v"
    using False that by (cases "eb_event_bus eb t") (auto simp: Unsubscribe_def)
  obtain v' where "unsubscribe_loop 0 mb v = Some v'"
    using False v that by (cases "unsubscribe_loop 0 mb v") (auto simp: Unsubscribe_def)
  note v = v this
  show ?thesis
  proof (rule routes_changed [OF inv c])
    show "eb_version (Unsubscribe t mb eb) = eb_version eb + 1" using v by (simp add: Unsubscribe_def)
    show "table_wf n (eb_event_bus (Unsubscribe t mb eb))"
    proof (cases "v' = []")
      case True
      then show ?thesis using v table_wf_put(2) [OF routes_inv_facts(2) [OF inv]] by (simp add: Unsubscribe_def)
    next
      case False
      moreover have "\<forall>mb\<in>set v'. mb < n"
        using table_wf_entry [OF routes_inv_facts(2) [OF inv] v(1)] unsubscribe_loop_set [OF v(2)] by blast
      ultimately show ?thesis
        using v table_wf_put(1) [OF routes_inv_facts(2) [OF inv], of v' t] by (simp add: Unsubscribe_def)
    qed
    show "table_of (eb_event_bus (Unsubscribe t mb eb)) type = subscribers n (DoUnsubscribe t mb # hist) type" for type
      by (simp add: Unsubscribe_table routes_inv_facts(1) [OF inv])
    show "size (subscribers n (DoUnsubscribe t mb # hist) type) \<le> Suc c" for type
      using inv by (rule subscribers_unsubscribe_size)
  qed
qed

text \<open>What \<^verbatim>\<open>Publish\<close> looks the type up in is the current table.\<close>

definition refreshed :: "event_bus \<Rightarrow> local_route \<Rightarrow> local_route" where
  "refreshed eb lr = (if lr_version lr < eb_version eb then sync_route_table eb lr else lr)"

lemma refreshed_current:
  assumes "routes_inv n c hist eb locals" "lr \<in> set locals"
  shows "lr_event_bus (refreshed eb lr) = eb_event_bus eb" "lr_version (refreshed eb lr) = eb_version eb"
  using assms by (auto simp: routes_inv_def refreshed_def sync_route_table_def)

lemma routes_refreshed:
  assumes "routes_inv n c hist eb locals" "t < length locals"
  shows "routes_inv n c hist eb (locals[t := refreshed eb (locals ! t)])"
  using assms refreshed_current [OF assms(1) nth_mem [OF assms(2)]]
  by (auto simp: routes_inv_def dest!: set_update_subset_insert [THEN subsetD])

section \<open>References\<close>

definition pend_refs :: "addr \<times> addr list \<Rightarrow> addr multiset" where
  "pend_refs p = replicate_mset (length (snd p)) (fst p)"

definition refs :: "addr list list \<Rightarrow> bus_sys \<Rightarrow> addr multiset" where
  "refs contents s =
     sum_list (map mset contents) + sum_list (map pend_refs (bs_pending s)) + mset (bs_held s)"

text \<open>
  The invariant of the threads: every mailbox has capacity \<open>n\<close> and holds the messages \<open>contents\<close> says, its
  consumer can be woken, deliveries go to mailboxes that exist, and the reference counts are right. The
  mailboxes are good for \<open>b\<close> more operations; the table has changed at most \<open>c\<close> times.
\<close>

definition bus_inv ::
    "coro_table \<Rightarrow> nat \<Rightarrow> nat \<Rightarrow> nat \<Rightarrow> bus_action list \<Rightarrow> addr list list \<Rightarrow> bus_sys \<Rightarrow> bool" where
  "bus_inv frames n b c hist contents s \<longleftrightarrow>
     routes_inv (length (bs_boxes s)) c hist (bs_bus s) (bs_locals s)
     \<and> length contents = length (bs_boxes s) \<and> length (bs_pending s) = length (bs_locals s)
     \<and> (\<forall>k<length (bs_boxes s). mb_holds n b (contents ! k) (bs_boxes s ! k) \<and> consumer_ok frames (bs_boxes s ! k))
     \<and> (\<forall>p\<in>set (bs_pending s). \<forall>mb\<in>set (snd p). mb < length (bs_boxes s))
     \<and> store_refs (bs_store s) (refs contents s)"

lemma bus_inv_mono: "bus_inv frames n b c hist contents s \<Longrightarrow> b' \<le> b \<Longrightarrow> bus_inv frames n b' c hist contents s"
  using mb_holds_mono unfolding bus_inv_def by blast

lemma routes_later:
  assumes "routes_inv n c hist eb locals" "\<And>type. subscribers n (a # hist) type = subscribers n hist type"
  shows "routes_inv n (Suc c) (a # hist) eb locals"
  using assms(1) unfolding routes_inv_def assms(2) by (auto intro: le_SucI)

section \<open>Every action keeps the accounts\<close>

lemma bus_inv_table:
  assumes "bus_inv frames n (Suc b) c hist contents s"
    and "routes_inv (length (bs_boxes s)) c' hist' eb (bs_locals s)"
  shows "bus_inv frames n b c' hist' contents (s\<lparr>bs_bus := eb\<rparr>)"
  using assms(2) bus_inv_mono [OF assms(1), of b] by (simp add: bus_inv_def refs_def)

lemma bus_subscribe_inv:
  assumes inv: "bus_inv frames n (Suc b) c hist contents s" and c: "c < index_limit"
  shows "\<exists>s'. bus_act frames (DoSubscribe type mb) s = Some (Inr s')
           \<and> bus_inv frames n b (Suc c) (DoSubscribe type mb # hist) contents s'"
proof -
  have r: "routes_inv (length (bs_boxes s)) c hist (bs_bus s) (bs_locals s)" using inv by (simp add: bus_inv_def)
  show ?thesis
  proof (cases "mb < length (bs_boxes s)")
    case True
    then show ?thesis using bus_inv_table [OF inv routes_Subscribe [OF r c True]] by (simp add: run_ret_def)
  next
    case False
    then show ?thesis
      using bus_inv_table [OF inv routes_later [OF r, of "DoSubscribe type mb"]] by (simp add: run_ret_def)
  qed
qed

lemma bus_unsubscribe_inv:
  assumes inv: "bus_inv frames n (Suc b) c hist contents s" and c: "c < index_limit"
  shows "\<exists>s'. bus_act frames (DoUnsubscribe type mb) s = Some (Inr s')
           \<and> bus_inv frames n b (Suc c) (DoUnsubscribe type mb # hist) contents s'"
proof -
  have r: "routes_inv (length (bs_boxes s)) c hist (bs_bus s) (bs_locals s)" using inv by (simp add: bus_inv_def)
  show ?thesis using bus_inv_table [OF inv routes_Unsubscribe [OF r c]] by (simp add: run_ret_def)
qed

text \<open>What happens to the accounts when only mailboxes, messages or deliveries change.\<close>

lemma bus_inv_step:
  assumes inv: "bus_inv frames n (Suc b) c hist contents s"
    and a: "\<And>type. subscribers (length (bs_boxes s)) (a # hist) type = subscribers (length (bs_boxes s)) hist type"
    and s': "bs_bus s' = bs_bus s" "length (bs_boxes s') = length (bs_boxes s)"
    and loc: "routes_inv (length (bs_boxes s)) c hist (bs_bus s) (bs_locals s')" "length (bs_locals s') = length (bs_locals s)"
    and cont: "length contents' = length contents" "length (bs_pending s') = length (bs_pending s)"
    and boxes: "\<And>k. k < length (bs_boxes s) \<Longrightarrow> mb_holds n b (contents' ! k) (bs_boxes s' ! k) \<and> consumer_ok frames (bs_boxes s' ! k)"
    and pend: "\<And>p mb. p \<in> set (bs_pending s') \<Longrightarrow> mb \<in> set (snd p) \<Longrightarrow> mb < length (bs_boxes s)"
    and st: "store_refs (bs_store s') (refs contents' s')"
  shows "bus_inv frames n b (Suc c) (a # hist) contents' s'"
  using inv routes_later [OF loc(1) a] s' loc(2) cont boxes pend st unfolding bus_inv_def by auto

lemma bus_noop_inv:
  assumes inv: "bus_inv frames n (Suc b) c hist contents s"
    and a: "\<And>type. subscribers (length (bs_boxes s)) (a # hist) type = subscribers (length (bs_boxes s)) hist type"
  shows "bus_inv frames n b (Suc c) (a # hist) contents s"
  using inv bus_inv_mono [OF inv, of b] by (intro bus_inv_step [OF inv a]) (auto simp: bus_inv_def)

lemma bus_release_inv:
  assumes inv: "bus_inv frames n (Suc b) c hist contents s"
  shows "\<exists>s'. bus_act frames (DoRelease i) s = Some (Inr s')
           \<and> bus_inv frames n b (Suc c) (DoRelease i # hist) contents s'"
proof (cases "i < length (bs_held s)")
  case True
  have "store_refs (bs_store s) (add_mset (bs_held s ! i)
      (sum_list (map mset contents) + sum_list (map pend_refs (bs_pending s)) + mset (drop_nth i (bs_held s))))"
    using inv mset_drop_nth [OF True] by (simp add: bus_inv_def refs_def)
  then obtain st' where st': "release_ptr (bs_held s ! i) (bs_store s) = Inr st'"
    "store_refs st' (sum_list (map mset contents) + sum_list (map pend_refs (bs_pending s)) + mset (drop_nth i (bs_held s)))"
    using store_refs_release by blast
  let ?s = "s\<lparr>bs_store := st', bs_held := drop_nth i (bs_held s)\<rparr>"
  have "bus_inv frames n b (Suc c) (DoRelease i # hist) contents ?s"
    using inv bus_inv_mono [OF inv, of b] st'(2) by (intro bus_inv_step [OF inv]) (auto simp: bus_inv_def refs_def)
  then show ?thesis using True st'(1) by (simp add: run_simps run_ret_def)
next
  case False
  then show ?thesis using bus_noop_inv [OF inv, of "DoRelease i"] by (simp add: run_ret_def)
qed

lemma bus_receive_inv:
  assumes inv: "bus_inv frames n (Suc b) c hist contents s"
  shows "\<exists>s' contents'. bus_act frames (DoReceive mb) s = Some (Inr s')
           \<and> bus_inv frames n b (Suc c) (DoReceive mb # hist) contents' s'"
proof (cases "mb < length (bs_boxes s)")
  case True
  let ?ms = "contents ! mb" and ?box = "bs_boxes s ! mb"
  have len: "mb < length contents" using True inv by (simp add: bus_inv_def)
  have box: "mb_holds n (Suc b) ?ms ?box" "consumer_ok frames ?box" using inv True by (simp_all add: bus_inv_def)
  obtain box' where box': "try_receive ?box = Some (Inr (if ?ms = [] then None else Some (Some (hd ?ms)), box'))"
    "mb_holds n b (tl ?ms) box'" "mb_scheduled box' = mb_scheduled ?box" "mb_consumer box' = mb_consumer ?box"
    using try_receive_holds [OF box(1)] by blast
  have ok: "consumer_ok frames box'" using box(2) box'(3,4) by (simp add: consumer_ok_def)
  let ?held = "bs_held s @ (if ?ms = [] then [] else [hd ?ms])"
  let ?s = "s\<lparr>bs_boxes := (bs_boxes s)[mb := box'], bs_held := ?held\<rparr>"
  obtain R where R: "sum_list (map mset contents) = mset ?ms + R"
    "\<And>y. sum_list (map mset (contents[mb := y])) = mset y + R"
    using sum_list_split [OF len, of mset] by blast
  have "mset (tl ?ms) + mset (if ?ms = [] then [] else [hd ?ms]) = mset ?ms" by (cases ?ms) simp_all
  then have same: "refs (contents[mb := tl ?ms]) ?s = refs contents s"
    using R by (cases ?ms) (simp_all add: refs_def)
  have "bus_inv frames n b (Suc c) (DoReceive mb # hist) (contents[mb := tl ?ms]) ?s"
  proof (rule bus_inv_step [OF inv])
    show "mb_holds n b (contents[mb := tl ?ms] ! k) (bs_boxes ?s ! k) \<and> consumer_ok frames (bs_boxes ?s ! k)"
      if "k < length (bs_boxes s)" for k
      using that box'(2) ok len bus_inv_mono [OF inv, of b] by (cases "k = mb") (auto simp: bus_inv_def)
    show "store_refs (bs_store ?s) (refs (contents[mb := tl ?ms]) ?s)"
      unfolding same using inv by (simp add: bus_inv_def)
  qed (use inv in \<open>auto simp: bus_inv_def\<close>)
  moreover have "bus_act frames (DoReceive mb) s = Some (Inr ?s)"
    using True box'(1) by (cases ?ms) (simp_all add: run_simps run_ret_def)
  ultimately show ?thesis by blast
next
  case False
  then show ?thesis using bus_noop_inv [OF inv, of "DoReceive mb"] by (auto simp: run_ret_def)
qed

lemma bus_send_inv:
  assumes inv: "bus_inv frames n (Suc b) c hist contents s"
  shows "\<exists>s' contents'. bus_act frames (DoSend t) s = Some (Inr s')
           \<and> bus_inv frames n b (Suc c) (DoSend t # hist) contents' s'"
proof (cases "t < length (bs_locals s) \<and> snd (bs_pending s ! t) \<noteq> []")
  case True
  then have t: "t < length (bs_pending s)" using inv by (simp add: bus_inv_def)
  obtain m mb v where p: "bs_pending s ! t = (m, mb # v)"
    using True by (cases "bs_pending s ! t"; cases "snd (bs_pending s ! t)") auto
  have mb: "mb < length (bs_boxes s)" "\<forall>k\<in>set v. k < length (bs_boxes s)"
    using inv nth_mem [OF t] p by (auto simp: bus_inv_def)
  have len: "mb < length contents" using mb(1) inv by (simp add: bus_inv_def)
  let ?ms = "contents ! mb" and ?box = "bs_boxes s ! mb"
  have box: "mb_holds n (Suc b) ?ms ?box" "consumer_ok frames ?box" using inv mb(1) by (simp_all add: bus_inv_def)
  obtain R where R: "sum_list (map mset contents) = mset ?ms + R"
    "\<And>y. sum_list (map mset (contents[mb := y])) = mset y + R"
    using sum_list_split [OF len, of mset] by blast
  obtain P where P: "sum_list (map pend_refs (bs_pending s)) = pend_refs (m, mb # v) + P"
    "\<And>y. sum_list (map pend_refs ((bs_pending s)[t := y])) = pend_refs y + P"
    using sum_list_split [OF t, of pend_refs] unfolding p by blast
  let ?R = "mset ?ms + R + pend_refs (m, v) + P + mset (bs_held s)"
  have "refs contents s = add_mset m ?R" by (simp add: refs_def R(1) P(1)) (simp add: pend_refs_def)
  then have "store_refs (bs_store s) (add_mset m ?R)" using inv by (simp add: bus_inv_def)
  then obtain box' st' hs where send: "Send frames m ?box (bs_store s) = Some (Inr (box', st', hs))"
    "consumer_ok frames box'" "mb_holds n b (if length ?ms < n then ?ms @ [m] else ?ms) box'"
    "store_refs st' (?R + (if length ?ms < n then {#m#} else {#}))"
    using Send_refs [OF box] by blast
  let ?ms' = "if length ?ms < n then ?ms @ [m] else ?ms"
  let ?s = "s\<lparr>bs_boxes := (bs_boxes s)[mb := box'], bs_store := st', bs_pending := (bs_pending s)[t := (m, v)]\<rparr>"
  have same: "refs (contents[mb := ?ms']) ?s = ?R + (if length ?ms < n then {#m#} else {#})"
    by (simp add: refs_def R(2) P(2))
  have "bus_inv frames n b (Suc c) (DoSend t # hist) (contents[mb := ?ms']) ?s"
  proof (rule bus_inv_step [OF inv])
    show "mb_holds n b (contents[mb := ?ms'] ! k) (bs_boxes ?s ! k) \<and> consumer_ok frames (bs_boxes ?s ! k)"
      if "k < length (bs_boxes s)" for k
    proof (cases "k = mb")
      case True
      then show ?thesis using send(2,3) len mb(1) by simp
    next
      case False
      then show ?thesis using that bus_inv_mono [OF inv, of b] by (simp add: bus_inv_def)
    qed
    show "store_refs (bs_store ?s) (refs (contents[mb := ?ms']) ?s)" unfolding same using send(4) by simp
    show "k < length (bs_boxes s)" if "q \<in> set (bs_pending ?s)" "k \<in> set (snd q)" for q k
      using that inv mb(2) set_update_subset_insert [of "bs_pending s" t "(m, v)"] by (auto simp: bus_inv_def)
  qed (use inv in \<open>auto simp: bus_inv_def\<close>)
  moreover have "bus_act frames (DoSend t) s = Some (Inr ?s)"
    using True mb(1) send(1) p by (simp add: publish_send_def run_simps run_ret_def)
  ultimately show ?thesis by blast
next
  case False
  then have "bus_act frames (DoSend t) s = Some (Inr s)" by (auto simp: run_ret_def split: prod.split list.split)
  then show ?thesis using bus_noop_inv [OF inv, of "DoSend t"] by auto
qed

definition current_route :: "event_bus \<Rightarrow> EventType \<Rightarrow> addr list" where
  "current_route eb type = (case eb_event_bus eb type of None \<Rightarrow> [] | Some v \<Rightarrow> v)"

lemma publish_route_new:
  assumes routes: "routes_inv n c hist eb locals" "lr \<in> set locals" "c < index_limit"
    and st: "store_refs st R" "new_message 1 type sender st = (a, st1)"
  shows "\<exists>st'. publish_route eb lr a st1 = Inr (refreshed eb lr, current_route eb type, st')
           \<and> store_refs st' (R + replicate_mset (length (current_route eb type)) a)"
proof -
  let ?m = "\<lparr>msg_ref = 1, msg_type = type, msg_sender_id = sender, msg_payload = None\<rparr>"
  have load: "load_message a st1 = Inr ?m" using st(2) by (auto simp: new_message_def load_message_def)
  note cur = refreshed_current [OF routes(1,2)]
  have route: "publish_route eb lr a st1 =
      (case eb_event_bus eb type of
         Some v \<Rightarrow> Inr (refreshed eb lr, v, st1\<lparr>heap := (heap st1)(a \<mapsto> ?m\<lparr>msg_ref := of_nat (length v)\<rparr>)\<rparr>)
       | None \<Rightarrow> res_bind (release_ptr a st1) (\<lambda>st. Inr (refreshed eb lr, [], st)))"
    using load cur(1) by (simp add: publish_route_def refreshed_def [symmetric] Let_def)
  show ?thesis
  proof (cases "eb_event_bus eb type")
    case None
    have "(heap st1)(a \<mapsto> ?m) = heap st1" using load by (auto simp: load_message_def split: option.splits)
    then have "store_refs st1 (add_mset a R)"
      using store_refs_new [OF st(1) _ st(2), of 1 ?m] by simp
    then show ?thesis using store_refs_release [of st1 a R] None route by (auto simp: current_route_def)
  next
    case (Some v)
    have "size (mset v) \<le> c"
      using routes_inv_facts(1,3) [OF routes(1), of type] Some by (simp add: table_of_def)
    moreover have "v \<noteq> []" using table_wf_entry [OF routes_inv_facts(2) [OF routes(1)] Some] by simp
    ultimately have "store_refs (st1\<lparr>heap := (heap st1)(a \<mapsto> ?m\<lparr>msg_ref := of_nat (length v)\<rparr>)\<rparr>)
        (R + replicate_mset (length v) a)"
      using routes(3) by (intro store_refs_new [OF st(1) _ st(2)]) simp_all
    then show ?thesis using Some route by (simp add: current_route_def)
  qed
qed

lemma bus_publish_inv:
  assumes inv: "bus_inv frames n (Suc b) c hist contents s" and c: "c < index_limit"
  shows "\<exists>s'. bus_act frames (DoPublish t type sender) s = Some (Inr s')
           \<and> bus_inv frames n b (Suc c) (DoPublish t type sender # hist) contents s'
           \<and> (t < length (bs_locals s) \<and> snd (bs_pending s ! t) = [] \<longrightarrow>
                bs_pending s' = (bs_pending s)[t := (next_addr (bs_store s), current_route (bs_bus s) type)])"
proof (cases "t < length (bs_locals s) \<and> snd (bs_pending s ! t) = []")
  case True
  then have t: "t < length (bs_pending s)" "t < length (bs_locals s)" using inv by (simp_all add: bus_inv_def)
  have r: "routes_inv (length (bs_boxes s)) c hist (bs_bus s) (bs_locals s)" using inv by (simp add: bus_inv_def)
  obtain a st1 where new: "new_message 1 type sender (bs_store s) = (a, st1)" by fastforce
  have a: "a = next_addr (bs_store s)" using new by (simp add: new_message_def)
  have refs: "store_refs (bs_store s) (refs contents s)" using inv by (simp add: bus_inv_def)
  let ?v = "current_route (bs_bus s) type" and ?lr = "refreshed (bs_bus s) (bs_locals s ! t)"
  obtain st' where st': "publish_route (bs_bus s) (bs_locals s ! t) a st1 = Inr (?lr, ?v, st')"
    "store_refs st' (refs contents s + replicate_mset (length ?v) a)"
    using publish_route_new [OF r nth_mem [OF t(2)] c refs new] by blast
  let ?s = "s\<lparr>bs_locals := (bs_locals s)[t := ?lr], bs_pending := (bs_pending s)[t := (a, ?v)], bs_store := st'\<rparr>"
  obtain P where P: "sum_list (map pend_refs (bs_pending s)) = pend_refs (bs_pending s ! t) + P"
    "\<And>y. sum_list (map pend_refs ((bs_pending s)[t := y])) = pend_refs y + P"
    using sum_list_split [OF t(1), of pend_refs] by blast
  have "pend_refs (bs_pending s ! t) = {#}" using True by (simp add: pend_refs_def)
  then have same: "refs contents ?s = refs contents s + replicate_mset (length ?v) a"
    using P by (simp add: refs_def pend_refs_def)
  have v: "\<forall>k\<in>set ?v. k < length (bs_boxes s)"
    using table_wf_entry [OF routes_inv_facts(2) [OF r]] by (cases "eb_event_bus (bs_bus s) type") (auto simp: current_route_def)
  have "bus_inv frames n b (Suc c) (DoPublish t type sender # hist) contents ?s"
  proof (rule bus_inv_step [OF inv])
    show "routes_inv (length (bs_boxes s)) c hist (bs_bus s) (bs_locals ?s)" using routes_refreshed [OF r t(2)] by simp
    show "store_refs (bs_store ?s) (refs contents ?s)" unfolding same using st'(2) by simp
    show "k < length (bs_boxes s)" if "q \<in> set (bs_pending ?s)" "k \<in> set (snd q)" for q k
      using that inv v set_update_subset_insert [of "bs_pending s" t "(a, ?v)"] by (auto simp: bus_inv_def)
  qed (use inv bus_inv_mono [OF inv, of b] in \<open>auto simp: bus_inv_def\<close>)
  moreover have "bus_act frames (DoPublish t type sender) s = Some (Inr ?s)"
    using True new st'(1) by (simp add: start_publish_def run_res_def)
  ultimately show ?thesis using a by auto
next
  case False
  then have "bus_act frames (DoPublish t type sender) s = Some (Inr s)" by (auto simp: run_ret_def)
  then show ?thesis using bus_noop_inv [OF inv, of "DoPublish t type sender"] False by auto
qed

lemma bus_act_inv:
  assumes "bus_inv frames n (Suc b) c hist contents s" "c < index_limit"
  shows "\<exists>s' contents'. bus_act frames a s = Some (Inr s') \<and> bus_inv frames n b (Suc c) (a # hist) contents' s'"
proof (cases a)
  case (DoPublish t type sender)
  then show ?thesis using bus_publish_inv [OF assms, of t type sender] by blast
qed (use bus_subscribe_inv [OF assms] bus_unsubscribe_inv [OF assms] bus_send_inv [OF assms(1)]
      bus_receive_inv [OF assms(1)] bus_release_inv [OF assms(1)] in blast)+

lemma bus_run_inv:
  assumes "bus_inv frames n (length acts + b) c hist contents s" "c + length acts < index_limit"
  shows "\<exists>s' contents'. bus_run frames acts s = Some (Inr s')
           \<and> bus_inv frames n b (c + length acts) (rev acts @ hist) contents' s'"
  using assms
proof (induction acts arbitrary: c hist contents s)
  case Nil
  then show ?case by (auto simp: run_ret_def)
next
  case (Cons a acts)
  have "bus_inv frames n (Suc (length acts + b)) c hist contents s" "c < index_limit" using Cons.prems by simp_all
  then obtain s1 contents1 where s1: "bus_act frames a s = Some (Inr s1)"
    "bus_inv frames n (length acts + b) (Suc c) (a # hist) contents1 s1"
    using bus_act_inv by blast
  then show ?case using Cons.IH [OF s1(2)] Cons.prems(2) by (simp add: run_simps)
qed

text \<open>Mailboxes that are empty and good for \<open>b\<close> operations.\<close>

definition fresh_boxes :: "coro_table \<Rightarrow> nat \<Rightarrow> nat \<Rightarrow> mail_box list \<Rightarrow> bool" where
  "fresh_boxes frames n b boxes \<longleftrightarrow> (\<forall>mb\<in>set boxes. mb_holds n b [] mb \<and> consumer_ok frames mb)"

lemma bus_start_inv:
  assumes "fresh_boxes frames n b boxes"
  shows "bus_inv frames n b 0 [] (replicate (length boxes) []) (bus_start threads boxes)"
proof -
  have "sum_list (map mset (replicate k [])) = ({#} :: addr multiset)" for k by (induction k) simp_all
  moreover have "sum_list (map pend_refs (replicate k (0, []))) = {#}" for k
    by (induction k) (simp_all add: pend_refs_def)
  ultimately show ?thesis
    using assms routes_start [of "length boxes" 0 threads]
    by (auto simp: bus_inv_def bus_start_def fresh_boxes_def refs_def store_refs_def store_wf_def empty_store_def)
qed

text \<open>The number of mailboxes and of threads does not change.\<close>

lemma bus_act_sizes:
  "bus_act frames a s = Some (Inr s') \<Longrightarrow>
   length (bs_boxes s') = length (bs_boxes s) \<and> length (bs_locals s') = length (bs_locals s)"
  by (cases a)
     (auto simp: run_bind_Inr_iff run_ret_def run_res_def start_publish_def publish_send_def res_bind_Inr_iff Let_def
       split: if_splits list.splits prod.splits)

lemma bus_run_sizes:
  "bus_run frames acts s = Some (Inr s') \<Longrightarrow>
   length (bs_boxes s') = length (bs_boxes s) \<and> length (bs_locals s') = length (bs_locals s)"
  by (erule bus_threads.exec_invariant [rotated]) (auto dest: bus_act_sizes)

section \<open>Properties\<close>

text \<open>
  C11. Messages published on the bus are neither used after they are freed nor leaked. However
  subscribing, unsubscribing, the single sends of deliveries, receiving and releasing interleave over any number of
  threads and mailboxes, no step faults, and at every moment the reference count of each live
  message is the number of deliveries still to make plus the mailboxes that hold it plus the consumers that have it;
  a message nobody refers to is gone.
\<close>

theorem event_bus_reference_counts:
  assumes "fresh_boxes frames n (length acts) boxes" "length acts < index_limit"
  shows "\<exists>s contents. bus_run frames acts (bus_start threads boxes) = Some (Inr s)
     \<and> length contents = length boxes
     \<and> (\<forall>k<length boxes. mb_holds n 0 (contents ! k) (bs_boxes s ! k))
     \<and> (\<forall>a. case heap (bs_store s) a of
             None \<Rightarrow> count (refs contents s) a = 0
           | Some m \<Rightarrow> unat (msg_ref m) = count (refs contents s) a \<and> 0 < count (refs contents s) a)"
proof -
  have start: "bus_inv frames n (length acts + 0) 0 [] (replicate (length boxes) []) (bus_start threads boxes)"
    using bus_start_inv [OF assms(1)] by simp
  obtain s contents where s: "bus_run frames acts (bus_start threads boxes) = Some (Inr s)"
    "bus_inv frames n 0 (0 + length acts) (rev acts @ []) contents s"
    using bus_run_inv [OF start] assms(2) by auto
  have "length (bs_boxes s) = length boxes" using bus_run_sizes [OF s(1)] by (simp add: bus_start_def)
  then show ?thesis
    using s by (intro exI [of _ s] exI [of _ contents] conjI) (simp_all add: bus_inv_def store_refs_def)
qed

text \<open>A mailbox of two slots subscribed twice over two threads, with a delivery under way.\<close>

definition bus_demo :: "bus_action list" where
  "bus_demo =
     [DoSubscribe kEventModuleExited 0, DoSubscribe kEventModuleExited 1, DoPublish 0 kEventModuleExited 9,
      DoSend 0, DoReceive 0, DoUnsubscribe kEventModuleExited 0, DoRelease 0]"

lemma bus_demo_boxes:
  "b < 100 \<Longrightarrow> fresh_boxes Map.empty 2 (Suc b) (replicate 2 (sleeping_box\<lparr>mb_consumer := None\<rparr>))"
  using sleeping_box_holds [of b] by (simp add: fresh_boxes_def consumer_ok_def sleeping_box_def mb_holds_def)

theorem event_bus_reference_counts_witness:
  "\<exists>s contents m. bus_run Map.empty bus_demo (bus_start 2 (replicate 2 (sleeping_box\<lparr>mb_consumer := None\<rparr>))) = Some (Inr s)
     \<and> heap (bs_store s) 0 = Some m \<and> unat (msg_ref m) = 1 \<and> count (refs contents s) 0 = 1"
proof -
  let ?boxes = "replicate 2 (sleeping_box\<lparr>mb_consumer := None\<rparr>)"
  have boxes: "fresh_boxes Map.empty 2 (length bus_demo) ?boxes"
    using bus_demo_boxes [of 6] by (simp add: bus_demo_def eval_nat_numeral)
  have "case bus_run Map.empty bus_demo (bus_start 2 ?boxes) of
          Some (Inr s) \<Rightarrow> (case heap (bs_store s) 0 of Some m \<Rightarrow> msg_ref m = 1 | None \<Rightarrow> False) | _ \<Rightarrow> False"
    by code_simp
  then obtain s m where s: "bus_run Map.empty bus_demo (bus_start 2 ?boxes) = Some (Inr s)"
    "heap (bs_store s) 0 = Some m" "msg_ref m = 1"
    by (auto split: option.splits sum.splits)
  obtain s' contents where "bus_run Map.empty bus_demo (bus_start 2 ?boxes) = Some (Inr s')"
    "\<forall>a. case heap (bs_store s') a of None \<Rightarrow> count (refs contents s') a = 0
       | Some m \<Rightarrow> unat (msg_ref m) = count (refs contents s') a \<and> 0 < count (refs contents s') a"
    using event_bus_reference_counts [OF boxes, of 2] by (auto simp: bus_demo_def)
  then have "count (refs contents s) 0 = 1" using s by (auto dest: spec [of _ 0])
  then show ?thesis using s by auto
qed

text \<open>
  C13. A published message goes to exactly the mailboxes that are subscribed to its type at that moment,
  whatever the thread's cached table was: the vector it is about to be sent along is a permutation of the
  subscriptions made and not undone so far, each as often as it was made.
\<close>

theorem publish_reaches_subscribers:
  assumes "fresh_boxes frames n (Suc (length acts)) boxes" "Suc (length acts) < index_limit"
    and "bus_run frames acts (bus_start threads boxes) = Some (Inr s)"
    and "t < threads" "snd (bs_pending s ! t) = []"
  shows "\<exists>s' v. bus_act frames (DoPublish t type sender) s = Some (Inr s')
     \<and> bs_pending s' = (bs_pending s)[t := (next_addr (bs_store s), v)]
     \<and> mset v = subscribers (length boxes) (rev acts) type"
proof -
  have start: "bus_inv frames n (length acts + Suc 0) 0 [] (replicate (length boxes) []) (bus_start threads boxes)"
    using bus_start_inv [OF assms(1)] by simp
  obtain contents where inv: "bus_inv frames n (Suc 0) (length acts) (rev acts) contents s"
    using bus_run_inv [OF start] assms(2,3) by auto
  have size: "length (bs_boxes s) = length boxes" "length (bs_locals s) = threads"
    using bus_run_sizes [OF assms(3)] by (simp_all add: bus_start_def)
  have "length acts < index_limit" using assms(2) by simp
  then obtain s' where s': "bus_act frames (DoPublish t type sender) s = Some (Inr s')"
    "bs_pending s' = (bs_pending s)[t := (next_addr (bs_store s), current_route (bs_bus s) type)]"
    using bus_publish_inv [OF inv, of t type sender] assms(4,5) size(2) by blast
  have r: "routes_inv (length boxes) (length acts) (rev acts) (bs_bus s) (bs_locals s)"
    using inv size(1) by (simp add: bus_inv_def)
  have "mset (current_route (bs_bus s) type) = subscribers (length boxes) (rev acts) type"
    using routes_inv_facts(1) [OF r, of type]
    by (cases "eb_event_bus (bs_bus s) type") (simp_all add: table_of_def current_route_def)
  then show ?thesis using s' by blast
qed

theorem publish_reaches_subscribers_witness:
  "\<exists>s s' v. bus_run Map.empty bus_demo (bus_start 2 (replicate 2 (sleeping_box\<lparr>mb_consumer := None\<rparr>))) = Some (Inr s)
     \<and> bus_act Map.empty (DoPublish 1 kEventModuleExited 3) s = Some (Inr s')
     \<and> snd (bs_pending s' ! 1) = v \<and> mset v = {#1#}"
proof -
  let ?boxes = "replicate 2 (sleeping_box\<lparr>mb_consumer := None\<rparr>)"
  have boxes: "fresh_boxes Map.empty 2 (Suc (length bus_demo)) ?boxes"
    using bus_demo_boxes [of 7] by (simp add: bus_demo_def eval_nat_numeral)
  have "case bus_run Map.empty bus_demo (bus_start 2 ?boxes) of
          Some (Inr s) \<Rightarrow> snd (bs_pending s ! 1) = [] \<and> length (bs_pending s) = 2 | _ \<Rightarrow> False"
    by code_simp
  then obtain s where s: "bus_run Map.empty bus_demo (bus_start 2 ?boxes) = Some (Inr s)"
    "snd (bs_pending s ! 1) = []" "length (bs_pending s) = 2"
    by (auto split: option.splits sum.splits)
  have "subscribers 2 (rev bus_demo) kEventModuleExited = {#1#}" by (simp add: bus_demo_def)
  then show ?thesis
    using publish_reaches_subscribers [OF boxes _ s(1), of 1 kEventModuleExited 3] s
    by (auto simp: bus_demo_def)
qed

end
