(* ===== verification/Task.thy ===== *)
theory Task
  imports Schedules
begin

text \<open>
  \<^verbatim>\<open>include/task.h\<close>: the coroutine type \<^verbatim>\<open>Task\<close> that one coroutine awaits from another, with its promise, its final
  awaiter and the three functions of the awaiting side; and the order in which two threads may
  go through them when the awaited coroutine sleeps and is woken by another worker.
\<close>

section \<open>Promise and awaiter\<close>

text \<open>\<^verbatim>\<open>std::variant<std::monostate, T, std::exception_ptr>\<close>; an exception is its message.\<close>

datatype 'a result = Monostate | Value 'a | Exception string

record 'a promise =
  pr_continuation :: "handle option"
  pr_result :: "'a result"

definition promise_new :: "'a promise" where
  "promise_new = \<lparr>pr_continuation = None, pr_result = Monostate\<rparr>"

definition return_value :: "'a \<Rightarrow> 'a promise \<Rightarrow> 'a promise" where
  "return_value v p = p\<lparr>pr_result := Value v\<rparr>"

definition unhandled_exception :: "string \<Rightarrow> 'a promise \<Rightarrow> 'a promise" where
  "unhandled_exception e p = p\<lparr>pr_result := Exception e\<rparr>"

text \<open>Whom the final suspend point transfers control to: \<open>None\<close> is \<^verbatim>\<open>std::noop_coroutine()\<close>.\<close>

definition final_await_suspend :: "'a promise \<Rightarrow> handle option" where
  "final_await_suspend p = pr_continuation p"

text \<open>The coroutine behind a \<^verbatim>\<open>Task\<close> is at its final suspend point, or not; a null handle is \<open>None\<close>.\<close>

definition task_await_ready :: "bool option \<Rightarrow> bool" where
  "task_await_ready h = (case h of None \<Rightarrow> True | Some at_final \<Rightarrow> at_final)"

definition task_await_suspend :: "handle \<Rightarrow> 'a promise \<Rightarrow> 'a promise" where
  "task_await_suspend caller p = p\<lparr>pr_continuation := Some caller\<rparr>"

text \<open>The value, or the exception rethrown (\<open>Inl\<close>); a result that was never set cannot be read as a value.\<close>

definition task_await_resume :: "'a promise \<Rightarrow> (string + 'a) res" where
  "task_await_resume p =
     (case pr_result p of
        Exception e \<Rightarrow> Inr (Inl e)
      | Value v \<Rightarrow> Inr (Inr v)
      | Monostate \<Rightarrow> Inl BadVariantAccess)"

section \<open>Awaiting\<close>

text \<open>
  The awaiting coroutine: the call of the other one is still on its stack, it is about to ask \<^verbatim>\<open>await_ready\<close>,
  to store itself as continuation, it is suspended, it has been resumed and is about to take the result, or the \<^verbatim>\<open>Task\<close> is
  destroyed and with it the frame of the awaited coroutine. The awaited one: running (it starts at
  once), asleep in an awaiter of its own, suspended at its final suspend point with the continuation still to be read, or done.
  \<open>ts_got\<close> is what the await expression evaluated to: the value, or the exception it threw.
\<close>

datatype outer_pc = OCalling | OReady | OStore | OSuspended | OResumed | OFinished
datatype inner_pc = IRun | ISleep | IFinal | IDone

record 'a task_sys =
  ts_outer :: outer_pc
  ts_inner :: inner_pc
  ts_promise :: "'a promise"
  ts_frame :: bool
  ts_got :: "(string + 'a) option"

definition task_start :: "'a task_sys" where
  "task_start = \<lparr>ts_outer = OCalling, ts_inner = IRun, ts_promise = promise_new, ts_frame = True, ts_got = None\<rparr>"

datatype 'a task_action = InnerSleep | InnerResume | InnerReturn 'a | InnerThrow string | InnerFinal | OuterStep

text \<open>When the call of the awaited coroutine comes back to its caller.\<close>

definition call_returns :: "'a task_sys \<Rightarrow> 'a task_sys" where
  "call_returns s = (if ts_outer s = OCalling then s\<lparr>ts_outer := OReady\<rparr> else s)"

text \<open>The handles of the two coroutines.\<close>

definition outer_handle :: handle where
  "outer_handle = 0"

definition inner_handle :: handle where
  "inner_handle = 1"

text \<open>The final awaiter reads the promise, which is in the frame.\<close>

definition inner_final :: "'a task_sys \<Rightarrow> 'a task_sys res" where
  "inner_final s =
     (if \<not> ts_frame s then Inl (UseAfterFree inner_handle)
      else let s = s\<lparr>ts_inner := IDone\<rparr>
           in case final_await_suspend (ts_promise s) of
                None \<Rightarrow> Inr (call_returns s)
              | Some h \<Rightarrow> if ts_outer s = OSuspended then Inr (s\<lparr>ts_outer := OResumed\<rparr>) else Inl (DoubleResume h))"

text \<open>\<^verbatim>\<open>done()\<close> answers whether the coroutine is suspended at its final suspend point.\<close>

fun outer_step :: "'a task_sys \<Rightarrow> outer_pc \<Rightarrow> 'a task_sys res" where
  "outer_step s OReady =
     (let at_final = ts_inner s = IFinal \<or> ts_inner s = IDone
      in Inr (s\<lparr>ts_outer := (if task_await_ready (Some at_final) then OResumed else OStore)\<rparr>))"
| "outer_step s OStore =
     Inr (s\<lparr>ts_promise := task_await_suspend outer_handle (ts_promise s), ts_outer := OSuspended\<rparr>)"
| "outer_step s OResumed =
     res_bind (task_await_resume (ts_promise s)) (\<lambda>r. Inr (s\<lparr>ts_outer := OFinished, ts_frame := False, ts_got := Some r\<rparr>))"
| "outer_step s _ = Inr s"

fun task_act :: "'a task_action \<Rightarrow> 'a task_sys \<Rightarrow> 'a task_sys res" where
  "task_act InnerSleep s = Inr (if ts_inner s = IRun then call_returns (s\<lparr>ts_inner := ISleep\<rparr>) else s)"
| "task_act InnerResume s = Inr (if ts_inner s = ISleep then s\<lparr>ts_inner := IRun\<rparr> else s)"
| "task_act (InnerReturn v) s =
     Inr (if ts_inner s = IRun then s\<lparr>ts_inner := IFinal, ts_promise := return_value v (ts_promise s)\<rparr> else s)"
| "task_act (InnerThrow e) s =
     Inr (if ts_inner s = IRun then s\<lparr>ts_inner := IFinal, ts_promise := unhandled_exception e (ts_promise s)\<rparr> else s)"
| "task_act InnerFinal s = (if ts_inner s = IFinal then inner_final s else Inr s)"
| "task_act OuterStep s = outer_step s (ts_outer s)"

fun task_run :: "'a task_action list \<Rightarrow> 'a task_sys \<Rightarrow> 'a task_sys res" where
  "task_run [] s = Inr s"
| "task_run (a # acts) s = res_bind (task_act a s) (task_run acts)"

interpretation two_coroutines: faulting_schedules task_act task_run
  by unfold_locales simp_all

text \<open>A schedule in which nobody wakes the awaited coroutine before its caller has stored the continuation.\<close>

fun patient :: "'a task_action list \<Rightarrow> 'a task_sys \<Rightarrow> bool" where
  "patient [] s = True"
| "patient (a # acts) s =
     ((a = InnerResume \<longrightarrow> ts_outer s \<noteq> OReady \<and> ts_outer s \<noteq> OStore)
      \<and> (case task_act a s of Inl e \<Rightarrow> True | Inr s' \<Rightarrow> patient acts s'))"

text \<open>How the body of the awaited coroutine ends in a schedule: the first \<^verbatim>\<open>co_return\<close> or exception it reaches while it runs.\<close>

fun ends_with :: "'a task_action list \<Rightarrow> 'a task_sys \<Rightarrow> (string + 'a) option" where
  "ends_with [] s = None"
| "ends_with (a # acts) s =
     (let later = (case task_act a s of Inl e \<Rightarrow> None | Inr s' \<Rightarrow> ends_with acts s')
      in if ts_inner s = IRun
         then (case a of InnerReturn v \<Rightarrow> Some (Inr v) | InnerThrow e \<Rightarrow> Some (Inl e) | _ \<Rightarrow> later)
         else later)"

section \<open>Lemmas\<close>

lemmas task_defs = call_returns_def return_value_def unhandled_exception_def final_await_suspend_def inner_final_def
  task_await_ready_def task_await_suspend_def task_await_resume_def promise_new_def

definition task_inv :: "'a task_sys \<Rightarrow> bool" where
  "task_inv s \<longleftrightarrow>
     (pr_result (ts_promise s) = Monostate \<longleftrightarrow> ts_inner s = IRun \<or> ts_inner s = ISleep)
     \<and> (pr_continuation (ts_promise s) \<noteq> None \<longrightarrow> ts_outer s = OSuspended \<or> ts_inner s = IDone)
     \<and> (case ts_outer s of
          OCalling \<Rightarrow> ts_inner s = IRun \<or> ts_inner s = IFinal
        | OReady \<Rightarrow> ts_inner s = ISleep \<or> ts_inner s = IDone
        | OStore \<Rightarrow> ts_inner s = ISleep
        | OSuspended \<Rightarrow> ts_inner s \<noteq> IDone \<and> pr_continuation (ts_promise s) \<noteq> None
        | OResumed \<Rightarrow> ts_inner s = IDone
        | OFinished \<Rightarrow> ts_inner s = IDone)
     \<and> (ts_frame s \<longleftrightarrow> ts_outer s \<noteq> OFinished)
     \<and> (ts_got s \<noteq> None \<longleftrightarrow> ts_outer s = OFinished)"

text \<open>The body has ended with \<open>r\<close>, and that is what the promise holds and what the caller has got, if it has got anything.\<close>

definition ended_as :: "(string + 'a) option \<Rightarrow> 'a task_sys \<Rightarrow> bool" where
  "ended_as r s \<longleftrightarrow>
     pr_result (ts_promise s) = (case r of None \<Rightarrow> Monostate | Some (Inl e) \<Rightarrow> Exception e | Some (Inr v) \<Rightarrow> Value v)
     \<and> (ts_got s \<noteq> None \<longrightarrow> ts_got s = r)"

lemma task_act_inv:
  assumes "task_inv s" "a = InnerResume \<longrightarrow> ts_outer s \<noteq> OReady \<and> ts_outer s \<noteq> OStore"
  shows "\<exists>s'. task_act a s = Inr s' \<and> task_inv s'"
  using assms
  by (cases a; cases "ts_outer s"; cases "ts_inner s"; cases "pr_result (ts_promise s)")
     (auto simp: task_inv_def task_defs split: option.splits)

lemma task_run_inv: "task_inv s \<Longrightarrow> patient acts s \<Longrightarrow> \<exists>s'. task_run acts s = Inr s' \<and> task_inv s'"
  by (rule two_coroutines.exec_guarded [where I = task_inv and guard = patient
        and ok = "\<lambda>a s. a = InnerResume \<longrightarrow> ts_outer s \<noteq> OReady \<and> ts_outer s \<noteq> OStore"])
     (auto intro: task_act_inv)

text \<open>What an action does to the stored result and to what the caller has got.\<close>

lemma outer_step_result:
  assumes "outer_step s pc = Inr s'"
  shows "pr_result (ts_promise s') = pr_result (ts_promise s)"
    and "ts_got s' = (if pc = OResumed then (case task_await_resume (ts_promise s) of Inl _ \<Rightarrow> None | Inr r \<Rightarrow> Some r) else ts_got s)"
  using assms by (cases pc; force simp: task_await_suspend_def res_bind_Inr_iff)+

lemma inner_final_result:
  assumes "inner_final s = Inr s'"
  shows "ts_promise s' = ts_promise s" "ts_got s' = ts_got s"
  using assms by (auto simp: inner_final_def call_returns_def Let_def split: if_splits option.splits)

lemma task_act_result:
  assumes "task_act a s = Inr s'"
  shows "pr_result (ts_promise s') =
      (if ts_inner s = IRun
       then (case a of InnerReturn v \<Rightarrow> Value v | InnerThrow e \<Rightarrow> Exception e | _ \<Rightarrow> pr_result (ts_promise s))
       else pr_result (ts_promise s))" (is ?result)
    and "ts_got s' = (if a = OuterStep \<and> ts_outer s = OResumed
       then (case task_await_resume (ts_promise s) of Inl _ \<Rightarrow> None | Inr r \<Rightarrow> Some r) else ts_got s)" (is ?got)
proof -
  consider "a = OuterStep" | "a = InnerFinal" "ts_inner s = IFinal" | "a \<noteq> OuterStep" "a \<noteq> InnerFinal \<or> ts_inner s \<noteq> IFinal"
    by blast
  then have "?result \<and> ?got"
  proof cases
    case 1
    then have "outer_step s (ts_outer s) = Inr s'" using assms by simp
    from outer_step_result [OF this] show ?thesis using 1 by simp
  next
    case 2
    then have "inner_final s = Inr s'" using assms by simp
    from inner_final_result [OF this] show ?thesis using 2 by simp
  next
    case 3
    then show ?thesis
      using assms by (cases a) (auto simp: call_returns_def return_value_def unhandled_exception_def)
  qed
  then show ?result ?got by blast+
qed

text \<open>A body that has ended does not end again, and its result stays.\<close>

lemma task_act_ended:
  assumes "task_inv s" "ended_as (Some r) s" "task_act a s = Inr s'"
  shows "ended_as (Some r) s'"
proof -
  have "ts_inner s \<noteq> IRun" using assms(1,2) by (cases r) (auto simp: task_inv_def ended_as_def)
  moreover have "task_await_resume (ts_promise s) = Inr r"
    using assms(2) by (cases r) (simp_all add: ended_as_def task_await_resume_def)
  ultimately show ?thesis using task_act_result [OF assms(3)] assms(2) by (simp add: ended_as_def)
qed

lemma task_run_ended:
  assumes "task_inv s" "ended_as (Some r) s" "patient acts s" "task_run acts s = Inr s'"
  shows "ended_as (Some r) s'"
  using assms
proof (induction acts arbitrary: s)
  case (Cons a acts)
  then obtain u where u: "task_act a s = Inr u" "task_inv u" using task_act_inv [OF Cons.prems(1), of a] by auto
  then show ?case using Cons.IH [OF u(2) task_act_ended [OF Cons.prems(1,2) u(1)]] Cons.prems(3,4) by simp
qed simp

lemma task_run_ends:
  assumes "task_inv s" "ended_as None s" "patient acts s" "task_run acts s = Inr s'"
  shows "ended_as (ends_with acts s) s'"
  using assms
proof (induction acts arbitrary: s)
  case (Cons a acts)
  then obtain u where u: "task_act a s = Inr u" "task_inv u" using task_act_inv [OF Cons.prems(1), of a] by auto
  then have rest: "patient acts u" "task_run acts u = Inr s'" using Cons.prems(3,4) by simp_all
  show ?case
  proof (cases "ts_inner s = IRun \<and> ((\<exists>v. a = InnerReturn v) \<or> (\<exists>e. a = InnerThrow e))")
    case True
    then obtain r where r: "ends_with (a # acts) s = Some r" "ended_as (Some r) u"
      using task_act_result [OF u(1)] Cons.prems(2) by (auto simp: ended_as_def)
    then show ?thesis using task_run_ended [OF u(2) r(2) rest] by simp
  next
    case False
    have "ts_outer s \<noteq> OResumed" "ts_got s = None"
      using Cons.prems(1,2) by (auto simp: task_inv_def ended_as_def)
    then have "ended_as None u"
      using task_act_result [OF u(1)] Cons.prems(2) False by (cases a) (simp_all add: ended_as_def)
    moreover have "ends_with (a # acts) s = ends_with acts u"
      using False unfolding ends_with.simps u(1) by (cases a) (simp_all add: Let_def)
    ultimately show ?thesis using Cons.IH [OF u(2) _ rest] by simp
  qed
qed simp

section \<open>Properties\<close>

text \<open>
  C21. Awaiting a task works as long as the awaited coroutine is not woken in the middle of it: in every such
  schedule nothing is resumed twice or touched after it is destroyed, and the caller never sleeps while the awaited coroutine is
  done. When the caller goes on, the coroutine is done and the caller is about to get what its body ended with, the value it
  returned or the exception it threw; once the await expression is over, that is what it has evaluated to. The
  frame is destroyed when the caller has the result and not before.
\<close>

theorem task_await_delivers:
  assumes "patient acts (task_start :: 'a task_sys)"
  shows "\<exists>s. task_run acts (task_start :: 'a task_sys) = Inr s
     \<and> \<not> (ts_inner s = IDone \<and> ts_outer s = OSuspended)
     \<and> (ts_outer s = OResumed \<longrightarrow> ts_inner s = IDone
          \<and> (\<exists>r. ends_with acts (task_start :: 'a task_sys) = Some r \<and> task_await_resume (ts_promise s) = Inr r))
     \<and> (ts_outer s = OFinished \<longrightarrow> ts_got s \<noteq> None \<and> ts_got s = ends_with acts (task_start :: 'a task_sys))
     \<and> (ts_frame s \<longleftrightarrow> ts_outer s \<noteq> OFinished)"
proof -
  have start: "task_inv (task_start :: 'a task_sys)" "ended_as None (task_start :: 'a task_sys)"
    by (simp_all add: task_inv_def ended_as_def task_start_def promise_new_def)
  obtain s where s: "task_run acts (task_start :: 'a task_sys) = Inr s" and inv: "task_inv s"
    using task_run_inv [OF start(1) assms] by blast
  note ends = task_run_ends [OF start assms s]
  have "\<exists>r. ends_with acts (task_start :: 'a task_sys) = Some r \<and> task_await_resume (ts_promise s) = Inr r"
    if "ts_inner s = IDone"
    using that inv ends by (auto simp: task_inv_def ended_as_def task_await_resume_def split: option.splits sum.splits)
  then show ?thesis
    using s inv ends by (intro exI [of _ s]; cases "ts_outer s") (auto simp: task_inv_def ended_as_def)
qed

theorem task_await_delivers_witness:
  "\<exists>s. task_run [InnerSleep, OuterStep, OuterStep, InnerResume, InnerReturn (7 :: nat), InnerFinal, OuterStep] task_start = Inr s
     \<and> ts_got s = Some (Inr 7) \<and> \<not> ts_frame s"
  using task_await_delivers [of "[InnerSleep, OuterStep, OuterStep, InnerResume, InnerReturn (7 :: nat), InnerFinal, OuterStep]"]
  by (simp add: task_start_def task_defs)


end
