(* ===== verification/Coroutines.thy ===== *)
theory Coroutines
  imports Task
begin

text \<open>
  \<^verbatim>\<open>include/task.h\<close> as a calling convention. Coroutines of the kinds \<^verbatim>\<open>Task<T>\<close>, \<^verbatim>\<open>Task<void>\<close> and \<^verbatim>\<open>LaunchTask\<close> live in frames;
  a body awaits others, sleeps, returns or throws; a worker resumes what is ready. One step of the machine is one
  of the points where the language calls into a promise or an awaiter. Theory \<open>Task\<close> has the promises and the races
  between two threads; here one thread runs everything, and the question is whether a nest of awaited coroutines behaves
  like a nest of function calls and frees all its frames.
\<close>

section \<open>Bodies\<close>

text \<open>
  The body of a coroutine: return a value, let an exception out, sleep and go on, await a coroutine (of kind \<^verbatim>\<open>Task<void>\<close> or not)
  and go on with the exception it threw, or what it returned; a \<^verbatim>\<open>Task<void>\<close> returns nothing.
\<close>

datatype 'v body =
    Ret 'v
  | Throw string
  | Sleep "'v body"
  | Await bool "'v body" "string + 'v option \<Rightarrow> 'v body"

definition delivered :: "bool \<Rightarrow> string + 'v \<Rightarrow> string + 'v option" where
  "delivered void r = map_sum id (\<lambda>v. if void then None else Some v) r"

text \<open>What the body means when awaiting is calling.\<close>

primrec eval :: "'v body \<Rightarrow> string + 'v" where
  "eval (Ret v) = Inr v"
| "eval (Throw e) = Inl e"
| "eval (Sleep b) = eval b"
| "eval (Await void b k) = (eval \<circ> k) (delivered void (eval b))"

text \<open>How often a body sleeps, everything it awaits included.\<close>

primrec sleeps :: "'v body \<Rightarrow> nat" where
  "sleeps (Ret v) = 0"
| "sleeps (Throw e) = 0"
| "sleeps (Sleep b) = Suc (sleeps b)"
| "sleeps (Await void b k) = sleeps b + (sleeps \<circ> k) (delivered void (eval b))"

section \<open>Frames\<close>

datatype coro_kind = TaskT | TaskVoid | Launch

text \<open>Where a coroutine is suspended, and what it does when it is resumed.\<close>

datatype 'v point =
    AtInit "'v body"
  | AtSleep "'v body"
  | AtAwait handle "string + 'v option \<Rightarrow> 'v body"
  | AtFinal
  | Executing

record 'v coro =
  co_kind :: coro_kind
  co_point :: "'v point"
  co_promise :: "'v promise"

type_synonym 'v frames = "handle \<rightharpoonup> 'v coro"

definition load_coro :: "handle \<Rightarrow> 'v frames \<Rightarrow> 'v coro res" where
  "load_coro h fs = (case fs h of None \<Rightarrow> Inl (UseAfterFree h) | Some c \<Rightarrow> Inr c)"

text \<open>\<^verbatim>\<open>initial_suspend\<close>: whether a coroutine of this kind waits to be started.\<close>

fun initial_suspend :: "coro_kind \<Rightarrow> bool" where
  "initial_suspend TaskT = False"
| "initial_suspend TaskVoid = False"
| "initial_suspend Launch = True"

text \<open>
  The call of a coroutine function: a frame with a new promise; \<^verbatim>\<open>get_return_object\<close> hands out its handle.
\<close>

definition get_return_object :: "coro_kind \<Rightarrow> 'v body \<Rightarrow> handle \<Rightarrow> 'v frames \<Rightarrow> handle \<times> 'v frames" where
  "get_return_object kind b h fs =
     (h, fs(h \<mapsto> \<lparr>co_kind = kind, co_point = (if initial_suspend kind then AtInit b else Executing), co_promise = promise_new\<rparr>))"

definition coro_is_done :: "handle \<Rightarrow> 'v frames \<Rightarrow> bool res" where
  "coro_is_done h fs = res_bind (load_coro h fs) (\<lambda>c. Inr (case co_point c of AtFinal \<Rightarrow> True | _ \<Rightarrow> False))"

text \<open>\<^verbatim>\<open>co_return\<close> and an exception that leaves the body. \<^verbatim>\<open>LaunchTask\<close> and \<^verbatim>\<open>Task<void>\<close> store no value.\<close>

definition promise_return :: "coro_kind \<Rightarrow> 'v \<Rightarrow> 'v promise \<Rightarrow> 'v promise" where
  "promise_return kind v p = (case kind of TaskT \<Rightarrow> return_value v p | TaskVoid \<Rightarrow> p | Launch \<Rightarrow> p)"

definition promise_unhandled :: "coro_kind \<Rightarrow> string \<Rightarrow> 'v promise \<Rightarrow> 'v promise res" where
  "promise_unhandled kind e p =
     (case kind of TaskT \<Rightarrow> Inr (unhandled_exception e p) | TaskVoid \<Rightarrow> Inr (unhandled_exception e p) | Launch \<Rightarrow> Inl Terminate)"

text \<open>\<^verbatim>\<open>Task<T>::await_resume\<close>, and for \<^verbatim>\<open>void\<close> the branch that reads no value.\<close>

definition coro_await_resume :: "'v coro \<Rightarrow> (string + 'v option) res" where
  "coro_await_resume c =
     (if co_kind c = TaskT then res_bind (task_await_resume (co_promise c)) (\<lambda>r. Inr (map_sum id Some r))
      else Inr (case pr_result (co_promise c) of Exception e \<Rightarrow> Inl e | _ \<Rightarrow> Inr None))"

text \<open>\<^verbatim>\<open>~Task\<close>: only a suspended coroutine may be destroyed.\<close>

definition Task_destroy :: "handle option \<Rightarrow> 'v frames \<Rightarrow> 'v frames res" where
  "Task_destroy handle fs =
     (case handle of
        None \<Rightarrow> Inr fs
      | Some h \<Rightarrow> res_bind (load_coro h fs) (\<lambda>c.
          case co_point c of Executing \<Rightarrow> Inl (DestroyRunning h) | _ \<Rightarrow> Inr (fs(h := None))))"

section \<open>The machine\<close>

text \<open>
  What the thread does next: execute a body in a frame, go through the final suspend point, enter a
  suspended coroutine, or go back to whoever resumed or called the coroutine that has just
  suspended. Callers are on the stack: coroutine \<open>h\<close> called \<open>h'\<close> and is about to await it.
\<close>

datatype 'v control =
    Exec handle "'v body"
  | Finish handle
  | Enter handle
  | Back

record 'v machine =
  cm_frames :: "'v frames"
  cm_next :: handle
  cm_control :: "'v control"
  cm_stack :: "(handle \<times> handle \<times> (string + 'v option \<Rightarrow> 'v body)) list"
  cm_ready :: "handle list"

definition set_point :: "handle \<Rightarrow> 'v point \<Rightarrow> 'v machine \<Rightarrow> 'v machine res" where
  "set_point h pt m =
     res_bind (load_coro h (cm_frames m)) (\<lambda>c. Inr (m\<lparr>cm_frames := (cm_frames m)(h \<mapsto> c\<lparr>co_point := pt\<rparr>)\<rparr>))"

text \<open>The end of an await expression in \<open>h\<close>: take the result of \<open>h'\<close>, destroy the temporary \<^verbatim>\<open>Task\<close>, go on.\<close>

definition take_result :: "handle \<Rightarrow> handle \<Rightarrow> (string + 'v option \<Rightarrow> 'v body) \<Rightarrow> 'v machine \<Rightarrow> 'v machine res" where
  "take_result h h' k m =
     res_bind (load_coro h' (cm_frames m)) (\<lambda>c.
       res_bind (coro_await_resume c) (\<lambda>r.
         res_bind (Task_destroy (Some h') (cm_frames m)) (\<lambda>fs.
           Inr (m\<lparr>cm_frames := fs, cm_control := Exec h (k r)\<rparr>))))"

fun exec_step :: "handle \<Rightarrow> 'v body \<Rightarrow> 'v machine \<Rightarrow> 'v machine res" where
  "exec_step h (Ret v) m =
     res_bind (load_coro h (cm_frames m)) (\<lambda>c.
       Inr (m\<lparr>cm_frames := (cm_frames m)(h \<mapsto> c\<lparr>co_promise := promise_return (co_kind c) v (co_promise c)\<rparr>), cm_control := Finish h\<rparr>))"
| "exec_step h (Throw e) m =
     res_bind (load_coro h (cm_frames m)) (\<lambda>c.
       res_bind (promise_unhandled (co_kind c) e (co_promise c)) (\<lambda>p.
         Inr (m\<lparr>cm_frames := (cm_frames m)(h \<mapsto> c\<lparr>co_promise := p\<rparr>), cm_control := Finish h\<rparr>)))"
| "exec_step h (Sleep b) m =
     res_bind (set_point h (AtSleep b) m) (\<lambda>m. Inr (m\<lparr>cm_control := Back, cm_ready := cm_ready m @ [h]\<rparr>))"
| "exec_step h (Await void b k) m =
     (let (h', fs) = get_return_object (if void then TaskVoid else TaskT) b (cm_next m) (cm_frames m)
      in Inr (m\<lparr>cm_frames := fs, cm_next := Suc (cm_next m), cm_stack := (h, h', k) # cm_stack m, cm_control := Exec h' b\<rparr>))"

text \<open>
  The final suspend point: a \<^verbatim>\<open>LaunchTask\<close> does not suspend there, so its frame goes away; a \<^verbatim>\<open>Task\<close> transfers
  control to its continuation.
\<close>

definition finish_step :: "handle \<Rightarrow> 'v machine \<Rightarrow> 'v machine res" where
  "finish_step h m =
     res_bind (load_coro h (cm_frames m)) (\<lambda>c.
       if co_kind c = Launch then Inr (m\<lparr>cm_frames := (cm_frames m)(h := None), cm_control := Back\<rparr>)
       else res_bind (set_point h AtFinal m) (\<lambda>m.
              Inr (m\<lparr>cm_control := (case final_await_suspend (co_promise c) of None \<Rightarrow> Back | Some h' \<Rightarrow> Enter h')\<rparr>)))"

definition enter_step :: "handle \<Rightarrow> 'v machine \<Rightarrow> 'v machine res" where
  "enter_step h m =
     res_bind (load_coro h (cm_frames m)) (\<lambda>c.
       res_bind (set_point h Executing m) (\<lambda>m.
         case co_point c of
           AtInit b \<Rightarrow> Inr (m\<lparr>cm_control := Exec h b\<rparr>)
         | AtSleep b \<Rightarrow> Inr (m\<lparr>cm_control := Exec h b\<rparr>)
         | AtAwait h' k \<Rightarrow> take_result h h' k m
         | AtFinal \<Rightarrow> Inl (UseAfterFree h)
         | Executing \<Rightarrow> Inl (DoubleResume h)))"

text \<open>
  Back in a caller: ask \<^verbatim>\<open>await_ready\<close>; go on, or store the continuation and suspend as well. Back in the
  worker: resume the next ready coroutine unless it is done.
\<close>

definition back_step :: "'v machine \<Rightarrow> 'v machine res" where
  "back_step m =
     (case cm_stack m of
        (h, h', k) # st \<Rightarrow>
          res_bind (coro_is_done h' (cm_frames m)) (\<lambda>at_final.
            if task_await_ready (Some at_final) then take_result h h' k (m\<lparr>cm_stack := st\<rparr>)
            else res_bind (load_coro h' (cm_frames m)) (\<lambda>c.
                   let fs = (cm_frames m)(h' \<mapsto> c\<lparr>co_promise := task_await_suspend h (co_promise c)\<rparr>)
                   in set_point h (AtAwait h' k) (m\<lparr>cm_frames := fs, cm_stack := st\<rparr>)))
      | [] \<Rightarrow>
          (case cm_ready m of
             [] \<Rightarrow> Inr m
           | h # hs \<Rightarrow> res_bind (coro_is_done h (cm_frames m)) (\<lambda>at_final.
               Inr (m\<lparr>cm_ready := hs, cm_control := (if at_final then Back else Enter h)\<rparr>))))"

definition co_step :: "'v machine \<Rightarrow> 'v machine res" where
  "co_step m =
     (case cm_control m of
        Exec h b \<Rightarrow> exec_step h b m
      | Finish h \<Rightarrow> finish_step h m
      | Enter h \<Rightarrow> enter_step h m
      | Back \<Rightarrow> back_step m)"

fun co_run :: "nat \<Rightarrow> 'v machine \<Rightarrow> 'v machine res" where
  "co_run 0 m = Inr m"
| "co_run (Suc n) m = res_bind (co_step m) (co_run n)"

text \<open>A worker with nothing to do but to start one \<^verbatim>\<open>LaunchTask\<close>.\<close>

definition launch_start :: "'v body \<Rightarrow> 'v machine" where
  "launch_start b =
     (let (h, fs) = get_return_object Launch b 0 Map.empty
      in \<lparr>cm_frames = fs, cm_next = 1, cm_control = Back, cm_stack = [], cm_ready = [h]\<rparr>)"

section \<open>Runs\<close>

lemma co_run_add: "co_run (n + k) m = res_bind (co_run n m) (co_run k)"
proof (induction n arbitrary: m)
  case (Suc n)
  then show ?case by (cases "co_step m") simp_all
qed simp

definition reaches :: "'v machine \<Rightarrow> 'v machine \<Rightarrow> bool" where
  "reaches m m' \<longleftrightarrow> (\<exists>n. co_run n m = Inr m')"

lemma reaches_refl: "reaches m m"
  unfolding reaches_def by (rule exI [of _ 0]) simp

lemma reaches_trans: "reaches m m1 \<Longrightarrow> reaches m1 m2 \<Longrightarrow> reaches m m2"
  unfolding reaches_def by (metis co_run_add res_bind.simps(2))

lemma reaches_step: "co_step m = Inr m1 \<Longrightarrow> reaches m1 m2 \<Longrightarrow> reaches m m2"
  using reaches_trans [of m m1 m2] unfolding reaches_def by (metis co_run.simps res_bind.simps(2))

text \<open>A machine by its parts.\<close>

abbreviation mach :: "'v frames \<Rightarrow> handle \<Rightarrow> 'v control \<Rightarrow> (handle \<times> handle \<times> (string + 'v option \<Rightarrow> 'v body)) list
    \<Rightarrow> handle list \<Rightarrow> 'v machine" where
  "mach F n ctl st rs \<equiv> \<lparr>cm_frames = F, cm_next = n, cm_control = ctl, cm_stack = st, cm_ready = rs\<rparr>"

lemmas co_defs = co_step_def finish_step_def enter_step_def back_step_def set_point_def take_result_def get_return_object_def
  coro_is_done_def load_coro_def Task_destroy_def

section \<open>Finished coroutines\<close>

text \<open>The body that does nothing but end with a given result.\<close>

definition ends :: "string + 'v \<Rightarrow> 'v body" where
  "ends r = (case r of Inl e \<Rightarrow> Throw e | Inr v \<Rightarrow> Ret v)"

definition awaited :: "bool \<Rightarrow> handle option \<Rightarrow> 'v coro" where
  "awaited void cont = \<lparr>co_kind = (if void then TaskVoid else TaskT), co_point = Executing,
     co_promise = \<lparr>pr_continuation = cont, pr_result = Monostate\<rparr>\<rparr>"

text \<open>The promise of a \<^verbatim>\<open>Task\<close> that has ended delivers its result.\<close>

definition ended :: "bool \<Rightarrow> handle option \<Rightarrow> string + 'v \<Rightarrow> 'v coro" where
  "ended void cont r = (awaited void cont)\<lparr>co_promise := \<lparr>pr_continuation = cont,
     pr_result = (case r of Inl e \<Rightarrow> Exception e | Inr v \<Rightarrow> if void then Monostate else Value v)\<rparr>\<rparr>"

lemma ended_delivers: "coro_await_resume ((ended void cont r)\<lparr>co_point := pt\<rparr>) = Inr (delivered void r)"
  by (cases r) (auto simp: coro_await_resume_def ended_def awaited_def delivered_def task_await_resume_def)

lemma ends_step:
  assumes "F h = Some (awaited void cont)"
  shows "co_step (mach F n (Exec h (ends r)) st rs) = Inr (mach (F(h \<mapsto> ended void cont r)) n (Finish h) st rs)"
  using assms
  by (cases r) (simp_all add: co_step_def load_coro_def ends_def ended_def awaited_def promise_return_def promise_unhandled_def
      return_value_def unhandled_exception_def)

lemma finish_step_task:
  "co_step (mach (F(h \<mapsto> ended void cont r)) n (Finish h) st rs) =
   Inr (mach (F(h \<mapsto> (ended void cont r)\<lparr>co_point := AtFinal\<rparr>)) n (case cont of None \<Rightarrow> Back | Some h' \<Rightarrow> Enter h') st rs)"
  by (simp add: co_defs ended_def awaited_def final_await_suspend_def)

text \<open>A coroutine that ends before its caller has suspended: the caller goes on with the result.\<close>

lemma finish_called:
  assumes "F h' = Some (awaited void None)"
  shows "reaches (mach F n (Exec h' (ends r)) ((h, h', k) # st) rs) (mach (F(h' := None)) n (Exec h (k (delivered void r))) st rs)"
proof -
  let ?m = "mach (F(h' \<mapsto> (ended void None r)\<lparr>co_point := AtFinal\<rparr>)) n Back ((h, h', k) # st) rs"
  have "co_step ?m = Inr (mach (F(h' := None)) n (Exec h (k (delivered void r))) st rs)"
    by (simp add: co_defs task_await_ready_def ended_delivers)
  then have "reaches ?m (mach (F(h' := None)) n (Exec h (k (delivered void r))) st rs)"
    using reaches_step reaches_refl by blast
  then show ?thesis
    using reaches_step [OF ends_step [of F h' void None, OF assms] reaches_step [OF finish_step_task]] by simp
qed

text \<open>A coroutine whose caller has suspended: its continuation resumes the caller with the result.\<close>

lemma finish_awaited:
  assumes "F h' = Some (awaited void (Some h))" "F h = Some (c\<lparr>co_point := AtAwait h' k\<rparr>)" "h \<noteq> h'"
  shows "reaches (mach F n (Exec h' (ends r)) st rs)
           (mach (F(h' := None, h \<mapsto> c\<lparr>co_point := Executing\<rparr>)) n (Exec h (k (delivered void r))) st rs)"
proof -
  let ?m = "mach (F(h' \<mapsto> (ended void (Some h) r)\<lparr>co_point := AtFinal\<rparr>)) n (Enter h) st rs"
  have "co_step ?m = Inr (mach (F(h' := None, h \<mapsto> c\<lparr>co_point := Executing\<rparr>)) n (Exec h (k (delivered void r))) st rs)"
    using assms(2,3) by (simp add: co_defs ended_delivers fun_upd_twist)
  then have "reaches ?m (mach (F(h' := None, h \<mapsto> c\<lparr>co_point := Executing\<rparr>)) n (Exec h (k (delivered void r))) st rs)"
    using reaches_step reaches_refl by blast
  then show ?thesis
    using reaches_step [OF ends_step [of F h' void "Some h", OF assms(1)] reaches_step [OF finish_step_task]] by simp
qed

section \<open>Sleeping chains\<close>

text \<open>
  In the frames \<open>G\<close> the coroutine \<open>h\<close>, which was \<open>c\<close> when it executed, is suspended with what remains of its body: it
  sleeps itself, or it awaits a coroutine that is suspended in the same sense and has \<open>h\<close> as its continuation.
  \<open>leaf\<close> is the one that sleeps, \<open>D\<close> are all coroutines of the chain.
\<close>

inductive chain :: "'v frames \<Rightarrow> handle \<Rightarrow> 'v coro \<Rightarrow> 'v body \<Rightarrow> handle \<Rightarrow> handle set \<Rightarrow> bool" for G where
  chain_sleep: "G h = Some (c\<lparr>co_point := AtSleep b\<rparr>) \<Longrightarrow> chain G h c (Sleep b) h {h}"
| chain_await: "G h = Some (c\<lparr>co_point := AtAwait h' k\<rparr>) \<Longrightarrow> chain G h' (awaited void (Some h)) b leaf D \<Longrightarrow> h \<notin> D \<Longrightarrow>
    chain G h c (Await void b k) leaf (insert h D)"

lemma chain_cong: "chain G h c b leaf D \<Longrightarrow> (\<And>x. x \<in> D \<Longrightarrow> G' x = G x) \<Longrightarrow> chain G' h c b leaf D"
proof (induction rule: chain.induct)
  case (chain_sleep h b c)
  then show ?case by (intro chain.chain_sleep) simp
next
  case (chain_await h h' k c void b leaf D)
  then show ?case by (intro chain.chain_await) simp_all
qed

lemma chain_head: "chain G h c b leaf D \<Longrightarrow> h \<in> D \<and> leaf \<in> D \<and> (\<exists>pt. G h = Some (c\<lparr>co_point := pt\<rparr>) \<and> pt \<noteq> AtFinal)"
  by (induction rule: chain.induct) auto

lemma chain_leaf: "chain G h c b leaf D \<Longrightarrow> \<exists>c' q. G leaf = Some (c'\<lparr>co_point := AtSleep q\<rparr>)"
  by (induction rule: chain.induct) auto

text \<open>Storing a continuation in the first coroutine of a chain.\<close>

lemma chain_continuation:
  assumes "chain G h (awaited void None) b leaf D"
  shows "chain (G(h \<mapsto> (the (G h))\<lparr>co_promise := task_await_suspend h0 (co_promise (the (G h)))\<rparr>)) h (awaited void (Some h0)) b leaf D"
  using assms
proof (cases rule: chain.cases)
  case (chain_sleep b')
  then show ?thesis by (auto intro!: chain.chain_sleep simp: awaited_def task_await_suspend_def)
next
  case (chain_await h' k void' b' D')
  let ?G = "G(h \<mapsto> (the (G h))\<lparr>co_promise := task_await_suspend h0 (co_promise (the (G h)))\<rparr>)"
  have "chain ?G h' (awaited void' (Some h)) b' leaf D'"
    using chain_await(4) by (rule chain_cong) (use chain_await(5) in auto)
  then show ?thesis
    using chain_await by (auto intro!: chain.chain_await simp: awaited_def task_await_suspend_def)
qed

text \<open>All frames are below the next address.\<close>

definition below :: "'v frames \<Rightarrow> handle \<Rightarrow> bool" where
  "below F n \<longleftrightarrow> (\<forall>x\<ge>n. F x = None)"

text \<open>
  What executing \<open>b\<close> in the frame of \<open>h\<close> leads to: the end of the body with its value, all else as before; or a chain that
  starts with \<open>h\<close> and consists of coroutines in \<open>A\<close> and new ones, with a body that means the same and does not
  sleep more often.
\<close>

inductive settles :: "handle set \<Rightarrow> 'v machine \<Rightarrow> 'v frames \<Rightarrow> handle \<Rightarrow> handle \<Rightarrow> 'v coro \<Rightarrow> string + 'v \<Rightarrow> nat \<Rightarrow> bool" for A where
  settles_end: "n \<le> n' \<Longrightarrow> reaches m (mach F n' (Exec h (ends r)) (cm_stack m) (cm_ready m)) \<Longrightarrow> settles A m F n h c r z"
| settles_sleep: "n \<le> n' \<Longrightarrow> reaches m (mach G n' Back (cm_stack m) (cm_ready m @ [leaf])) \<Longrightarrow> chain G h c b leaf D \<Longrightarrow>
    eval b = r \<Longrightarrow> sleeps b \<le> z \<Longrightarrow> (\<And>x. x \<notin> D \<Longrightarrow> G x = F x) \<Longrightarrow> D \<subseteq> A \<union> {n..<n'} \<Longrightarrow> settles A m F n h c r z"

lemma settles_reaches:
  assumes "settles A m1 F n1 h c r z1" "reaches m m1" "cm_stack m1 = cm_stack m" "cm_ready m1 = cm_ready m" "n \<le> n1" "z1 \<le> z"
    and "A \<subseteq> B"
  shows "settles B m F n h c r z"
  using assms(1)
proof cases
  case (settles_end n')
  then show ?thesis using assms(2-5) reaches_trans by (intro settles.settles_end [of n n']) auto
next
  case (settles_sleep n' G leaf b D)
  have "D \<subseteq> B \<union> {n..<n'}" using settles_sleep(7) assms(5,7) by fastforce
  then show ?thesis
    using settles_sleep assms(2-6) reaches_trans by (intro settles.settles_sleep [of n n' m G leaf h c b D]) auto
qed

text \<open>A caller whose callee has gone to sleep suspends as well.\<close>

lemma caller_suspends:
  assumes ch: "chain G h' (awaited void None) b leaf D" and h: "G h = Some c" "h \<notin> D"
  shows "\<exists>G'. co_step (mach G n Back ((h, h', k) # st) rs) = Inr (mach G' n Back st rs)
    \<and> chain G' h c (Await void b k) leaf (insert h D) \<and> (\<forall>x. x \<notin> insert h D \<longrightarrow> G' x = G x)"
proof -
  obtain pt where pt: "G h' = Some ((awaited void None)\<lparr>co_point := pt\<rparr>)" "pt \<noteq> AtFinal" "h' \<in> D"
    using chain_head [OF ch] by blast
  let ?G1 = "G(h' \<mapsto> (the (G h'))\<lparr>co_promise := task_await_suspend h (co_promise (the (G h')))\<rparr>)"
  let ?G = "?G1(h \<mapsto> c\<lparr>co_point := AtAwait h' k\<rparr>)"
  have ne: "h \<noteq> h'" using h(2) pt(3) by auto
  have "coro_is_done h' G = Inr False"
    using pt(1,2) by (simp add: coro_is_done_def load_coro_def split: point.splits)
  then have "co_step (mach G n Back ((h, h', k) # st) rs) = Inr (mach ?G n Back st rs)"
    using h(1) pt(1) ne by (simp add: co_step_def back_step_def task_await_ready_def load_coro_def set_point_def)
  moreover have "chain ?G h' (awaited void (Some h)) b leaf D"
    using chain_continuation [OF ch] by (rule chain_cong) (use h(2) in auto)
  then have "chain ?G h c (Await void b k) leaf (insert h D)" using h(2) by (intro chain_await) simp_all
  moreover have "\<forall>x. x \<notin> insert h D \<longrightarrow> ?G x = G x" using pt(3) by auto
  ultimately show ?thesis by blast
qed

lemma exec_settles:
  assumes "below F n" "F h = Some c"
  shows "settles {h} (mach F n (Exec h b) st rs) F n h c (eval b) (sleeps b)"
  using assms
proof (induction b arbitrary: F n h c st rs)
  case (Ret v)
  then show ?case by (intro settles_end [of n n]) (simp_all add: ends_def reaches_refl)
next
  case (Throw e)
  then show ?case by (intro settles_end [of n n]) (simp_all add: ends_def reaches_refl)
next
  case (Sleep b)
  let ?G = "F(h \<mapsto> c\<lparr>co_point := AtSleep b\<rparr>)"
  have "co_step (mach F n (Exec h (Sleep b)) st rs) = Inr (mach ?G n Back st (rs @ [h]))"
    using Sleep.prems(2) by (simp add: co_step_def set_point_def load_coro_def)
  then have "reaches (mach F n (Exec h (Sleep b)) st rs) (mach ?G n Back st (rs @ [h]))"
    using reaches_step reaches_refl by blast
  moreover have "chain ?G h c (Sleep b) h {h}" by (rule chain_sleep) simp
  ultimately show ?case by (intro settles_sleep [of n n _ ?G h h c "Sleep b" "{h}"]) simp_all
next
  case (Await void b k)
  let ?F = "F(n \<mapsto> awaited void None)" and ?r = "delivered void (eval b)" and ?m = "mach F n (Exec h (Await void b k)) st rs"
  have n: "F n = None" "h < n" using Await.prems by (auto simp: below_def not_less [symmetric])
  have step: "co_step ?m = Inr (mach ?F (Suc n) (Exec n b) ((h, n, k) # st) rs)"
    by (simp add: co_step_def get_return_object_def awaited_def promise_new_def)
  have "below ?F (Suc n)" using Await.prems(1) by (simp add: below_def)
  then have "settles {n} (mach ?F (Suc n) (Exec n b) ((h, n, k) # st) rs) ?F (Suc n) n (awaited void None) (eval b) (sleeps b)"
    by (rule Await.IH(1)) simp
  then show ?case
  proof cases
    case (settles_end n')
    moreover have "?F(n := None) = F" using n(1) by auto
    ultimately have "reaches ?m (mach F n' (Exec h (k ?r)) st rs)"
      using reaches_step [OF step reaches_trans] finish_called [of ?F n void n' "eval b" h k st rs] by simp
    moreover have "settles {h} (mach F n' (Exec h (k ?r)) st rs) F n' h c (eval (k ?r)) (sleeps (k ?r))"
      using Await.IH(2) [of "k ?r" F n' h c st rs] Await.prems settles_end(1) by (auto simp: below_def)
    ultimately show ?thesis
      using settles_reaches [where n = n and z = "sleeps (Await void b k)" and B = "{h}"] settles_end(1) by fastforce
  next
    case (settles_sleep n' G leaf b' D)
    have hD: "h \<notin> D" using settles_sleep(7) n(2) by auto
    then have "G h = Some c" using settles_sleep(6) n(2) Await.prems(2) by simp
    from caller_suspends [OF settles_sleep(3) this hD, of n' k st "rs @ [leaf]"] obtain G' where
      G': "co_step (mach G n' Back ((h, n, k) # st) (rs @ [leaf])) = Inr (mach G' n' Back st (rs @ [leaf]))"
      "chain G' h c (Await void b' k) leaf (insert h D)" "\<forall>x. x \<notin> insert h D \<longrightarrow> G' x = G x" by blast
    have "reaches ?m (mach G' n' Back st (rs @ [leaf]))"
      using reaches_step [OF step reaches_trans [OF _ reaches_step [OF G'(1) reaches_refl]]] settles_sleep(2) by simp
    moreover have "G' x = F x" if "x \<notin> insert h D" for x
      using that G'(3) settles_sleep(6) chain_head [OF settles_sleep(3)] by auto
    ultimately show ?thesis
      using G'(2) settles_sleep(1,4,5,7) by (intro settles.settles_sleep [of n n' _ G' leaf h c "Await void b' k" "insert h D"]) auto
  qed
qed

lemma chain_below: "chain G h c b leaf D \<Longrightarrow> below G n \<Longrightarrow> x \<in> D \<Longrightarrow> x < n"
  by (induction rule: chain.induct) (auto simp: below_def not_less [symmetric])

text \<open>Resuming the sleeping coroutine of a chain: the same two outcomes, with one sleep less.\<close>

lemma resume_settles:
  assumes "chain G h c b leaf D" "below G n" "co_point c = Executing"
  shows "settles D (mach G n (Enter leaf) st rs) ((\<lambda>x. if x \<in> D then None else G x)(h \<mapsto> c)) n h c (eval b) (sleeps b - 1)
    \<and> 0 < sleeps b"
  using assms
proof (induction arbitrary: n rule: chain.induct)
  case (chain_sleep h b c)
  let ?F = "(\<lambda>x. if x \<in> {h} then None else G x)(h \<mapsto> c)"
  have "c\<lparr>co_point := Executing\<rparr> = c" using chain_sleep.prems(2) by (cases c) simp
  then have "co_step (mach G n (Enter h) st rs) = Inr (mach ?F n (Exec h b) st rs)"
    using chain_sleep.hyps by (simp add: co_defs) (auto simp: fun_eq_iff)
  then have R: "reaches (mach G n (Enter h) st rs) (mach ?F n (Exec h b) st rs)"
    using reaches_step reaches_refl by blast
  have "below ?F n" using chain_sleep.prems(1) chain_sleep.hyps by (auto simp: below_def)
  then have S: "settles {h} (mach ?F n (Exec h b) st rs) ?F n h c (eval b) (sleeps b)" by (rule exec_settles) simp
  have "settles {h} (mach G n (Enter h) st rs) ?F n h c (eval b) (sleeps b)"
    by (rule settles_reaches [OF S R]) simp_all
  then show ?case unfolding eval.simps sleeps.simps by (simp only: diff_Suc_1 zero_less_Suc simp_thms)
next
  case (chain_await h h' k c void b leaf D)
  let ?F1 = "(\<lambda>x. if x \<in> D then None else G x)(h' \<mapsto> awaited void (Some h))"
  let ?F = "(\<lambda>x. if x \<in> insert h D then None else G x)(h \<mapsto> c)"
  let ?r = "delivered void (eval b)" and ?m = "mach G n (Enter leaf) st rs" and ?z = "sleeps (Await void b k) - 1"
  have h: "h < n" "h \<noteq> h'" using chain_await.hyps chain_await.prems(1) chain_head [OF chain_await.hyps(2)]
    by (auto simp: below_def not_less [symmetric])
  have ex: "co_point (awaited void (Some h)) = Executing" by (simp add: awaited_def)
  have IH: "settles D ?m ?F1 n h' (awaited void (Some h)) (eval b) (sleeps b - 1)" "0 < sleeps b"
    using conjunct1 [OF chain_await.IH [OF chain_await.prems(1) ex]] conjunct2 [OF chain_await.IH [OF chain_await.prems(1) ex]] .
  from IH(1) have "settles (insert h D) ?m ?F n h c (eval (k ?r)) ?z"
  proof cases
    case (settles_end n')
    have f: "?F1 h' = Some (awaited void (Some h))" "?F1 h = Some (c\<lparr>co_point := AtAwait h' k\<rparr>)"
      using chain_await.hyps(1,3) h(2) by simp_all
    have "reaches (mach ?F1 n' (Exec h' (ends (eval b))) st rs)
        (mach (?F1(h' := None, h \<mapsto> c\<lparr>co_point := Executing\<rparr>)) n' (Exec h (k ?r)) st rs)"
      by (rule finish_awaited [where F = ?F1, OF f h(2)])
    moreover have "c\<lparr>co_point := Executing\<rparr> = c" using chain_await.prems(2) by (cases c) simp
    moreover have "?F1(h' := None, h \<mapsto> c) = ?F" using chain_head [OF chain_await.hyps(2)] by (auto simp: fun_eq_iff)
    ultimately have R: "reaches ?m (mach ?F n' (Exec h (k ?r)) st rs)"
      using settles_end(2) reaches_trans [of ?m "mach ?F1 n' (Exec h' (ends (eval b))) st rs"] by simp
    have "below ?F n'" using chain_await.prems(1) settles_end(1) h(1) by (auto simp: below_def)
    then have S: "settles {h} (mach ?F n' (Exec h (k ?r)) st rs) ?F n' h c (eval (k ?r)) (sleeps (k ?r))"
      by (rule exec_settles) simp
    show ?thesis by (rule settles_reaches [OF S R]) (use settles_end(1) IH(2) in simp_all)
  next
    case (settles_sleep n' G' leaf' b' D')
    have hD: "h \<notin> D'" using settles_sleep(7) h(1) chain_await.hyps(3) by auto
    then have "G' h = Some (c\<lparr>co_point := AtAwait h' k\<rparr>)" using settles_sleep(6) h(2) chain_await.hyps(1,3) by simp
    then have "chain G' h c (Await void b' k) leaf' (insert h D')"
      using settles_sleep(3) hD by (intro chain.chain_await)
    moreover have "G' x = ?F x" if "x \<notin> insert h D'" for x
      using that settles_sleep(6) [of x] chain_head [OF settles_sleep(3)] by auto
    moreover have "insert h D' \<subseteq> insert h D \<union> {n..<n'}" using settles_sleep(7) by auto
    ultimately show ?thesis
      using settles_sleep(1,2,4,5) IH(2)
      by (intro settles.settles_sleep [of n n' _ G' leaf' h c "Await void b' k" "insert h D'"]) auto
  qed
  moreover have "0 < sleeps (Await void b k)" using IH(2) by simp
  ultimately show ?case unfolding eval.simps comp_apply by (rule conjI)
qed

section \<open>Properties\<close>

text \<open>A worker that resumes the sleeping coroutine again and again brings the first one of the chain to its end.\<close>

lemma drive_chain:
  assumes "chain G h c b leaf D" "below G n" "co_point c = Executing" "\<forall>x. x \<notin> D \<longrightarrow> G x = None"
  shows "\<exists>n'. reaches (mach G n Back [] [leaf]) (mach [h \<mapsto> c] n' (Exec h (ends (eval b))) [] [])"
  using assms
proof (induction "sleeps b" arbitrary: G b leaf D n rule: less_induct)
  case less
  let ?F = "(\<lambda>x. if x \<in> D then None else G x)(h \<mapsto> c)"
  have F: "?F = [h \<mapsto> c]" using less.prems(4) by (auto simp: fun_eq_iff)
  have "co_step (mach G n Back [] [leaf]) = Inr (mach G n (Enter leaf) [] [])"
    using chain_leaf [OF less.prems(1)] by (auto simp: co_step_def back_step_def coro_is_done_def load_coro_def)
  note wake = reaches_step [OF this]
  have settles: "settles D (mach G n (Enter leaf) [] []) [h \<mapsto> c] n h c (eval b) (sleeps b - 1)" and pos: "0 < sleeps b"
    using resume_settles [OF less.prems(1-3), of "[]" "[]"] unfolding F by simp_all
  from settles show ?case
  proof cases
    case (settles_end n')
    then show ?thesis using wake by auto
  next
    case (settles_sleep n' G' leaf' b' D')
    have D: "x \<in> D' \<Longrightarrow> x < n'" for x
      using settles_sleep(1,7) less.prems(2) chain_below [OF less.prems(1,2)] by fastforce
    have "h \<in> D'" using chain_head [OF settles_sleep(3)] by blast
    then have G': "\<forall>x. x \<notin> D' \<longrightarrow> G' x = None" using settles_sleep(6) by auto
    then have "below G' n'" unfolding below_def using D by (meson not_less)
    then obtain n'' where "reaches (mach G' n' Back [] [leaf']) (mach [h \<mapsto> c] n'' (Exec h (ends (eval b'))) [] [])"
      using less.hyps [of b' G' leaf' D' n'] settles_sleep(3,5) pos less.prems(3) G' by fastforce
    then show ?thesis using wake reaches_trans settles_sleep(2,4) by fastforce
  qed
qed

text \<open>
  C15. A nest of awaited tasks behaves like a nest of function calls. Whatever the body of a \<^verbatim>\<open>LaunchTask\<close> awaits, at whatever depth,
  and wherever it sleeps: a worker that starts it and resumes whoever wakes up brings it to its end in finitely many steps. Every
  await expression goes on with the value or the exception the awaited body means. Then every frame has been
  destroyed and nothing is left to run; if the body lets an exception out, the program is terminated.
\<close>

theorem launched_task_completes:
  fixes b :: "'v body"
  shows "case eval b of
     Inr v \<Rightarrow> \<exists>n next. co_run n (launch_start b) = Inr (mach Map.empty next Back [] [])
   | Inl e \<Rightarrow> \<exists>n. co_run n (launch_start b) = Inl Terminate"
proof -
  let ?c = "\<lparr>co_kind = Launch, co_point = Executing, co_promise = promise_new\<rparr> :: 'v coro"
  let ?s = "mach [0 \<mapsto> ?c] 1 (Exec 0 b) [] []"
  have start: "reaches (launch_start b) ?s"
    unfolding reaches_def
    by (rule exI [of _ "Suc (Suc 0)"]) (simp add: launch_start_def co_defs)
  have "settles {0} ?s [0 \<mapsto> ?c] 1 0 ?c (eval b) (sleeps b)" by (rule exec_settles) (simp_all add: below_def)
  then have "\<exists>n'. reaches ?s (mach [0 \<mapsto> ?c] n' (Exec 0 (ends (eval b))) [] [])"
  proof cases
    case (settles_end n')
    then show ?thesis by auto
  next
    case (settles_sleep n' G leaf b' D)
    have G: "\<forall>x. x \<notin> D \<longrightarrow> G x = None" using settles_sleep(6) chain_head [OF settles_sleep(3)] by auto
    have "x < n'" if "x \<in> D" for x using that settles_sleep(1,7) by (auto dest!: subsetD)
    then have "below G n'" unfolding below_def using G by (meson not_less)
    from drive_chain [OF settles_sleep(3) this _ G] obtain n'' where
      "reaches (mach G n' Back [] [leaf]) (mach [0 \<mapsto> ?c] n'' (Exec 0 (ends (eval b'))) [] [])" by auto
    then show ?thesis using reaches_trans [of ?s "mach G n' Back [] [leaf]"] settles_sleep(2,4) by auto
  qed
  then obtain n' where "reaches (launch_start b) (mach [0 \<mapsto> ?c] n' (Exec 0 (ends (eval b))) [] [])"
    using reaches_trans [OF start] by blast
  then obtain n where n: "co_run n (launch_start b) = Inr (mach [0 \<mapsto> ?c] n' (Exec 0 (ends (eval b))) [] [])"
    unfolding reaches_def by blast
  show ?thesis
  proof (cases "eval b")
    case (Inl e)
    then have "co_run (n + Suc 0) (launch_start b) = Inl Terminate"
      unfolding co_run_add n by (simp add: ends_def co_defs promise_unhandled_def)
    then show ?thesis unfolding Inl sum.case by (rule exI)
  next
    case (Inr v)
    then have "co_run (n + 2) (launch_start b) = Inr (mach Map.empty n' Back [] [])"
      unfolding co_run_add n by (simp add: ends_def co_defs promise_return_def numeral_2_eq_2)
    then show ?thesis unfolding Inr sum.case by (intro exI)
  qed
qed

end
