(* ===== verification/Plugin_Manager.thy ===== *)
theory Plugin_Manager
  imports Prelude
begin

text \<open>
  \<^verbatim>\<open>src/core/plugin_manager.h\<close> and \<^verbatim>\<open>plugin_manager.cc\<close>: the configuration with its list of modules, the
  loader that reads it from \<^verbatim>\<open>config/server.toml\<close>, and the update that replaces the current
  configuration. The answers of the operating system and the TOML reader are arguments.
\<close>

section \<open>Configuration\<close>

record ac_module =
  mod_module_name :: string
  mod_library_name :: string

record ac_config =
  cfg_library_path :: string
  cfg_modules :: "ac_module list"

text \<open>
  What the system calls answer: \<^verbatim>\<open>stat\<close> (whether the file is regular, its size), \<^verbatim>\<open>open\<close>, and
  \<^verbatim>\<open>read\<close> of so many bytes (\<open>None\<close> for an error).
\<close>

record config_io =
  io_stat :: "(bool \<times> nat) option"
  io_open :: bool
  io_read :: "nat \<Rightarrow> 8 word list option"

section \<open>Operations\<close>

text \<open>
  The buffer has the size \<^verbatim>\<open>stat\<close> reported and starts as zeros; the parser gets all of it, also
  when \<^verbatim>\<open>read\<close> returned less.
\<close>

definition read_buffer :: "nat \<Rightarrow> 8 word list \<Rightarrow> 8 word list" where
  "read_buffer st_size bytes = take st_size bytes @ replicate (st_size - length bytes) 0"

definition config_loader :: "(8 word list \<Rightarrow> ac_config option) \<Rightarrow> config_io \<Rightarrow> ac_config option" where
  "config_loader read_toml io =
     (case io_stat io of
        None \<Rightarrow> None
      | Some (regular, st_size) \<Rightarrow>
          if \<not> regular then None
          else if \<not> io_open io then None
          else case io_read io st_size of
                 None \<Rightarrow> None
               | Some bytes \<Rightarrow> if bytes = [] then None else read_toml (read_buffer st_size bytes))"

text \<open>The constructor ends the process when there is no configuration (\<open>None\<close>).\<close>

definition plugin_manager_new :: "(8 word list \<Rightarrow> ac_config option) \<Rightarrow> config_io \<Rightarrow> ac_config option" where
  "plugin_manager_new read_toml io = config_loader read_toml io"

definition GetConfigInfo :: "ac_config \<Rightarrow> ac_config" where
  "GetConfigInfo config_info = config_info"

definition UpdateConfig ::
    "(8 word list \<Rightarrow> ac_config option) \<Rightarrow> config_io \<Rightarrow> ac_config \<Rightarrow> bool \<times> ac_config" where
  "UpdateConfig read_toml io config_info =
     (case config_loader read_toml io of
        Some new_config \<Rightarrow> (True, new_config)
      | None \<Rightarrow> (False, config_info))"

section \<open>Lemmas\<close>

lemma length_read_buffer: "length bytes \<le> st_size \<Longrightarrow> length (read_buffer st_size bytes) = st_size"
  by (simp add: read_buffer_def)

lemma read_buffer_full: "length bytes = st_size \<Longrightarrow> read_buffer st_size bytes = bytes"
  by (simp add: read_buffer_def)

lemma UpdateConfig_success:
  "fst (UpdateConfig read_toml io cfg) \<Longrightarrow> config_loader read_toml io = Some (snd (UpdateConfig read_toml io cfg))"
  by (auto simp: UpdateConfig_def split: option.splits)

lemma UpdateConfig_failure: "\<not> fst (UpdateConfig read_toml io cfg) \<Longrightarrow> UpdateConfig read_toml io cfg = (False, cfg)"
  by (auto simp: UpdateConfig_def split: option.splits)

text \<open>
  Updating the configuration is all or nothing. When it reports success, the file was a readable
  regular file, some bytes were read and the TOML reader accepted the buffer, and the
  configuration is what the reader made of it; otherwise the configuration in use is untouched. A read
  that delivers the whole file hands exactly the file to the reader.
\<close>

lemma UpdateConfig_all_or_nothing:
  assumes "UpdateConfig read_toml io cfg = (ok, cfg')" "\<And>st_size bytes. io_read io st_size = Some bytes \<Longrightarrow> length bytes \<le> st_size"
  shows "if ok
         then \<exists>st_size bytes. io_stat io = Some (True, st_size) \<and> io_open io \<and> io_read io st_size = Some bytes \<and> 0 < length bytes
                \<and> read_toml (bytes @ replicate (st_size - length bytes) 0) = Some cfg'
         else cfg' = cfg"
  using assms
  by (auto simp: UpdateConfig_def config_loader_def read_buffer_def split: option.splits if_splits prod.splits)

text \<open>The configuration that comes with the repository.\<close>

definition demo_config :: ac_config where
  "demo_config = \<lparr>cfg_library_path = ''lib'',
     cfg_modules = [\<lparr>mod_module_name = ''network_module'', mod_library_name = ''netactor''\<rparr>]\<rparr>"

end
