(* ===== verification/Actor_Manager.thy ===== *)
theory Actor_Manager
  imports Mail_Box Plugin_Manager Helper
begin

text \<open>
  \<^verbatim>\<open>src/core/actor_manager.h\<close> and \<^verbatim>\<open>actor_manager.cc\<close>: the supervisor of the module actors. Its
  state is the record below together with what it acts on: the mailboxes, the messages, the identifier counter,
  the configuration, and the coroutines it hands to the scheduler. Each handler of the event loop is one function;
  the invariants they keep are in theory \<open>Actor_Manager_Invariant\<close>.
\<close>

section \<open>Loaded modules\<close>

record LoadedModule =
  lm_path :: string
  lm_handle :: bool
  lm_create_func :: bool
  lm_destroy_func :: bool

text \<open>
  The dynamic loader's answer for a path: \<open>None\<close> when \<^verbatim>\<open>dlopen\<close> fails, otherwise whether the
  library has the symbols \<^verbatim>\<open>CreateModule\<close> and \<^verbatim>\<open>DestroyModule\<close>.
\<close>

type_synonym library = "string \<Rightarrow> (bool \<times> bool) option"

definition LoadedModule_new :: "string \<Rightarrow> LoadedModule" where
  "LoadedModule_new path = \<lparr>lm_path = path, lm_handle = False, lm_create_func = False, lm_destroy_func = False\<rparr>"

definition Close :: "LoadedModule \<Rightarrow> LoadedModule" where
  "Close m = m\<lparr>lm_create_func := False, lm_destroy_func := False, lm_handle := False\<rparr>"

definition Open :: "library \<Rightarrow> LoadedModule \<Rightarrow> bool \<times> LoadedModule" where
  "Open lib m =
     (let m = Close m
      in case lib (lm_path m) of
           None \<Rightarrow> (False, m)
         | Some (create, destroy) \<Rightarrow>
             let m = m\<lparr>lm_handle := True, lm_create_func := create\<rparr>
             in if \<not> create then (False, Close m)
                else let m = m\<lparr>lm_destroy_func := destroy\<rparr>
                     in if \<not> destroy then (False, Close m) else (True, m))"

text \<open>A creator is the captured module; the empty \<^verbatim>\<open>std::function\<close> is \<open>None\<close>.\<close>

definition generate_creator :: "library \<Rightarrow> string \<Rightarrow> LoadedModule option" where
  "generate_creator lib path =
     (let (ok, m) = Open lib (LoadedModule_new path) in if ok then Some m else None)"

section \<open>State\<close>

record ActorMetaData =
  md_actor_id :: size_t
  md_mailbox :: addr
  md_module_name :: string
  md_creator :: "LoadedModule option"

text \<open>A coroutine \<^verbatim>\<open>__launch_actor(module, actor_id, mailbox)\<close> that has been created and not yet run.\<close>

record launch =
  la_module :: LoadedModule
  la_actor_id :: size_t
  la_mailbox :: addr

type_synonym children = "(size_t \<times> ActorMetaData) list"

text \<open>
  \<open>am_childrens\<close> lists the entries of \<^verbatim>\<open>childrens_\<close> in iteration order. \<open>am_enqueued\<close> are the module
  coroutines passed to \<^verbatim>\<open>Enqueue\<close> or \<^verbatim>\<open>EnqueueBatch\<close> so far, \<open>am_woken\<close> the sleeping consumers
  \<^verbatim>\<open>Send\<close> passed to it. A mailbox is its place in \<open>am_boxes\<close>.
\<close>

record manager =
  am_is_running :: bool
  am_reload_all_flag :: bool
  am_main_latch :: nat
  am_childrens :: children
  am_pending_reload :: "size_t set"
  am_pending_stop :: "size_t set"
  am_pending_restart :: "size_t set"
  am_mailbox :: addr
  am_boxes :: "mail_box list"
  am_store :: msg_store
  am_next_id :: size_t
  am_config :: ac_config
  am_enqueued :: "launch list"
  am_woken :: "handle list"

text \<open>
  What a call meets outside the program: the libraries on disk, the outcome of reading the
  configuration file, the order in which the hash map iterates after an insertion, and which consumer coroutines exist.
\<close>

record manager_env =
  env_library :: library
  env_config :: "ac_config option"
  env_order :: "children \<Rightarrow> children"
  env_frames :: coro_table

definition manager_new :: "ac_config \<Rightarrow> manager run" where
  "manager_new cfg =
     run_bind (run_res (mail_box_new kMailBoxSize)) (\<lambda>box. run_ret
       \<lparr>am_is_running = False, am_reload_all_flag = False, am_main_latch = 1, am_childrens = [],
        am_pending_reload = {}, am_pending_stop = {}, am_pending_restart = {}, am_mailbox = 0,
        am_boxes = [box], am_store = empty_store, am_next_id = unique_id_init, am_config = cfg,
        am_enqueued = [], am_woken = []\<rparr>)"

section \<open>Building blocks\<close>

definition send_to :: "manager_env \<Rightarrow> addr \<Rightarrow> addr \<Rightarrow> manager \<Rightarrow> manager run" where
  "send_to env message mb s =
     (if mb < length (am_boxes s)
      then run_bind (Send (env_frames env) message (am_boxes s ! mb) (am_store s)) (\<lambda>(box, st, hs).
             run_ret (s\<lparr>am_boxes := (am_boxes s)[mb := box], am_store := st, am_woken := am_woken s @ hs\<rparr>))
      else run_res (Inl NullDeref))"

text \<open>\<^verbatim>\<open>try_receive\<close> into a pointer variable the caller goes on to read through.\<close>

definition box_receive :: "addr \<Rightarrow> manager \<Rightarrow> (addr option \<times> manager) run" where
  "box_receive mb s =
     (if mb < length (am_boxes s)
      then run_bind (try_receive (am_boxes s ! mb)) (\<lambda>(r, box).
             let s = s\<lparr>am_boxes := (am_boxes s)[mb := box]\<rparr>
             in case r of
                  None \<Rightarrow> run_ret (None, s)
                | Some None \<Rightarrow> run_res (Inl NullDeref)
                | Some (Some msg) \<Rightarrow> run_ret (Some msg, s))
      else run_res (Inl NullDeref))"

definition create_message :: "size_t \<Rightarrow> EventType \<Rightarrow> size_t \<Rightarrow> manager \<Rightarrow> addr \<times> manager" where
  "create_message ref_count type sender s =
     (let (a, st) = new_message ref_count type sender (am_store s) in (a, s\<lparr>am_store := st\<rparr>))"

definition release_message :: "addr \<Rightarrow> manager \<Rightarrow> manager run" where
  "release_message a s = run_bind (run_res (release_ptr a (am_store s))) (\<lambda>st. run_ret (s\<lparr>am_store := st\<rparr>))"

text \<open>\<^verbatim>\<open>std::format("{}/lib{}.so", library_path, library_name)\<close>.\<close>

definition library_file :: "ac_config \<Rightarrow> ac_module \<Rightarrow> string" where
  "library_file cfg m = cfg_library_path cfg @ ''/lib'' @ mod_library_name m @ ''.so''"

definition call_creator :: "LoadedModule \<Rightarrow> size_t \<Rightarrow> addr \<Rightarrow> launch" where
  "call_creator m actor_id mb = \<lparr>la_module = m, la_actor_id = actor_id, la_mailbox = mb\<rparr>"

definition find_child :: "size_t \<Rightarrow> children \<Rightarrow> ActorMetaData option" where
  "find_child k cs = map_of cs k"

definition emplace_child :: "manager_env \<Rightarrow> size_t \<Rightarrow> ActorMetaData \<Rightarrow> manager \<Rightarrow> manager" where
  "emplace_child env k md s =
     (if map_of (am_childrens s) k = None
      then s\<lparr>am_childrens := env_order env (am_childrens s @ [(k, md)])\<rparr> else s)"

text \<open>Metadata for a new actor, its coroutine, and its entry in \<^verbatim>\<open>childrens_\<close>.\<close>

definition create_child :: "manager_env \<Rightarrow> LoadedModule \<Rightarrow> string \<Rightarrow> manager \<Rightarrow> (launch \<times> manager) run" where
  "create_child env creator module_name s =
     (let (k, next) = generate_unique_id (am_next_id s)
      in run_bind (run_res (mail_box_new kMailBoxSize)) (\<lambda>box.
           let mb = length (am_boxes s);
               md = \<lparr>md_actor_id = k, md_mailbox = mb, md_module_name = module_name, md_creator = Some creator\<rparr>;
               s = s\<lparr>am_next_id := next, am_boxes := am_boxes s @ [box]\<rparr>
           in run_ret (call_creator creator k mb, emplace_child env k md s)))"

text \<open>A new creator for an existing entry; the coroutine it makes reuses the identifier and the mailbox.\<close>

definition set_creator :: "LoadedModule \<Rightarrow> size_t \<Rightarrow> manager \<Rightarrow> manager" where
  "set_creator creator k s =
     s\<lparr>am_childrens := map (\<lambda>(j, md). (j, if j = k then md\<lparr>md_creator := Some creator\<rparr> else md)) (am_childrens s)\<rparr>"

definition enqueue_tasks :: "launch list \<Rightarrow> manager \<Rightarrow> manager" where
  "enqueue_tasks tasks s = s\<lparr>am_enqueued := am_enqueued s @ tasks\<rparr>"

section \<open>Loading and reloading\<close>

fun load_loop :: "manager_env \<Rightarrow> ac_config \<Rightarrow> ac_module list \<Rightarrow> manager \<Rightarrow> (launch list \<times> manager) run" where
  "load_loop env cfg [] s = run_ret ([], s)"
| "load_loop env cfg (m # ms) s =
     (case generate_creator (env_library env) (library_file cfg m) of
        None \<Rightarrow> load_loop env cfg ms s
      | Some creator \<Rightarrow>
          run_bind (create_child env creator (mod_module_name m) s) (\<lambda>(task, s).
            run_bind (load_loop env cfg ms s) (\<lambda>(tasks, s). run_ret (task # tasks, s))))"

definition load_modules :: "manager_env \<Rightarrow> manager \<Rightarrow> manager run" where
  "load_modules env s =
     (let cfg = GetConfigInfo (am_config s)
      in run_bind (load_loop env cfg (cfg_modules cfg) s) (\<lambda>(tasks, s). run_ret (enqueue_tasks tasks s)))"

text \<open>Only the first module of that name in the configuration counts.\<close>

fun reload_loop :: "manager_env \<Rightarrow> ac_config \<Rightarrow> size_t \<Rightarrow> string \<Rightarrow> ac_module list \<Rightarrow> manager \<Rightarrow> manager run" where
  "reload_loop env cfg module_id module_name [] s = run_ret s"
| "reload_loop env cfg module_id module_name (m # ms) s =
     (if module_name = mod_module_name m
      then case generate_creator (env_library env) (library_file cfg m) of
             None \<Rightarrow> run_ret s
           | Some creator \<Rightarrow>
               if module_id = 0
               then run_bind (create_child env creator (mod_module_name m) s) (\<lambda>(task, s).
                      run_ret (enqueue_tasks [task] s))
               else (case find_child module_id (am_childrens s) of
                       None \<Rightarrow> run_ret s
                     | Some md \<Rightarrow>
                         run_ret (enqueue_tasks [call_creator creator (md_actor_id md) (md_mailbox md)]
                                    (set_creator creator module_id s)))
      else reload_loop env cfg module_id module_name ms s)"

definition reload_module :: "manager_env \<Rightarrow> size_t \<Rightarrow> string \<Rightarrow> manager \<Rightarrow> manager run" where
  "reload_module env module_id module_name s =
     (let cfg = GetConfigInfo (am_config s)
      in reload_loop env cfg module_id module_name (cfg_modules cfg) s)"

fun reload_all_loop :: "manager_env \<Rightarrow> ac_config \<Rightarrow> ac_module list \<Rightarrow> manager \<Rightarrow> (launch list \<times> manager) run" where
  "reload_all_loop env cfg [] s = run_ret ([], s)"
| "reload_all_loop env cfg (m # ms) s =
     (case generate_creator (env_library env) (library_file cfg m) of
        None \<Rightarrow> reload_all_loop env cfg ms s
      | Some creator \<Rightarrow>
          run_bind
            (case find (\<lambda>(k, md). md_module_name md = mod_module_name m) (am_childrens s) of
               Some (k, md) \<Rightarrow>
                 run_ret (call_creator creator (md_actor_id md) (md_mailbox md), set_creator creator k s)
             | None \<Rightarrow> create_child env creator (mod_module_name m) s)
            (\<lambda>(task, s). run_bind (reload_all_loop env cfg ms s) (\<lambda>(tasks, s). run_ret (task # tasks, s))))"

definition reload_all_modules :: "manager_env \<Rightarrow> manager \<Rightarrow> manager run" where
  "reload_all_modules env s =
     (let cfg = GetConfigInfo (am_config s)
      in run_bind (reload_all_loop env cfg (cfg_modules cfg) s) (\<lambda>(tasks, s). run_ret (enqueue_tasks tasks s)))"

definition restart_module :: "ActorMetaData \<Rightarrow> manager \<Rightarrow> manager" where
  "restart_module md s =
     (case md_creator md of
        None \<Rightarrow> s
      | Some creator \<Rightarrow> enqueue_tasks [call_creator creator (md_actor_id md) (md_mailbox md)] s)"

section \<open>Commands from outside\<close>

definition command_message :: "manager_env \<Rightarrow> EventType \<Rightarrow> string \<Rightarrow> manager \<Rightarrow> manager run" where
  "command_message env type module_name s =
     (let (a, s) = create_message 1 type 0 s
      in run_bind (run_res (set_payload a module_name (am_store s))) (\<lambda>st.
           send_to env a (am_mailbox s) (s\<lparr>am_store := st\<rparr>)))"

definition ReloadModule :: "manager_env \<Rightarrow> string \<Rightarrow> manager \<Rightarrow> manager run" where
  "ReloadModule env module_name s = command_message env kEventCmdModuleReload module_name s"

definition RemoveModule :: "manager_env \<Rightarrow> string \<Rightarrow> manager \<Rightarrow> manager run" where
  "RemoveModule env module_name s = command_message env kEventCmdModuleRemove module_name s"

definition Shutdown :: "manager_env \<Rightarrow> manager \<Rightarrow> manager run" where
  "Shutdown env s =
     (if am_is_running s
      then let (a, s) = create_message 1 kEventCmdExit 0 (s\<lparr>am_is_running := False\<rparr>)
           in send_to env a (am_mailbox s) s
      else run_ret s)"

section \<open>Handlers\<close>

text \<open>
  The loop of \<^verbatim>\<open>__search_module_and_remove\<close> over \<^verbatim>\<open>childrens_\<close>, which it does not change; the result says
  whether it returned from inside.
\<close>

definition mark_reload :: "size_t \<Rightarrow> manager \<Rightarrow> manager" where
  "mark_reload k s =
     s\<lparr>am_pending_reload := insert k (am_pending_reload s), am_pending_restart := am_pending_restart s - {k}\<rparr>"

fun search_loop :: "manager_env \<Rightarrow> addr \<Rightarrow> string \<Rightarrow> children \<Rightarrow> manager \<Rightarrow> (bool \<times> manager) run" where
  "search_loop env message module_name [] s = run_ret (False, s)"
| "search_loop env message module_name ((k, md) # cs) s =
     (if am_reload_all_flag s
      then run_bind (send_to env message (md_mailbox md) s) (\<lambda>s.
             search_loop env message module_name cs (mark_reload k s))
      else if md_module_name md = module_name
      then run_bind (send_to env message (md_mailbox md) s) (\<lambda>s. run_ret (True, mark_reload k s))
      else search_loop env message module_name cs s)"

text \<open>What follows the loop.\<close>

definition search_finish :: "manager_env \<Rightarrow> addr \<Rightarrow> bool \<Rightarrow> manager \<Rightarrow> (bool \<times> manager) run" where
  "search_finish env message found s =
     (if found then run_ret (True, s)
      else if am_reload_all_flag s
      then if am_pending_reload s = {}
           then run_bind (release_message message s) (\<lambda>s.
                  run_bind (load_modules env s) (\<lambda>s. run_ret (True, s)))
           else run_ret (True, s)
      else run_bind (release_message message s) (\<lambda>s. run_ret (False, s)))"

definition search_module_and_remove :: "manager_env \<Rightarrow> string \<Rightarrow> manager \<Rightarrow> (bool \<times> manager) run" where
  "search_module_and_remove env module_name s =
     (let s = s\<lparr>am_reload_all_flag := (module_name = ''all'')\<rparr>;
          ref_count = (if am_reload_all_flag s then max (of_nat (length (am_childrens s))) 1 else 1);
          (message, s) = create_message ref_count kEventCmdModuleStop 0 s
      in run_bind (search_loop env message module_name (am_childrens s) s) (\<lambda>(found, s).
           search_finish env message found s))"

definition mark_stop :: "size_t \<Rightarrow> manager \<Rightarrow> manager" where
  "mark_stop k s =
     s\<lparr>am_pending_stop := insert k (am_pending_stop s), am_pending_restart := am_pending_restart s - {k}\<rparr>"

fun stop_loop :: "manager_env \<Rightarrow> addr \<Rightarrow> children \<Rightarrow> manager \<Rightarrow> manager run" where
  "stop_loop env message [] s = run_ret s"
| "stop_loop env message ((k, md) # cs) s =
     run_bind (send_to env message (md_mailbox md) (mark_stop k s)) (stop_loop env message cs)"

definition handle_cmd_exit :: "manager_env \<Rightarrow> manager \<Rightarrow> (bool \<times> manager) run" where
  "handle_cmd_exit env s =
     (if am_childrens s = [] then run_ret (True, s)
      else let (a, s) = create_message (of_nat (length (am_childrens s))) kEventCmdModuleStop 0 s
           in run_bind (stop_loop env a (am_childrens s) s) (\<lambda>s. run_ret (False, s)))"

text \<open>\<^verbatim>\<open>UpdateConfig\<close>, with the outcome of reading the file given by the environment.\<close>

definition update_config :: "manager_env \<Rightarrow> manager \<Rightarrow> bool \<times> manager" where
  "update_config env s =
     (case env_config env of None \<Rightarrow> (False, s) | Some cfg \<Rightarrow> (True, s\<lparr>am_config := cfg\<rparr>))"

lemma update_config_UpdateConfig:
  "env_config env = config_loader read_toml io \<Longrightarrow>
   update_config env s = (let (ok, cfg) = UpdateConfig read_toml io (am_config s) in (ok, s\<lparr>am_config := cfg\<rparr>))"
  by (cases "config_loader read_toml io") (simp_all add: update_config_def UpdateConfig_def)

definition handle_cmd_reload :: "manager_env \<Rightarrow> addr \<Rightarrow> manager \<Rightarrow> manager run" where
  "handle_cmd_reload env message s =
     (let (ok, s) = update_config env s
      in if \<not> ok then run_ret s
         else run_bind (run_res (get_payload message (am_store s))) (\<lambda>module_name.
                run_bind (search_module_and_remove env module_name s) (\<lambda>(found, s).
                  if found then run_ret s
                  else run_bind (run_res (get_payload message (am_store s))) (\<lambda>module_name.
                         reload_module env 0 module_name s))))"

fun remove_loop :: "manager_env \<Rightarrow> string \<Rightarrow> children \<Rightarrow> manager \<Rightarrow> manager run" where
  "remove_loop env module_name [] s = run_ret s"
| "remove_loop env module_name ((k, md) # cs) s =
     (if md_module_name md = module_name
      then let (a, s) = create_message 1 kEventCmdModuleStop 0 s
           in send_to env a (md_mailbox md) (mark_stop k s)
      else remove_loop env module_name cs s)"

definition handle_cmd_remove :: "manager_env \<Rightarrow> addr \<Rightarrow> manager \<Rightarrow> manager run" where
  "handle_cmd_remove env message s =
     run_bind (run_res (get_payload message (am_store s))) (\<lambda>module_name.
       remove_loop env module_name (am_childrens s) s)"

definition forget_pending :: "size_t \<Rightarrow> manager \<Rightarrow> manager" where
  "forget_pending k s =
     s\<lparr>am_pending_reload := am_pending_reload s - {k}, am_pending_stop := am_pending_stop s - {k},
       am_pending_restart := am_pending_restart s - {k}\<rparr>"

definition erase_child :: "size_t \<Rightarrow> manager \<Rightarrow> manager" where
  "erase_child k s = s\<lparr>am_childrens := filter (\<lambda>(j, md). j \<noteq> k) (am_childrens s)\<rparr>"

definition handle_event_exit :: "manager_env \<Rightarrow> size_t \<Rightarrow> manager \<Rightarrow> (bool \<times> manager) run" where
  "handle_event_exit env sender_id s =
     (let reload_flag = (sender_id \<in> am_pending_reload s);
          stop_flag = (sender_id \<in> am_pending_stop s);
          restart_flag = (sender_id \<in> am_pending_restart s);
          s = forget_pending sender_id s
      in case find_child sender_id (am_childrens s) of
           None \<Rightarrow> run_ret (False, s)
         | Some md \<Rightarrow>
             if am_is_running s \<and> reload_flag
             then if am_reload_all_flag s
                  then if am_pending_reload s = {}
                       then run_bind (reload_all_modules env s) (\<lambda>s. run_ret (False, s))
                       else run_ret (False, s)
                  else run_bind (reload_module env sender_id (md_module_name md) s) (\<lambda>s. run_ret (False, s))
             else if am_is_running s \<and> restart_flag \<and> \<not> stop_flag
             then run_ret (False, restart_module md s)
             else let s = erase_child sender_id s
                  in run_ret (\<not> am_is_running s \<and> am_childrens s = [], s))"

definition handle_event_crash :: "addr \<Rightarrow> size_t \<Rightarrow> manager \<Rightarrow> manager run" where
  "handle_event_crash message sender_id s =
     (case find_child sender_id (am_childrens s) of
        None \<Rightarrow> run_ret s
      | Some md \<Rightarrow>
          run_bind (run_res (get_payload message (am_store s))) (\<lambda>text.
            run_ret (if am_is_running s \<and> sender_id \<notin> am_pending_reload s \<and> sender_id \<notin> am_pending_stop s
                     then s\<lparr>am_pending_restart := insert sender_id (am_pending_restart s)\<rparr> else s)))"

section \<open>The event loop\<close>

text \<open>The switch of \<^verbatim>\<open>RunCoroutine\<close>; the result says whether a handler asked to end the loop.\<close>

definition dispatch :: "manager_env \<Rightarrow> addr \<Rightarrow> manager \<Rightarrow> (bool \<times> manager) run" where
  "dispatch env msg s =
     run_bind (run_res (load_message msg (am_store s))) (\<lambda>m.
       let go = (\<lambda>r. run_bind r (\<lambda>s. run_ret (False, s)))
       in case msg_type m of
            kEventCmdExit \<Rightarrow> handle_cmd_exit env s
          | kEventCmdModuleReload \<Rightarrow> go (handle_cmd_reload env msg s)
          | kEventCmdModuleRemove \<Rightarrow> go (handle_cmd_remove env msg s)
          | kEventModuleExited \<Rightarrow> handle_event_exit env (msg_sender_id m) s
          | kEventCrashReport \<Rightarrow> go (handle_event_crash msg (msg_sender_id m) s)
          | _ \<Rightarrow> run_ret (False, s))"

definition count_down :: "manager \<Rightarrow> manager" where
  "count_down s = s\<lparr>am_main_latch := am_main_latch s - 1\<rparr>"

text \<open>One round of the inner loop: \<open>None\<close> when the mailbox is empty, otherwise whether the coroutine returned.\<close>

definition receive_next :: "manager \<Rightarrow> (addr option \<times> manager) run" where
  "receive_next s = box_receive (am_mailbox s) s"

definition event_round :: "manager_env \<Rightarrow> manager \<Rightarrow> (bool option \<times> manager) run" where
  "event_round env s =
     run_bind (receive_next s) (\<lambda>(r, s).
       case r of
         None \<Rightarrow> run_ret (None, s)
       | Some msg \<Rightarrow>
           run_bind (dispatch env msg s) (\<lambda>(finished, s).
             run_bind (release_message msg (if finished then count_down s else s)) (\<lambda>s.
               run_ret (Some finished, s))))"

text \<open>
  \<^verbatim>\<open>EventLoop\<close> before it waits: mark the manager as running, arm and enqueue its coroutine \<open>h\<close>, load the
  modules of the configuration.
\<close>

definition EventLoop_start :: "manager_env \<Rightarrow> handle \<Rightarrow> manager \<Rightarrow> manager run" where
  "EventLoop_start env h s =
     (if am_mailbox s < length (am_boxes s)
      then let s = s\<lparr>am_is_running := True,
                     am_boxes := (am_boxes s)[am_mailbox s := ArmConsumer h (am_boxes s ! am_mailbox s)],
                     am_woken := am_woken s @ [h]\<rparr>
           in load_modules env s
      else run_res (Inl NullDeref))"

end
