(* ===== verification/Actor_Manager_Invariant.thy ===== *)
theory Actor_Manager_Invariant
  imports Actor_Manager Message_References
begin

text \<open>
  What the supervisor keeps true: its table of children and its three sets of pending operations fit together, every
  message has as many references as holders, and so no round of the event loop faults.
\<close>

section \<open>Well-formed supervisors\<close>

definition ready :: "LoadedModule \<Rightarrow> bool" where
  "ready m \<longleftrightarrow> lm_handle m \<and> lm_create_func m \<and> lm_destroy_func m"

lemma Open_closes: "Open lib m = (ok, m') \<Longrightarrow> if ok then ready m' else \<not> lm_handle m' \<and> \<not> lm_create_func m' \<and> \<not> lm_destroy_func m'"
  by (auto simp: Open_def Close_def ready_def Let_def split: option.splits if_splits)

lemma generate_creator_ready: "generate_creator lib path = Some m \<Longrightarrow> ready m"
  using Open_closes [of lib "LoadedModule_new path"]
  by (auto simp: generate_creator_def split: prod.splits if_splits)

text \<open>Everything of the state but the contents of mailboxes and messages.\<close>

definition mgr_core where
  "mgr_core s = (am_is_running s, am_reload_all_flag s, am_main_latch s, am_childrens s,
     am_pending_reload s, am_pending_stop s, am_pending_restart s,
     am_mailbox s, length (am_boxes s), am_next_id s, am_config s, am_enqueued s)"

definition keys :: "manager \<Rightarrow> size_t set" where
  "keys s = fst ` set (am_childrens s)"

definition child_ok :: "manager \<Rightarrow> size_t \<times> ActorMetaData \<Rightarrow> bool" where
  "child_ok s c \<longleftrightarrow>
     md_actor_id (snd c) = fst c \<and> fst c \<noteq> 0 \<and> unat (fst c) < unat (am_next_id s)
     \<and> md_mailbox (snd c) < length (am_boxes s) \<and> md_mailbox (snd c) \<noteq> am_mailbox s
     \<and> (\<exists>m. md_creator (snd c) = Some m \<and> ready m)"

definition mgr_wf :: "manager \<Rightarrow> bool" where
  "mgr_wf s \<longleftrightarrow>
     distinct (map fst (am_childrens s)) \<and> distinct (map (md_mailbox \<circ> snd) (am_childrens s))
     \<and> (\<forall>c\<in>set (am_childrens s). child_ok s c)
     \<and> am_pending_reload s \<union> am_pending_stop s \<union> am_pending_restart s \<subseteq> keys s
     \<and> am_mailbox s < length (am_boxes s) \<and> 0 < unat (am_next_id s)"

lemma mgr_wf_core: "mgr_core s = mgr_core s' \<Longrightarrow> mgr_wf s = mgr_wf s'"
  by (simp add: mgr_core_def mgr_wf_def child_ok_def keys_def)

lemma mgr_wf_pending:
  assumes "mgr_wf s" "R \<union> S \<union> T \<subseteq> keys s"
  shows "mgr_wf (s\<lparr>am_pending_reload := R, am_pending_stop := S, am_pending_restart := T\<rparr>)"
  using assms by (simp add: mgr_wf_def child_ok_def keys_def)

section \<open>Accounts\<close>

text \<open>Messages whose handler reads a string payload have one.\<close>

fun needs_payload :: "EventType \<Rightarrow> bool" where
  "needs_payload kEventCmdModuleReload = True"
| "needs_payload kEventCmdModuleRemove = True"
| "needs_payload kEventCrashReport = True"
| "needs_payload _ = False"

definition payloads_ok :: "msg_store \<Rightarrow> bool" where
  "payloads_ok st \<longleftrightarrow> (\<forall>a m. heap st a = Some m \<longrightarrow> needs_payload (msg_type m) \<longrightarrow> msg_payload m \<noteq> None)"

text \<open>
  The mailboxes, each of the default capacity 256, hold \<open>contents\<close> and can take \<open>b\<close> more operations, and the
  reference counts are the messages in mailboxes plus \<open>R\<close>, what the running handler holds.
\<close>

definition accounts :: "coro_table \<Rightarrow> nat \<Rightarrow> addr list list \<Rightarrow> addr multiset \<Rightarrow> manager \<Rightarrow> bool" where
  "accounts frames b contents R s \<longleftrightarrow>
     length contents = length (am_boxes s)
     \<and> (\<forall>k<length (am_boxes s). mb_holds 256 b (contents ! k) (am_boxes s ! k) \<and> consumer_ok frames (am_boxes s ! k))
     \<and> store_refs (am_store s) (sum_list (map mset contents) + R) \<and> payloads_ok (am_store s)"

lemma accounts_mono: "accounts frames b contents R s \<Longrightarrow> b' \<le> b \<Longrightarrow> accounts frames b' contents R s"
  unfolding accounts_def using mb_holds_mono by blast

lemma accounts_cong:
  "am_boxes s' = am_boxes s \<Longrightarrow> am_store s' = am_store s \<Longrightarrow> accounts frames b contents R s' = accounts frames b contents R s"
  by (simp add: accounts_def)

lemma payloads_ok_release:
  assumes "release_ptr a st = Inr st'" "payloads_ok st"
  shows "payloads_ok st'"
  using assms
  by (auto simp: release_ptr_def event_message_release_def res_bind_Inr_iff payloads_ok_def load_message_Inr
      split: if_splits)

lemma Send_payloads:
  assumes "Send frames m box st = Some (Inr (box', st', hs))" "payloads_ok st"
  shows "payloads_ok st'"
  using assms payloads_ok_release
  by (auto simp: Send_def run_bind_Inr_iff run_ret_def run_res_def Let_def split: if_splits prod.splits)

lemma send_to_explicit:
  assumes acc: "accounts (env_frames env) (Suc b) contents (add_mset m R) s" and mb: "mb < length (am_boxes s)"
  shows "\<exists>s'. send_to env m mb s = Some (Inr s')
           \<and> accounts (env_frames env) b (contents[mb := if length (contents ! mb) < 256 then contents ! mb @ [m] else contents ! mb]) R s'
           \<and> mgr_core s' = mgr_core s \<and> store_le (am_store s) (am_store s')
           \<and> (length (contents ! mb) < 256 \<longrightarrow> am_store s' = am_store s)"
proof -
  let ?f = "env_frames env" and ?ms = "contents ! mb" and ?box = "am_boxes s ! mb"
  have len: "mb < length contents" using acc mb by (simp add: accounts_def)
  have box: "mb_holds 256 (Suc b) ?ms ?box" "consumer_ok ?f ?box" using acc mb by (simp_all add: accounts_def)
  obtain T where T: "sum_list (map mset contents) = mset ?ms + T"
    "\<And>y. sum_list (map mset (contents[mb := y])) = mset y + T"
    using sum_list_split [OF len, of mset] by blast
  have "store_refs (am_store s) (add_mset m (mset ?ms + T + R))" using acc by (simp add: accounts_def T(1))
  then obtain box' st' hs where send: "Send ?f m ?box (am_store s) = Some (Inr (box', st', hs))" "consumer_ok ?f box'"
    "mb_holds 256 b (if length ?ms < 256 then ?ms @ [m] else ?ms) box'"
    "store_refs st' (mset ?ms + T + R + (if length ?ms < 256 then {#m#} else {#}))" "store_le (am_store s) st'"
    using Send_refs [OF box] by blast
  have keep: "st' = am_store s" if "length ?ms < 256"
    using Send_room [OF box(1) that box(2), of m "am_store s"] send(1) by auto
  let ?ms' = "if length ?ms < 256 then ?ms @ [m] else ?ms"
  let ?s = "s\<lparr>am_boxes := (am_boxes s)[mb := box'], am_store := st', am_woken := am_woken s @ hs\<rparr>"
  have "mb_holds 256 b (contents[mb := ?ms'] ! k) ((am_boxes s)[mb := box'] ! k) \<and> consumer_ok ?f ((am_boxes s)[mb := box'] ! k)"
    if "k < length (am_boxes s)" for k
  proof (cases "k = mb")
    case True
    then show ?thesis using send(2,3) len mb by simp
  next
    case False
    then show ?thesis using that accounts_mono [OF acc, of b] by (simp add: accounts_def)
  qed
  moreover have "store_refs st' (sum_list (map mset (contents[mb := ?ms'])) + R)"
    using send(4) T(1) by (cases "length ?ms < 256") (simp_all add: T(2))
  moreover have "payloads_ok st'" using Send_payloads [OF send(1)] acc by (simp add: accounts_def)
  ultimately have "accounts ?f b (contents[mb := ?ms']) R ?s" using acc by (simp add: accounts_def)
  moreover have "send_to env m mb s = Some (Inr ?s)" using mb send(1) by (simp add: send_to_def run_simps run_ret_def)
  moreover have "mgr_core ?s = mgr_core s" by (simp add: mgr_core_def)
  ultimately show ?thesis using send(5) keep by (intro exI [of _ ?s]) simp
qed

lemma send_to_ok:
  assumes "accounts (env_frames env) (Suc b) contents (add_mset m R) s" "mb < length (am_boxes s)"
  shows "\<exists>s' contents'. send_to env m mb s = Some (Inr s') \<and> accounts (env_frames env) b contents' R s'
           \<and> mgr_core s' = mgr_core s \<and> store_le (am_store s) (am_store s') \<and> (\<forall>i. i \<noteq> mb \<longrightarrow> contents' ! i = contents ! i)"
  using send_to_explicit [OF assms] by (metis nth_list_update_neq)

lemma release_message_ok:
  assumes "accounts frames b contents (add_mset a R) s"
  shows "\<exists>s'. release_message a s = Some (Inr s') \<and> accounts frames b contents R s' \<and> mgr_core s' = mgr_core s
           \<and> store_le (am_store s) (am_store s')"
proof -
  have "store_refs (am_store s) (add_mset a (sum_list (map mset contents) + R))"
    using assms by (simp add: accounts_def)
  then obtain st where st: "release_ptr a (am_store s) = Inr st" "store_refs st (sum_list (map mset contents) + R)"
    using store_refs_release by blast
  then show ?thesis
    using assms payloads_ok_release [OF st(1)] store_le_release [OF st(1)]
    by (simp add: release_message_def run_simps run_ret_def accounts_def mgr_core_def)
qed

lemma create_message_ok:
  assumes acc: "accounts frames b contents R s" and k: "0 < k" "k < 2 ^ 64"
    and new: "create_message (of_nat k) type sender s = (a, s')" and type: "\<not> needs_payload type"
  shows "accounts frames b contents (R + replicate_mset k a) s'" "mgr_core s' = mgr_core s"
    "store_le (am_store s) (am_store s')"
proof -
  let ?m = "\<lparr>msg_ref = of_nat k, msg_type = type, msg_sender_id = sender, msg_payload = None\<rparr>"
  obtain st where st: "new_message (of_nat k) type sender (am_store s) = (a, st)" "s' = s\<lparr>am_store := st\<rparr>"
    using new by (auto simp: create_message_def split: prod.splits)
  have "heap st a = Some ?m" using st(1) by (auto simp: new_message_def)
  then have "st\<lparr>heap := (heap st)(a \<mapsto> ?m\<lparr>msg_ref := of_nat k\<rparr>)\<rparr> = st" by (simp add: fun_upd_idem)
  moreover have "store_refs (am_store s) (sum_list (map mset contents) + R)" using acc by (simp add: accounts_def)
  ultimately have "store_refs st (sum_list (map mset contents) + R + replicate_mset k a)"
    using store_refs_new [OF _ k(2) st(1) k(1), of _ ?m] by metis
  moreover have "payloads_ok st" using acc type st(1) by (auto simp: accounts_def payloads_ok_def new_message_def split: if_splits)
  ultimately show "accounts frames b contents (R + replicate_mset k a) s'"
    using acc st(2) by (simp add: accounts_def add.assoc)
  show "mgr_core s' = mgr_core s" by (simp add: st(2) mgr_core_def)
  show "store_le (am_store s) (am_store s')" using store_le_new [OF st(1)] st(2) by simp
qed

lemma store_le_eq: "am_store s = am_store s' \<Longrightarrow> store_le (am_store s) (am_store s')"
  by (simp add: store_le_refl)

section \<open>Stopping modules\<close>

text \<open>The loop of the exit command: one reference and one send per child, every child is to stop.\<close>

lemma stop_loop_ok:
  assumes "accounts (env_frames env) (length cs + b) contents (R + replicate_mset (length cs) a) s"
    and "\<forall>c\<in>set cs. md_mailbox (snd c) < length (am_boxes s)"
  shows "\<exists>s' contents'. stop_loop env a cs s = Some (Inr s') \<and> accounts (env_frames env) b contents' R s'
           \<and> mgr_core s' = mgr_core (s\<lparr>am_pending_stop := am_pending_stop s \<union> fst ` set cs,
                am_pending_restart := am_pending_restart s - fst ` set cs\<rparr>)
           \<and> store_le (am_store s) (am_store s') \<and> (\<forall>i. i \<notin> (md_mailbox \<circ> snd) ` set cs \<longrightarrow> contents' ! i = contents ! i)"
  using assms
proof (induction cs arbitrary: s contents)
  case Nil
  then show ?case using store_le_refl by (auto simp: run_ret_def)
next
  case (Cons c cs)
  obtain k md where c: "c = (k, md)" by fastforce
  have "accounts (env_frames env) (Suc (length cs + b)) contents (add_mset a (R + replicate_mset (length cs) a)) (mark_stop k s)"
    using Cons.prems(1) by (simp add: mark_stop_def accounts_def)
  moreover have "md_mailbox md < length (am_boxes (mark_stop k s))" using Cons.prems(2) c by (simp add: mark_stop_def)
  ultimately obtain s1 contents1 where s1: "send_to env a (md_mailbox md) (mark_stop k s) = Some (Inr s1)"
    "accounts (env_frames env) (length cs + b) contents1 (R + replicate_mset (length cs) a) s1"
    "mgr_core s1 = mgr_core (mark_stop k s)" "store_le (am_store (mark_stop k s)) (am_store s1)"
    "\<forall>i. i \<noteq> md_mailbox md \<longrightarrow> contents1 ! i = contents ! i"
    using send_to_ok by blast
  have "length (am_boxes s1) = length (am_boxes s)" using s1(3) by (simp add: mgr_core_def mark_stop_def)
  then have "\<forall>c\<in>set cs. md_mailbox (snd c) < length (am_boxes s1)" using Cons.prems(2) by simp
  then obtain s' contents' where s': "stop_loop env a cs s1 = Some (Inr s')" "accounts (env_frames env) b contents' R s'"
    "mgr_core s' = mgr_core (s1\<lparr>am_pending_stop := am_pending_stop s1 \<union> fst ` set cs,
                am_pending_restart := am_pending_restart s1 - fst ` set cs\<rparr>)" "store_le (am_store s1) (am_store s')"
    "\<forall>i. i \<notin> (md_mailbox \<circ> snd) ` set cs \<longrightarrow> contents' ! i = contents1 ! i"
    using Cons.IH [OF s1(2)] by blast
  have "stop_loop env a (c # cs) s = Some (Inr s')" using c s1(1) s'(1) by (simp add: run_simps)
  moreover have "mgr_core s' = mgr_core (s\<lparr>am_pending_stop := am_pending_stop s \<union> fst ` set (c # cs),
                am_pending_restart := am_pending_restart s - fst ` set (c # cs)\<rparr>)"
    using s'(3) s1(3) c by (auto simp: mgr_core_def mark_stop_def)
  moreover have "store_le (am_store s) (am_store s')"
    using store_le_trans [OF s1(4) s'(4)] by (simp add: mark_stop_def)
  moreover have "\<forall>i. i \<notin> (md_mailbox \<circ> snd) ` set (c # cs) \<longrightarrow> contents' ! i = contents ! i"
    using s1(5) s'(5) c by simp
  ultimately show ?case using s'(2) by blast
qed

lemma search_all_ok:
  assumes "accounts (env_frames env) (length cs + b) contents (R + replicate_mset (length cs) a) s"
    and "\<forall>c\<in>set cs. md_mailbox (snd c) < length (am_boxes s)" and "am_reload_all_flag s"
  shows "\<exists>s' contents'. search_loop env a name cs s = Some (Inr (False, s')) \<and> accounts (env_frames env) b contents' R s'
           \<and> mgr_core s' = mgr_core (s\<lparr>am_pending_reload := am_pending_reload s \<union> fst ` set cs,
                am_pending_restart := am_pending_restart s - fst ` set cs\<rparr>)
           \<and> store_le (am_store s) (am_store s')"
  using assms
proof (induction cs arbitrary: s contents)
  case Nil
  then show ?case using store_le_refl by (auto simp: run_ret_def)
next
  case (Cons c cs)
  obtain k md where c: "c = (k, md)" by fastforce
  have "accounts (env_frames env) (Suc (length cs + b)) contents (add_mset a (R + replicate_mset (length cs) a)) s"
    "md_mailbox md < length (am_boxes s)"
    using Cons.prems(1,2) c by simp_all
  then obtain s1 contents1 where s1: "send_to env a (md_mailbox md) s = Some (Inr s1)"
    "accounts (env_frames env) (length cs + b) contents1 (R + replicate_mset (length cs) a) s1"
    "mgr_core s1 = mgr_core s" "store_le (am_store s) (am_store s1)"
    using send_to_ok by blast
  let ?s = "mark_reload k s1"
  have "accounts (env_frames env) (length cs + b) contents1 (R + replicate_mset (length cs) a) ?s"
    using s1(2) by (simp add: mark_reload_def accounts_def)
  moreover have "\<forall>c\<in>set cs. md_mailbox (snd c) < length (am_boxes ?s)" "am_reload_all_flag ?s"
    using s1(3) Cons.prems(2,3) by (simp_all add: mgr_core_def mark_reload_def)
  ultimately obtain s' contents' where s': "search_loop env a name cs ?s = Some (Inr (False, s'))"
    "accounts (env_frames env) b contents' R s'"
    "mgr_core s' = mgr_core (?s\<lparr>am_pending_reload := am_pending_reload ?s \<union> fst ` set cs,
                am_pending_restart := am_pending_restart ?s - fst ` set cs\<rparr>)" "store_le (am_store ?s) (am_store s')"
    using Cons.IH [of contents1 ?s] by blast
  have "search_loop env a name (c # cs) s = Some (Inr (False, s'))"
    using c s1(1) s'(1) Cons.prems(3) by (simp add: run_simps)
  moreover have "mgr_core s' = mgr_core (s\<lparr>am_pending_reload := am_pending_reload s \<union> fst ` set (c # cs),
                am_pending_restart := am_pending_restart s - fst ` set (c # cs)\<rparr>)"
    using s'(3) s1(3) c by (auto simp: mgr_core_def mark_reload_def)
  moreover have "store_le (am_store s) (am_store s')"
    using store_le_trans [OF s1(4)] s'(4) by (simp add: mark_reload_def)
  ultimately show ?case using s'(2) by blast
qed

lemma search_one_ok:
  assumes acc: "accounts (env_frames env) (Suc b) contents (add_mset a R) s"
    and cs: "\<forall>c\<in>set cs. md_mailbox (snd c) < length (am_boxes s)" and flag: "\<not> am_reload_all_flag s"
  shows "search_loop env a name cs s = Some (Inr (False, s)) \<or>
         (\<exists>k s' contents'. k \<in> fst ` set cs \<and> search_loop env a name cs s = Some (Inr (True, s'))
            \<and> accounts (env_frames env) b contents' R s' \<and> mgr_core s' = mgr_core (mark_reload k s)
            \<and> store_le (am_store s) (am_store s'))"
  using cs
proof (induction cs)
  case Nil
  then show ?case by (simp add: run_ret_def)
next
  case (Cons c cs)
  obtain k md where c: "c = (k, md)" by fastforce
  show ?case
  proof (cases "md_module_name md = name")
    case True
    have "md_mailbox md < length (am_boxes s)" using Cons.prems c by simp
    then obtain s1 contents1 where s1: "send_to env a (md_mailbox md) s = Some (Inr s1)"
      "accounts (env_frames env) b contents1 R s1" "mgr_core s1 = mgr_core s" "store_le (am_store s) (am_store s1)"
      using send_to_ok [OF acc] by blast
    have "search_loop env a name (c # cs) s = Some (Inr (True, mark_reload k s1))"
      using c s1(1) flag True by (simp add: run_simps run_ret_def)
    moreover have "accounts (env_frames env) b contents1 R (mark_reload k s1)"
      using s1(2) by (simp add: mark_reload_def accounts_def)
    moreover have "mgr_core (mark_reload k s1) = mgr_core (mark_reload k s)"
      using s1(3) by (simp add: mgr_core_def mark_reload_def)
    moreover have "store_le (am_store s) (am_store (mark_reload k s1))" using s1(4) by (simp add: mark_reload_def)
    ultimately show ?thesis using c by (intro disjI2 exI [of _ k] exI [of _ "mark_reload k s1"]) auto
  next
    case False
    then have "search_loop env a name (c # cs) s = search_loop env a name cs s" using c flag by simp
    then show ?thesis using Cons by auto
  qed
qed

section \<open>Creating modules\<close>

text \<open>The hash map keeps its entries, in whatever order it iterates over them.\<close>

definition env_ok :: "manager_env \<Rightarrow> bool" where
  "env_ok env \<longleftrightarrow> (\<forall>cs. mset (env_order env cs) = mset cs)"

lemma kMailBoxSize_new:
  "\<exists>box. mail_box_new kMailBoxSize = Inr box \<and> consumer_ok frames box
     \<and> (\<forall>b. 256 + b < index_limit \<longrightarrow> mb_holds 256 b [] box)"
proof -
  have size: "kMailBoxSize = 256" and ceil: "bit_ceil 256 = Inr 256" by code_simp+
  obtain box where box: "mail_box_new kMailBoxSize = Inr box" "mq_size (mb_mailbox box) = 256"
    "mb_consumer box = None"
    by (simp add: mail_box_new_def mail_queue_new_def size ceil)
  then have "mb_holds 256 b [] box" if "256 + b < index_limit" for b
    using mail_box_new_holds [OF box(1), of b] that by (simp add: size)
  then show ?thesis using box by (auto simp: consumer_ok_def)
qed

text \<open>What loading modules leaves alone: everything but children, mailboxes, identifiers and tasks.\<close>

definition grown :: "nat \<Rightarrow> manager \<Rightarrow> manager \<Rightarrow> bool" where
  "grown n s s' \<longleftrightarrow>
     am_is_running s' = am_is_running s \<and> am_reload_all_flag s' = am_reload_all_flag s
     \<and> am_main_latch s' = am_main_latch s \<and> am_pending_reload s' = am_pending_reload s
     \<and> am_pending_stop s' = am_pending_stop s \<and> am_pending_restart s' = am_pending_restart s
     \<and> am_mailbox s' = am_mailbox s \<and> am_config s' = am_config s \<and> am_store s' = am_store s
     \<and> keys s \<subseteq> keys s' \<and> unat (am_next_id s') \<le> unat (am_next_id s) + n
     \<and> length (am_boxes s) \<le> length (am_boxes s')"

lemma grown_refl: "grown n s s"
  by (simp add: grown_def)

lemma grown_trans: "grown j s s1 \<Longrightarrow> grown k s1 s2 \<Longrightarrow> grown (j + k) s s2"
  by (auto simp: grown_def)

lemma fresh_key:
  assumes "mgr_wf s"
  shows "am_next_id s \<notin> keys s"
  using assms by (auto simp: mgr_wf_def keys_def child_ok_def)

lemma mgr_wf_add:
  assumes wf: "mgr_wf s" and id: "unat (am_next_id s) < index_limit" and m: "ready creator"
    and md: "md = \<lparr>md_actor_id = am_next_id s, md_mailbox = length (am_boxes s), md_module_name = name, md_creator = Some creator\<rparr>"
    and cs: "mset cs = add_mset (am_next_id s, md) (mset (am_childrens s))"
  shows "mgr_wf (s\<lparr>am_next_id := am_next_id s + 1, am_boxes := am_boxes s @ [box], am_childrens := cs\<rparr>)" (is "mgr_wf ?s")
proof -
  let ?c = "(am_next_id s, md)"
  have next_id: "unat (am_next_id s + 1) = Suc (unat (am_next_id s))" using id by (rule unat_plus_one)
  have set: "set cs = insert ?c (set (am_childrens s))" using cs by (metis set_mset_add_mset_insert set_mset_mset)
  have old: "fst c \<noteq> am_next_id s" "md_mailbox (snd c) < length (am_boxes s)" if "c \<in> set (am_childrens s)" for c
    using wf that by (auto simp: mgr_wf_def child_ok_def)
  have "mset (map f cs) = mset (map f (?c # am_childrens s))" for f :: "_ \<Rightarrow> 'b" using cs by simp
  then have dist: "distinct (map f cs) = distinct (map f (?c # am_childrens s))" for f :: "_ \<Rightarrow> 'b"
    by (metis mset_eq_imp_distinct_iff)
  have "distinct (map fst cs)" using wf fresh_key [OF wf] by (simp add: dist mgr_wf_def keys_def)
  moreover have "length (am_boxes s) \<notin> md_mailbox ` snd ` set (am_childrens s)" using old(2) by fastforce
  then have "distinct (map (md_mailbox \<circ> snd) cs)" using wf md by (simp add: dist mgr_wf_def image_image)
  moreover have "child_ok ?s c" if "child_ok s c" for c using that next_id by (simp add: child_ok_def)
  then have "child_ok ?s c" if "c \<in> set (am_childrens s)" for c using wf that by (simp add: mgr_wf_def)
  moreover have "child_ok ?s ?c" using wf next_id m md by (auto simp: child_ok_def mgr_wf_def)
  moreover have "keys ?s = insert (am_next_id s) (keys s)" by (simp add: keys_def set)
  ultimately show ?thesis using wf next_id by (auto simp: mgr_wf_def set)
qed

lemma create_child_ok:
  assumes env: "env_ok env" and wf: "mgr_wf s" and id: "unat (am_next_id s) < index_limit" and m: "ready creator"
    and acc: "accounts frames b contents R s" and b: "256 + b < index_limit"
  shows "\<exists>s'. create_child env creator name s = Some (Inr (call_creator creator (am_next_id s) (length (am_boxes s)), s'))
           \<and> mgr_wf s' \<and> accounts frames b (contents @ [[]]) R s' \<and> grown 1 s s' \<and> am_enqueued s' = am_enqueued s
           \<and> keys s' = insert (am_next_id s) (keys s)"
proof -
  obtain box where box: "mail_box_new kMailBoxSize = Inr box" "consumer_ok frames box" "mb_holds 256 b [] box"
    using kMailBoxSize_new [of frames] b by blast
  let ?md = "\<lparr>md_actor_id = am_next_id s, md_mailbox = length (am_boxes s), md_module_name = name, md_creator = Some creator\<rparr>"
  let ?cs = "env_order env (am_childrens s @ [(am_next_id s, ?md)])"
  let ?s = "s\<lparr>am_next_id := am_next_id s + 1, am_boxes := am_boxes s @ [box], am_childrens := ?cs\<rparr>"
  have cs: "mset ?cs = add_mset (am_next_id s, ?md) (mset (am_childrens s))" using env by (simp add: env_ok_def)
  then have set: "set ?cs = insert (am_next_id s, ?md) (set (am_childrens s))"
    by (metis set_mset_add_mset_insert set_mset_mset)
  have "map_of (am_childrens s) (am_next_id s) = None" using fresh_key [OF wf] by (simp add: keys_def map_of_eq_None_iff)
  then have "create_child env creator name s = Some (Inr (call_creator creator (am_next_id s) (length (am_boxes s)), ?s))"
    using box(1) by (simp add: create_child_def generate_unique_id_def Let_def run_simps run_ret_def emplace_child_def)
  moreover have "mgr_wf ?s" using mgr_wf_add [OF wf id m refl cs] .
  moreover have "accounts frames b (contents @ [[]]) R ?s"
    using acc box(2,3) by (auto simp: accounts_def nth_append less_Suc_eq)
  moreover have "keys ?s = insert (am_next_id s) (keys s)" by (simp add: keys_def set)
  moreover have "grown 1 s ?s" using id by (auto simp: grown_def keys_def set unat_plus_one)
  ultimately show ?thesis by (intro exI [of _ ?s]) simp
qed

lemma mgr_wf_set_creator:
  assumes wf: "mgr_wf s" and m: "ready creator"
  shows "mgr_wf (set_creator creator k s)" "keys (set_creator creator k s) = keys s"
proof -
  have fst: "map fst (am_childrens (set_creator creator k s)) = map fst (am_childrens s)"
    and snd: "map (md_mailbox \<circ> snd) (am_childrens (set_creator creator k s)) = map (md_mailbox \<circ> snd) (am_childrens s)"
    by (auto simp: set_creator_def)
  show keys: "keys (set_creator creator k s) = keys s" using fst by (metis keys_def list.set_map)
  have "child_ok (set_creator creator k s) c" if "c \<in> set (am_childrens (set_creator creator k s))" for c
    using that wf m by (fastforce simp: set_creator_def mgr_wf_def child_ok_def split: if_splits)
  moreover have "am_pending_reload (set_creator creator k s) = am_pending_reload s"
    "am_pending_stop (set_creator creator k s) = am_pending_stop s"
    "am_pending_restart (set_creator creator k s) = am_pending_restart s"
    "am_mailbox (set_creator creator k s) = am_mailbox s" "am_boxes (set_creator creator k s) = am_boxes s"
    "am_next_id (set_creator creator k s) = am_next_id s"
    by (simp_all add: set_creator_def)
  ultimately show "mgr_wf (set_creator creator k s)" using wf unfolding mgr_wf_def fst snd keys by simp
qed

lemma set_creator_ok:
  assumes "mgr_wf s" "ready creator" "accounts frames b contents R s"
  shows "mgr_wf (set_creator creator k s)" "accounts frames b contents R (set_creator creator k s)"
    "grown n s (set_creator creator k s)"
  using assms mgr_wf_set_creator [OF assms(1,2), of k] by (simp_all add: accounts_def set_creator_def grown_def)

lemma enqueue_tasks_ok:
  assumes "mgr_wf s" "accounts frames b contents R s"
  shows "mgr_wf (enqueue_tasks ts s)" "accounts frames b contents R (enqueue_tasks ts s)" "grown n s (enqueue_tasks ts s)"
  using assms by (simp_all add: mgr_wf_def child_ok_def keys_def accounts_def enqueue_tasks_def grown_def)

definition mgr_ok :: "manager_env \<Rightarrow> nat \<Rightarrow> addr multiset \<Rightarrow> manager \<Rightarrow> bool" where
  "mgr_ok env b R s \<longleftrightarrow> mgr_wf s \<and> (\<exists>contents. accounts (env_frames env) b contents R s)"

lemma mgr_ok_mono: "mgr_ok env b R s \<Longrightarrow> b' \<le> b \<Longrightarrow> mgr_ok env b' R s"
  using accounts_mono unfolding mgr_ok_def by blast

lemma mgr_ok_enqueue: "mgr_ok env b R s \<Longrightarrow> mgr_ok env b R (enqueue_tasks ts s)"
  using enqueue_tasks_ok unfolding mgr_ok_def by blast

lemma create_child_mgr_ok:
  assumes "env_ok env" "mgr_ok env b R s" "unat (am_next_id s) < index_limit" "ready creator" "256 + b < index_limit"
  shows "\<exists>task s'. create_child env creator name s = Some (Inr (task, s')) \<and> mgr_ok env b R s' \<and> grown 1 s s'
           \<and> am_enqueued s' = am_enqueued s \<and> keys s' = insert (la_actor_id task) (keys s)
           \<and> la_actor_id task \<notin> keys s \<and> la_module task = creator \<and> la_mailbox task < length (am_boxes s')"
proof -
  obtain contents where wf: "mgr_wf s" and acc: "accounts (env_frames env) b contents R s"
    using assms(2) by (auto simp: mgr_ok_def)
  obtain s' where s': "create_child env creator name s = Some (Inr (call_creator creator (am_next_id s) (length (am_boxes s)), s'))"
    "mgr_wf s'" "accounts (env_frames env) b (contents @ [[]]) R s'" "grown 1 s s'" "am_enqueued s' = am_enqueued s"
    "keys s' = insert (am_next_id s) (keys s)"
    using create_child_ok [OF assms(1) wf assms(3,4) acc assms(5)] by blast
  have "length (am_boxes s) < length (am_boxes s')" using s'(3) acc by (auto simp: accounts_def)
  then show ?thesis using s' fresh_key [OF wf] by (auto simp: call_creator_def mgr_ok_def)
qed

text \<open>The coroutines made for new children: one for each, under its identifier.\<close>

definition fresh_tasks :: "manager \<Rightarrow> launch list \<Rightarrow> manager \<Rightarrow> bool" where
  "fresh_tasks s tasks s' \<longleftrightarrow>
     distinct (map la_actor_id tasks) \<and> la_actor_id ` set tasks \<inter> keys s = {} \<and> keys s' = keys s \<union> la_actor_id ` set tasks
     \<and> (\<forall>t\<in>set tasks. ready (la_module t) \<and> la_mailbox t < length (am_boxes s'))"

lemma load_loop_ok:
  assumes "env_ok env" "mgr_ok env b R s" "unat (am_next_id s) + length ms < index_limit" "256 + b < index_limit"
  shows "\<exists>tasks s'. load_loop env cfg ms s = Some (Inr (tasks, s')) \<and> mgr_ok env b R s' \<and> grown (length ms) s s'
           \<and> am_enqueued s' = am_enqueued s \<and> fresh_tasks s tasks s' \<and> length tasks \<le> length ms"
  using assms(2,3)
proof (induction ms arbitrary: s)
  case Nil
  then show ?case by (simp add: run_ret_def grown_refl fresh_tasks_def)
next
  case (Cons m ms)
  show ?case
  proof (cases "generate_creator (env_library env) (library_file cfg m)")
    case None
    then obtain tasks s' where "load_loop env cfg (m # ms) s = Some (Inr (tasks, s'))" "mgr_ok env b R s'"
      "grown (length ms) s s'" "am_enqueued s' = am_enqueued s" "fresh_tasks s tasks s'" "length tasks \<le> length ms"
      using Cons.IH [OF Cons.prems(1)] Cons.prems(2) by auto
    then show ?thesis by (auto simp: grown_def)
  next
    case (Some creator)
    note creator = generate_creator_ready [OF Some]
    have "unat (am_next_id s) < index_limit" using Cons.prems(2) by simp
    then obtain task s1 where s1: "create_child env creator (mod_module_name m) s = Some (Inr (task, s1))"
      "mgr_ok env b R s1" "grown 1 s s1" "am_enqueued s1 = am_enqueued s" "keys s1 = insert (la_actor_id task) (keys s)"
      "la_actor_id task \<notin> keys s" "la_module task = creator" "la_mailbox task < length (am_boxes s1)"
      using create_child_mgr_ok [OF assms(1) Cons.prems(1) _ creator assms(4)] by blast
    have "unat (am_next_id s1) + length ms < index_limit" using s1(3) Cons.prems(2) by (simp add: grown_def)
    then obtain tasks s' where s': "load_loop env cfg ms s1 = Some (Inr (tasks, s'))" "mgr_ok env b R s'"
      "grown (length ms) s1 s'" "am_enqueued s' = am_enqueued s1" "fresh_tasks s1 tasks s'" "length tasks \<le> length ms"
      using Cons.IH [OF s1(2)] by blast
    have "load_loop env cfg (m # ms) s = Some (Inr (task # tasks, s'))"
      using Some s1(1) s'(1) by (simp add: run_simps run_ret_def)
    moreover have "grown (length (m # ms)) s s'" using grown_trans [OF s1(3) s'(3)] by simp
    moreover have "length (am_boxes s1) \<le> length (am_boxes s')" using s'(3) by (simp add: grown_def)
    then have "fresh_tasks s (task # tasks) s'" using s'(5) s1(5-8) creator by (auto simp: fresh_tasks_def)
    ultimately show ?thesis using s'(2,4,6) s1(4) by auto
  qed
qed

lemma load_modules_tasks:
  assumes "env_ok env" "mgr_ok env b R s" "unat (am_next_id s) + length (cfg_modules (am_config s)) < index_limit"
    and "256 + b < index_limit"
  shows "\<exists>s' tasks. load_modules env s = Some (Inr s') \<and> mgr_ok env b R s'
           \<and> grown (length (cfg_modules (am_config s))) s s' \<and> am_enqueued s' = am_enqueued s @ tasks
           \<and> fresh_tasks s tasks s' \<and> length tasks \<le> length (cfg_modules (am_config s))"
proof -
  obtain tasks s1 where s1: "load_loop env (am_config s) (cfg_modules (am_config s)) s = Some (Inr (tasks, s1))"
    "mgr_ok env b R s1" "grown (length (cfg_modules (am_config s))) s s1" "am_enqueued s1 = am_enqueued s" "fresh_tasks s tasks s1"
    "length tasks \<le> length (cfg_modules (am_config s))"
    using load_loop_ok [OF assms] by blast
  let ?s = "enqueue_tasks tasks s1"
  have "load_modules env s = Some (Inr ?s)"
    using s1(1) by (simp add: load_modules_def GetConfigInfo_def Let_def run_simps run_ret_def)
  moreover have "grown (length (cfg_modules (am_config s))) s ?s" "am_enqueued ?s = am_enqueued s @ tasks" "fresh_tasks s tasks ?s"
    using s1(3-5) by (auto simp: grown_def enqueue_tasks_def keys_def fresh_tasks_def)
  ultimately show ?thesis using mgr_ok_enqueue [OF s1(2), of tasks] s1(6) by blast
qed

lemma load_modules_ok:
  assumes "env_ok env" "mgr_ok env b R s" "unat (am_next_id s) + length (cfg_modules (am_config s)) < index_limit"
    and "256 + b < index_limit"
  shows "\<exists>s'. load_modules env s = Some (Inr s') \<and> mgr_ok env b R s'
           \<and> grown (length (cfg_modules (am_config s))) s s'"
  using load_modules_tasks [OF assms] by blast

lemma set_creator_mgr_ok:
  assumes "mgr_ok env b R s" "ready creator"
  shows "mgr_ok env b R (set_creator creator k s) \<and> grown n s (set_creator creator k s)"
  using assms set_creator_ok [of s creator "env_frames env" b _ R] unfolding mgr_ok_def by metis

lemma grown_enqueue: "grown n s s' \<Longrightarrow> grown n s (enqueue_tasks ts s')"
  by (simp add: grown_def enqueue_tasks_def keys_def)

lemma reload_loop_ok:
  assumes "env_ok env" "mgr_ok env b R s" "unat (am_next_id s) < index_limit" "256 + b < index_limit"
  shows "\<exists>s'. reload_loop env cfg k name ms s = Some (Inr s') \<and> mgr_ok env b R s' \<and> grown 1 s s'"
proof (induction ms)
  case Nil
  then show ?case using assms(2) by (simp add: run_ret_def grown_refl)
next
  case (Cons m ms)
  show ?case
  proof (cases "name = mod_module_name m")
    case name: True
    show ?thesis
    proof (cases "generate_creator (env_library env) (library_file cfg m)")
      case None
      then show ?thesis using assms(2) name by (simp add: run_ret_def grown_refl)
    next
      case (Some creator)
      have m: "ready creator" using generate_creator_ready [OF Some] .
      show ?thesis
      proof (cases "k = 0")
        case True
        obtain task s1 where "create_child env creator (mod_module_name m) s = Some (Inr (task, s1))"
          "mgr_ok env b R s1" "grown 1 s s1"
          using create_child_mgr_ok [OF assms(1,2,3) m assms(4)] by blast
        then show ?thesis
          using Some name True mgr_ok_enqueue grown_enqueue by (simp add: run_simps run_ret_def)
      next
        case False
        then show ?thesis
          using Some name assms(2) grown_refl set_creator_mgr_ok [OF assms(2) m] mgr_ok_enqueue grown_enqueue
          by (cases "find_child k (am_childrens s)") (simp_all add: run_ret_def)
      qed
    qed
  next
    case False
    then show ?thesis using Cons by simp
  qed
qed

lemma reload_module_ok:
  assumes "env_ok env" "mgr_ok env b R s" "unat (am_next_id s) < index_limit" "256 + b < index_limit"
  shows "\<exists>s'. reload_module env k name s = Some (Inr s') \<and> mgr_ok env b R s' \<and> grown 1 s s'"
  using reload_loop_ok [OF assms] by (simp add: reload_module_def GetConfigInfo_def Let_def)

lemma reload_all_loop_ok:
  assumes "env_ok env" "mgr_ok env b R s" "unat (am_next_id s) + length ms < index_limit" "256 + b < index_limit"
  shows "\<exists>tasks s'. reload_all_loop env cfg ms s = Some (Inr (tasks, s')) \<and> mgr_ok env b R s' \<and> grown (length ms) s s'"
  using assms(2,3)
proof (induction ms arbitrary: s)
  case Nil
  then show ?case by (simp add: run_ret_def grown_refl)
next
  case (Cons m ms)
  show ?case
  proof (cases "generate_creator (env_library env) (library_file cfg m)")
    case None
    then show ?thesis using Cons.IH [OF Cons.prems(1)] Cons.prems(2) by (fastforce simp: grown_def)
  next
    case (Some creator)
    let ?f = "find (\<lambda>(k, md). md_module_name md = mod_module_name m) (am_childrens s)"
    let ?r = "case ?f of
        Some (k, md) \<Rightarrow> run_ret (call_creator creator (md_actor_id md) (md_mailbox md), set_creator creator k s)
      | None \<Rightarrow> create_child env creator (mod_module_name m) s"
    have m: "ready creator" using generate_creator_ready [OF Some] .
    have "\<exists>task s1. ?r = Some (Inr (task, s1)) \<and> mgr_ok env b R s1 \<and> grown 1 s s1"
    proof (cases ?f)
      case None
      then show ?thesis using create_child_mgr_ok [OF assms(1) Cons.prems(1) _ m assms(4)] Cons.prems(2) by fastforce
    next
      case (Some c)
      then show ?thesis
        using set_creator_mgr_ok [OF Cons.prems(1) m] by (cases c) (auto simp: run_ret_def)
    qed
    then obtain task s1 where s1: "?r = Some (Inr (task, s1))" "mgr_ok env b R s1" "grown 1 s s1" by blast
    have "unat (am_next_id s1) + length ms < index_limit" using s1(3) Cons.prems(2) by (simp add: grown_def)
    then obtain tasks s' where s': "reload_all_loop env cfg ms s1 = Some (Inr (tasks, s'))" "mgr_ok env b R s'"
      "grown (length ms) s1 s'"
      using Cons.IH [OF s1(2)] by blast
    have "reload_all_loop env cfg (m # ms) s = Some (Inr (task # tasks, s'))"
      using Some s1(1) s'(1) by (simp add: run_simps run_ret_def)
    then show ?thesis using s'(2) grown_trans [OF s1(3) s'(3)] by auto
  qed
qed

lemma reload_all_modules_ok:
  assumes "env_ok env" "mgr_ok env b R s" "unat (am_next_id s) + length (cfg_modules (am_config s)) < index_limit"
    and "256 + b < index_limit"
  shows "\<exists>s'. reload_all_modules env s = Some (Inr s') \<and> mgr_ok env b R s'
           \<and> grown (length (cfg_modules (am_config s))) s s'"
proof -
  obtain tasks s1 where s1: "reload_all_loop env (am_config s) (cfg_modules (am_config s)) s = Some (Inr (tasks, s1))"
    "mgr_ok env b R s1" "grown (length (cfg_modules (am_config s))) s s1"
    using reload_all_loop_ok [OF assms] by blast
  then show ?thesis
    using mgr_ok_enqueue [OF s1(2), of tasks] grown_enqueue [OF s1(3), of tasks]
    by (simp add: reload_all_modules_def GetConfigInfo_def Let_def run_simps run_ret_def)
qed

section \<open>Handlers\<close>

lemma mgr_wf_boxes: "mgr_wf s \<Longrightarrow> \<forall>c\<in>set (am_childrens s). md_mailbox (snd c) < length (am_boxes s)"
  by (simp add: mgr_wf_def child_ok_def)

lemma keys_empty: "keys s = {} \<longleftrightarrow> am_childrens s = []"
  by (simp add: keys_def)

lemma handle_cmd_exit_accounts:
  assumes wf: "mgr_wf s" and acc: "accounts (env_frames env) (length (am_childrens s) + b) contents R s"
    and lim: "length (am_childrens s) < index_limit"
  shows "\<exists>s' contents'. handle_cmd_exit env s = Some (Inr (am_childrens s = [], s')) \<and> accounts (env_frames env) b contents' R s'
           \<and> mgr_core s' = mgr_core (s\<lparr>am_pending_stop := am_pending_stop s \<union> keys s, am_pending_restart := am_pending_restart s - keys s\<rparr>)
           \<and> store_le (am_store s) (am_store s') \<and> contents' ! am_mailbox s = contents ! am_mailbox s"
proof (cases "am_childrens s = []")
  case True
  then show ?thesis
    using acc by (auto simp: handle_cmd_exit_def run_ret_def keys_def mgr_core_def store_le_refl intro: accounts_mono)
next
  case False
  let ?n = "length (am_childrens s)"
  obtain a s1 where new: "create_message (of_nat ?n) kEventCmdModuleStop 0 s = (a, s1)" by fastforce
  have n: "0 < ?n" "?n < 2 ^ 64" using False lim by simp_all
  note s1 = create_message_ok [OF acc n new]
  have same: "am_childrens s1 = am_childrens s" "length (am_boxes s1) = length (am_boxes s)"
    using s1(2) by (simp_all add: mgr_core_def)
  have "\<forall>c\<in>set (am_childrens s). md_mailbox (snd c) < length (am_boxes s1)"
    using mgr_wf_boxes [OF wf] same(2) by simp
  then obtain s' contents' where s': "stop_loop env a (am_childrens s) s1 = Some (Inr s')"
    "accounts (env_frames env) b contents' R s'"
    "mgr_core s' = mgr_core (s1\<lparr>am_pending_stop := am_pending_stop s1 \<union> fst ` set (am_childrens s),
        am_pending_restart := am_pending_restart s1 - fst ` set (am_childrens s)\<rparr>)" "store_le (am_store s1) (am_store s')"
    "\<forall>i. i \<notin> (md_mailbox \<circ> snd) ` set (am_childrens s) \<longrightarrow> contents' ! i = contents ! i"
    using stop_loop_ok [of env "am_childrens s" b contents R a s1] s1(1) by auto
  have core: "mgr_core s' = mgr_core (s\<lparr>am_pending_stop := am_pending_stop s \<union> keys s, am_pending_restart := am_pending_restart s - keys s\<rparr>)"
    using s'(3) s1(2) by (simp add: mgr_core_def keys_def)
  have "am_mailbox s \<notin> (md_mailbox \<circ> snd) ` set (am_childrens s)" using wf by (auto simp: mgr_wf_def child_ok_def)
  then have "contents' ! am_mailbox s = contents ! am_mailbox s" using s'(5) by blast
  moreover have "handle_cmd_exit env s = Some (Inr (False, s'))"
    using False new s'(1) same(1) by (simp add: handle_cmd_exit_def run_simps run_ret_def)
  moreover have "store_le (am_store s) (am_store s')" using store_le_trans s1(3) s'(4) by simp
  ultimately show ?thesis using False s'(2) core by auto
qed

lemma handle_cmd_exit_ok:
  assumes ok: "mgr_ok env (length (am_childrens s) + b) R s" and lim: "length (am_childrens s) < index_limit"
  shows "\<exists>s'. handle_cmd_exit env s = Some (Inr (am_childrens s = [], s')) \<and> mgr_ok env b R s'
           \<and> mgr_core s' = mgr_core (s\<lparr>am_pending_stop := am_pending_stop s \<union> keys s, am_pending_restart := am_pending_restart s - keys s\<rparr>)
           \<and> store_le (am_store s) (am_store s')"
proof -
  obtain contents where wf: "mgr_wf s" and acc: "accounts (env_frames env) (length (am_childrens s) + b) contents R s"
    using ok by (auto simp: mgr_ok_def)
  have "mgr_wf (s\<lparr>am_pending_stop := am_pending_stop s \<union> keys s, am_pending_restart := am_pending_restart s - keys s\<rparr>)"
    using wf by (auto simp: mgr_wf_def child_ok_def keys_def)
  then show ?thesis using handle_cmd_exit_accounts [OF wf acc lim] mgr_wf_core unfolding mgr_ok_def by blast
qed

lemma mgr_ok_core:
  assumes "mgr_wf s" "accounts (env_frames env) b contents R s'" "mgr_core s' = mgr_core s"
  shows "mgr_ok env b R s'"
  unfolding mgr_ok_def using mgr_wf_core [OF assms(3)] assms(1,2) by blast

text \<open>What a handler's bound on identifiers and budget has to cover.\<close>

definition room :: "manager \<Rightarrow> nat \<Rightarrow> bool" where
  "room s b \<longleftrightarrow> unat (am_next_id s) + length (cfg_modules (am_config s)) + 1 < index_limit
     \<and> 256 + length (am_childrens s) + 1 + b < index_limit"

text \<open>What the search for modules to reload may change besides the pending sets.\<close>

definition kept :: "manager \<Rightarrow> manager \<Rightarrow> bool" where
  "kept s s' \<longleftrightarrow> am_is_running s' = am_is_running s \<and> am_config s' = am_config s
     \<and> am_main_latch s' = am_main_latch s \<and> am_mailbox s' = am_mailbox s \<and> store_le (am_store s) (am_store s')"

lemma kept_trans: "kept s s1 \<Longrightarrow> kept s1 s2 \<Longrightarrow> kept s s2"
  unfolding kept_def using store_le_trans by auto

lemma kept_core: "mgr_core s' = mgr_core s \<Longrightarrow> store_le (am_store s) (am_store s') \<Longrightarrow> kept s s'"
  by (simp add: kept_def mgr_core_def)

lemma kept_grown: "grown n s s' \<Longrightarrow> kept s s'"
  by (simp add: kept_def grown_def store_le_refl)

lemma search_all_branch:
  assumes env: "env_ok env" and wf: "mgr_wf s" and room: "room s b" and all: "am_reload_all_flag s"
    and acc: "accounts (env_frames env) (length (am_childrens s) + b) contents
                (R + replicate_mset (max (length (am_childrens s)) 1) a) s"
  shows "\<exists>s'. run_bind (search_loop env a name (am_childrens s) s) (\<lambda>(found, s). search_finish env a found s)
                = Some (Inr (True, s')) \<and> mgr_ok env b R s' \<and> kept s s'"
proof (cases "am_childrens s = []")
  case True
  then have none: "am_pending_reload s = {}" using wf by (auto simp: mgr_wf_def keys_def)
  have "accounts (env_frames env) b contents (add_mset a R) s" using acc True by simp
  then obtain s1 where s1: "release_message a s = Some (Inr s1)" "accounts (env_frames env) b contents R s1"
    "mgr_core s1 = mgr_core s" "store_le (am_store s) (am_store s1)"
    using release_message_ok by blast
  have "mgr_ok env b R s1" using mgr_ok_core [OF wf s1(2,3)] .
  moreover have "am_next_id s1 = am_next_id s" "am_config s1 = am_config s" using s1(3) by (simp_all add: mgr_core_def)
  ultimately obtain s' where s': "load_modules env s1 = Some (Inr s')" "mgr_ok env b R s'"
    "grown (length (cfg_modules (am_config s1))) s1 s'"
    using load_modules_ok [OF env, of b R s1] room by (auto simp: room_def)
  have "kept s s'" using kept_trans [OF kept_core [OF s1(3,4)] kept_grown [OF s'(3)]] .
  then show ?thesis
    using True none all s1(1) s'(1,2) by (simp add: search_finish_def run_simps run_ret_def)
next
  case False
  then have "max (length (am_childrens s)) 1 = length (am_childrens s)" by (cases "am_childrens s") auto
  then obtain s' contents' where s': "search_loop env a name (am_childrens s) s = Some (Inr (False, s'))"
    "accounts (env_frames env) b contents' R s'"
    "mgr_core s' = mgr_core (s\<lparr>am_pending_reload := am_pending_reload s \<union> fst ` set (am_childrens s),
        am_pending_restart := am_pending_restart s - fst ` set (am_childrens s)\<rparr>)" "store_le (am_store s) (am_store s')"
    using search_all_ok [of env "am_childrens s" b contents R a s name] acc mgr_wf_boxes [OF wf] all by auto
  have "am_pending_reload s' \<noteq> {}" "am_reload_all_flag s'" using s'(3) False all by (auto simp: mgr_core_def)
  moreover have "mgr_wf (s\<lparr>am_pending_reload := am_pending_reload s \<union> fst ` set (am_childrens s),
        am_pending_restart := am_pending_restart s - fst ` set (am_childrens s)\<rparr>)"
    using wf by (auto simp: mgr_wf_def child_ok_def keys_def)
  then have "mgr_ok env b R s'" using mgr_ok_core [OF _ s'(2,3)] by blast
  moreover have "kept s s'" using s'(3,4) by (simp add: kept_def mgr_core_def)
  ultimately show ?thesis using s'(1) by (simp add: search_finish_def run_simps run_ret_def)
qed

lemma search_one_branch:
  assumes wf: "mgr_wf s" and one: "\<not> am_reload_all_flag s"
    and acc: "accounts (env_frames env) (Suc b) contents (add_mset a R) s"
  shows "\<exists>found s'. run_bind (search_loop env a name (am_childrens s) s) (\<lambda>(found, s). search_finish env a found s)
                = Some (Inr (found, s')) \<and> mgr_ok env b R s' \<and> kept s s' \<and> am_next_id s' = am_next_id s"
  using search_one_ok [OF acc mgr_wf_boxes [OF wf] one, of name]
proof (elim disjE exE conjE)
  assume loop: "search_loop env a name (am_childrens s) s = Some (Inr (False, s))"
  obtain s1 where s1: "release_message a s = Some (Inr s1)" "accounts (env_frames env) b contents R s1"
    "mgr_core s1 = mgr_core s" "store_le (am_store s) (am_store s1)"
    using release_message_ok [OF accounts_mono [OF acc, of b]] by auto
  have "mgr_ok env b R s1" using mgr_ok_core [OF wf s1(2,3)] .
  moreover have "am_next_id s1 = am_next_id s" using s1(3) by (simp add: mgr_core_def)
  ultimately show ?thesis
    using loop one s1(1) kept_core [OF s1(3,4)]
    by (intro exI [of _ False] exI [of _ s1]) (simp add: search_finish_def run_simps run_ret_def)
next
  fix k s' contents'
  assume k: "k \<in> fst ` set (am_childrens s)" and loop: "search_loop env a name (am_childrens s) s = Some (Inr (True, s'))"
    and acc': "accounts (env_frames env) b contents' R s'" and core: "mgr_core s' = mgr_core (mark_reload k s)"
    and le: "store_le (am_store s) (am_store s')"
  have "mgr_wf (mark_reload k s)" using wf k by (auto simp: mark_reload_def mgr_wf_def child_ok_def keys_def)
  then have "mgr_ok env b R s'" using mgr_ok_core acc' core by blast
  moreover have "kept s s'" "am_next_id s' = am_next_id s"
    using core le by (simp_all add: kept_def mgr_core_def mark_reload_def)
  ultimately show ?thesis
    using loop by (intro exI [of _ True] exI [of _ s']) (simp add: search_finish_def run_simps run_ret_def)
qed

lemma search_module_and_remove_ok:
  assumes env: "env_ok env" and ok: "mgr_ok env (length (am_childrens s) + 1 + b) R s" and room: "room s b"
  shows "\<exists>found s'. search_module_and_remove env name s = Some (Inr (found, s')) \<and> mgr_ok env b R s' \<and> kept s s'
           \<and> (\<not> found \<longrightarrow> am_next_id s' = am_next_id s)"
proof -
  let ?n = "length (am_childrens s)" and ?all = "name = ''all''"
  let ?k = "if ?all then max ?n 1 else 1"
  define s0 where "s0 = s\<lparr>am_reload_all_flag := ?all\<rparr>"
  have wf0: "mgr_wf s0" using ok by (simp add: s0_def mgr_ok_def mgr_wf_def child_ok_def keys_def)
  obtain contents where acc: "accounts (env_frames env) (?n + 1 + b) contents R s0"
    using ok by (auto simp: mgr_ok_def s0_def accounts_def)
  have k: "0 < ?k" "?k < 2 ^ 64" using room by (auto simp: room_def max_def)
  have "unat (of_nat ?n :: size_t) = ?n" using room by (intro unat_of_nat64) (simp add: room_def)
  then have ref: "(if ?all then max (of_nat ?n) 1 else 1) = (of_nat ?k :: size_t)"
    by (auto simp: max_def word_le_nat_alt)
  obtain a s1 where new: "create_message (of_nat ?k) kEventCmdModuleStop 0 s0 = (a, s1)" by fastforce
  note s1 = create_message_ok [OF acc k new]
  have core1: "am_childrens s1 = am_childrens s" "am_reload_all_flag s1 = ?all" "am_next_id s1 = am_next_id s"
    "am_config s1 = am_config s"
    using s1(2) by (simp_all add: mgr_core_def s0_def)
  have wf1: "mgr_wf s1" using mgr_wf_core [OF s1(2)] wf0 by simp
  have "kept s s1" using s1(2,3) by (simp add: kept_def mgr_core_def s0_def)
  have def: "search_module_and_remove env name s =
      run_bind (search_loop env a name (am_childrens s1) s1) (\<lambda>(found, s). search_finish env a found s)"
    using new core1(1) ref by (cases ?all) (simp_all add: search_module_and_remove_def s0_def Let_def)
  show ?thesis
  proof (cases ?all)
    case True
    have "accounts (env_frames env) (length (am_childrens s1) + b) contents
        (R + replicate_mset (max (length (am_childrens s1)) 1) a) s1"
      using accounts_mono [OF s1(1)] True core1(1) by simp
    moreover have "room s1 b" using room core1 by (simp add: room_def)
    ultimately obtain s' where "search_module_and_remove env name s = Some (Inr (True, s'))" "mgr_ok env b R s'" "kept s1 s'"
      using search_all_branch [OF env wf1, of b contents R a name] core1(2) True def by auto
    then show ?thesis using kept_trans [OF \<open>kept s s1\<close>] by blast
  next
    case False
    have "accounts (env_frames env) (Suc b) contents (add_mset a R) s1" using accounts_mono [OF s1(1)] False by simp
    then obtain found s' where "search_module_and_remove env name s = Some (Inr (found, s'))" "mgr_ok env b R s'"
      "kept s1 s'" "am_next_id s' = am_next_id s1"
      using search_one_branch [OF wf1, of env b contents a R name] core1(2) False def by auto
    then show ?thesis using kept_trans [OF \<open>kept s s1\<close>] core1(3) by metis
  qed
qed

text \<open>A message the running handler holds is there, with its payload if it needs one.\<close>

lemma held_message:
  assumes "mgr_ok env b (add_mset msg R) s"
  obtains m where "heap (am_store s) msg = Some m" "needs_payload (msg_type m) \<Longrightarrow> msg_payload m \<noteq> None"
proof -
  obtain contents where acc: "accounts (env_frames env) b contents (add_mset msg R) s" using assms by (auto simp: mgr_ok_def)
  then have "store_refs (am_store s) (sum_list (map mset contents) + add_mset msg R)" by (simp add: accounts_def)
  then obtain m where "heap (am_store s) msg = Some m"
    using store_refs_none [of "am_store s" _ msg] by (cases "heap (am_store s) msg") fastforce+
  then show thesis using that acc by (simp add: accounts_def payloads_ok_def)
qed

lemma held_payload:
  assumes "mgr_ok env b (add_mset msg R) s" "heap st msg = Some m" "needs_payload (msg_type m)"
    and "msg < next_addr st" "store_le st (am_store s)"
  shows "\<exists>v. get_payload msg (am_store s) = Inr v"
proof -
  obtain m' where m': "heap (am_store s) msg = Some m'" "needs_payload (msg_type m') \<Longrightarrow> msg_payload m' \<noteq> None"
    using held_message [OF assms(1)] by blast
  then have "same_body m m'" using assms(2,4,5) by (auto simp: store_le_def)
  then show ?thesis
    using m' assms(3) by (auto simp: get_payload_def load_message_Some same_body_def split: option.splits)
qed

lemma held_below: "mgr_ok env b R s \<Longrightarrow> heap (am_store s) msg = Some m \<Longrightarrow> msg < next_addr (am_store s)"
  by (auto simp: mgr_ok_def accounts_def store_refs_def store_wf_def)

lemma update_config_ok:
  assumes "mgr_ok env b R s"
  shows "mgr_ok env b R (snd (update_config env s))"
    "am_childrens (snd (update_config env s)) = am_childrens s" "am_store (snd (update_config env s)) = am_store s"
    "am_is_running (snd (update_config env s)) = am_is_running s"
    "am_main_latch (snd (update_config env s)) = am_main_latch s" "am_mailbox (snd (update_config env s)) = am_mailbox s"
  using assms
  by (cases "env_config env"; auto simp: update_config_def mgr_ok_def mgr_wf_def child_ok_def keys_def accounts_def)+

lemma handle_cmd_reload_ok:
  assumes env: "env_ok env" and ok: "mgr_ok env (length (am_childrens s) + 1 + b) (add_mset msg R) s"
    and room: "room (snd (update_config env s)) b"
    and msg: "heap (am_store s) msg = Some m" "needs_payload (msg_type m)"
  shows "\<exists>s'. handle_cmd_reload env msg s = Some (Inr s') \<and> mgr_ok env b (add_mset msg R) s'
           \<and> am_is_running s' = am_is_running s \<and> am_main_latch s' = am_main_latch s \<and> am_mailbox s' = am_mailbox s"
proof -
  obtain upd s0 where u: "update_config env s = (upd, s0)" by fastforce
  note s0 = update_config_ok [OF ok, unfolded u snd_conv]
  have below: "msg < next_addr (am_store s)" using held_below [OF ok msg(1)] .
  obtain name where name: "get_payload msg (am_store s0) = Inr name"
    using held_payload [OF s0(1) msg below] s0(3) store_le_refl by metis
  obtain found s1 where s1: "search_module_and_remove env name s0 = Some (Inr (found, s1))" "mgr_ok env b (add_mset msg R) s1"
    "kept s0 s1" "\<not> found \<longrightarrow> am_next_id s1 = am_next_id s0"
    using search_module_and_remove_ok [OF env, of s0 b "add_mset msg R" name] s0(1,2) room u by auto
  obtain name' where name': "get_payload msg (am_store s1) = Inr name'"
    using held_payload [OF s1(2) msg below] s1(3) s0(3) by (auto simp: kept_def)
  show ?thesis
  proof (cases "upd \<and> \<not> found")
    case True
    have "unat (am_next_id s1) < index_limit" "256 + b < index_limit" using room u s1(4) True by (simp_all add: room_def)
    then obtain s2 where "reload_module env 0 name' s1 = Some (Inr s2)" "mgr_ok env b (add_mset msg R) s2" "grown 1 s1 s2"
      using reload_module_ok [OF env s1(2)] by blast
    then show ?thesis
      using True u name name' s1(1,3) s0(4-6) by (simp add: handle_cmd_reload_def run_simps kept_def grown_def)
  next
    case False
    then show ?thesis
      using u name s1(1-3) s0 mgr_ok_mono [OF s0(1), of b]
      by (cases upd) (simp_all add: handle_cmd_reload_def run_simps run_ret_def kept_def)
  qed
qed

lemma remove_loop_accounts:
  assumes wf: "mgr_wf s" and acc: "accounts (env_frames env) (Suc b) contents R s" and cs: "set cs \<subseteq> set (am_childrens s)"
  shows "\<exists>s' t contents'. remove_loop env name cs s = Some (Inr s') \<and> accounts (env_frames env) b contents' R s'
     \<and> mgr_core s' = mgr_core t \<and> (t = s \<or> (\<exists>k\<in>keys s. t = mark_stop k s))
     \<and> store_le (am_store s) (am_store s') \<and> contents' ! am_mailbox s = contents ! am_mailbox s"
  using cs
proof (induction cs)
  case Nil
  then show ?case using accounts_mono [OF acc, of b] by (auto simp: run_ret_def store_le_refl)
next
  case (Cons c cs)
  obtain k md where c: "c = (k, md)" by fastforce
  show ?case
  proof (cases "md_module_name md = name")
    case True
    obtain a s1 where new: "create_message (of_nat 1) kEventCmdModuleStop 0 s = (a, s1)" by fastforce
    have one: "(0 :: nat) < 1" "(1 :: nat) < 2 ^ 64" by simp_all
    note s1 = create_message_ok [OF acc one new]
    have child: "child_ok s (k, md)" using wf Cons.prems c by (auto simp: mgr_wf_def)
    have "accounts (env_frames env) (Suc b) contents (add_mset a R) (mark_stop k s1)"
      using s1(1) by (simp add: accounts_def mark_stop_def)
    moreover have "md_mailbox md < length (am_boxes (mark_stop k s1))"
      using child s1(2) by (simp add: mgr_core_def mark_stop_def child_ok_def)
    ultimately obtain s' contents' where s': "send_to env a (md_mailbox md) (mark_stop k s1) = Some (Inr s')"
      "accounts (env_frames env) b contents' R s'" "mgr_core s' = mgr_core (mark_stop k s1)"
      "store_le (am_store (mark_stop k s1)) (am_store s')" "\<forall>i. i \<noteq> md_mailbox md \<longrightarrow> contents' ! i = contents ! i"
      using send_to_ok by blast
    have "mgr_core s' = mgr_core (mark_stop k s)" using s'(3) s1(2) by (simp add: mgr_core_def mark_stop_def)
    moreover have "k \<in> keys s" using Cons.prems c by (force simp: keys_def)
    moreover have "store_le (am_store s) (am_store s')" using store_le_trans s1(3) s'(4) by (simp add: mark_stop_def)
    moreover have "contents' ! am_mailbox s = contents ! am_mailbox s" using s'(5) child by (simp add: child_ok_def)
    moreover have "remove_loop env name (c # cs) s = Some (Inr s')" using c True new s'(1) by simp
    ultimately show ?thesis using s'(2) by blast
  next
    case False
    then show ?thesis using Cons c by simp
  qed
qed

lemma mgr_wf_mark_stop: "mgr_wf s \<Longrightarrow> k \<in> keys s \<Longrightarrow> mgr_wf (mark_stop k s)"
  by (auto simp: mark_stop_def mgr_wf_def child_ok_def keys_def)

lemma remove_loop_ok:
  assumes ok: "mgr_ok env (Suc b) R s" and cs: "set cs \<subseteq> set (am_childrens s)"
  shows "\<exists>s'. remove_loop env name cs s = Some (Inr s') \<and> mgr_ok env b R s' \<and> kept s s'"
proof -
  obtain contents where wf: "mgr_wf s" and acc: "accounts (env_frames env) (Suc b) contents R s"
    using ok by (auto simp: mgr_ok_def)
  obtain s' t contents' where s': "remove_loop env name cs s = Some (Inr s')" "accounts (env_frames env) b contents' R s'"
    "mgr_core s' = mgr_core t" "t = s \<or> (\<exists>k\<in>keys s. t = mark_stop k s)" "store_le (am_store s) (am_store s')"
    using remove_loop_accounts [OF wf acc cs, of name] by blast
  have "mgr_wf t" using s'(4) wf mgr_wf_mark_stop by blast
  then have "mgr_ok env b R s'" using mgr_ok_core [OF _ s'(2,3)] by blast
  moreover have "kept s s'" using s'(3,4,5) by (auto simp: kept_def mgr_core_def mark_stop_def)
  ultimately show ?thesis using s'(1) by blast
qed

lemma handle_cmd_remove_ok:
  assumes ok: "mgr_ok env (Suc b) (add_mset msg R) s"
    and msg: "heap (am_store s) msg = Some m" "needs_payload (msg_type m)"
  shows "\<exists>s'. handle_cmd_remove env msg s = Some (Inr s') \<and> mgr_ok env b (add_mset msg R) s' \<and> kept s s'"
proof -
  obtain name where "get_payload msg (am_store s) = Inr name"
    using held_payload [OF ok msg held_below [OF ok msg(1)] store_le_refl] by blast
  then show ?thesis using remove_loop_ok [OF ok, of "am_childrens s" name] by (simp add: handle_cmd_remove_def run_simps)
qed

lemma mgr_wf_forget: "mgr_wf s \<Longrightarrow> mgr_wf (forget_pending k s)"
  by (auto simp: forget_pending_def mgr_wf_def child_ok_def keys_def)

lemma mgr_wf_erase:
  assumes "mgr_wf s"
  shows "mgr_wf (erase_child k (forget_pending k s))"
proof -
  let ?s = "erase_child k (forget_pending k s)"
  have cs: "am_childrens ?s = filter (\<lambda>(j, md). j \<noteq> k) (am_childrens s)" by (simp add: erase_child_def forget_pending_def)
  have keys: "keys ?s = keys s - {k}" by (auto simp: keys_def cs image_iff)
  have "child_ok ?s c" if "child_ok s c" for c using that by (simp add: child_ok_def erase_child_def forget_pending_def)
  then show ?thesis
    using assms unfolding mgr_wf_def keys cs
    by (auto simp: erase_child_def forget_pending_def distinct_map_filter)
qed

lemma handle_event_exit_ok:
  assumes env: "env_ok env" and ok: "mgr_ok env b R s" and room: "room s b"
  shows "\<exists>fin s'. handle_event_exit env k s = Some (Inr (fin, s')) \<and> mgr_ok env b R s' \<and> kept s s'
           \<and> (fin \<longrightarrow> \<not> am_is_running s \<and> am_childrens s' = [])"
proof -
  let ?s = "forget_pending k s"
  have ok1: "mgr_ok env b R ?s"
    using ok mgr_wf_forget by (auto simp: mgr_ok_def accounts_def forget_pending_def)
  have kept1: "kept s ?s" by (simp add: kept_def forget_pending_def store_le_refl)
  have lim: "unat (am_next_id ?s) + length (cfg_modules (am_config ?s)) < index_limit" "unat (am_next_id ?s) < index_limit"
    "256 + b < index_limit"
    using room by (simp_all add: room_def forget_pending_def)
  have erased: "mgr_ok env b R (erase_child k ?s)"
    using ok mgr_wf_erase by (auto simp: mgr_ok_def accounts_def forget_pending_def erase_child_def)
  obtain sa where sa: "reload_all_modules env ?s = Some (Inr sa)" "mgr_ok env b R sa" "kept s sa"
    using reload_all_modules_ok [OF env ok1 lim(1,3)] kept_trans [OF kept1] kept_grown by blast
  have one: "\<exists>so. reload_module env k name ?s = Some (Inr so) \<and> mgr_ok env b R so \<and> kept s so" for name
    using reload_module_ok [OF env ok1 lim(2,3), of k name] kept_trans [OF kept1] kept_grown by blast
  have re: "mgr_ok env b R (restart_module md ?s)" "kept s (restart_module md ?s)" for md
    using ok1 mgr_ok_enqueue kept1 by (auto simp: restart_module_def kept_def enqueue_tasks_def split: option.split)
  have er: "kept s (erase_child k ?s)" using kept1 by (simp add: kept_def erase_child_def)
  show ?thesis
  proof (cases "find_child k (am_childrens ?s)")
    case None
    then show ?thesis
      using ok1 kept1 by (intro exI [of _ False]) (simp add: handle_event_exit_def Let_def run_ret_def)
  next
    case (Some md)
    obtain so where so: "reload_module env k (md_module_name md) ?s = Some (Inr so)" "mgr_ok env b R so" "kept s so"
      using one by blast
    consider (reload) "am_is_running ?s" "k \<in> am_pending_reload s"
      | (restart) "\<not> (am_is_running ?s \<and> k \<in> am_pending_reload s)"
          "am_is_running ?s \<and> k \<in> am_pending_restart s \<and> k \<notin> am_pending_stop s"
      | (erase) "\<not> (am_is_running ?s \<and> k \<in> am_pending_reload s)"
          "\<not> (am_is_running ?s \<and> k \<in> am_pending_restart s \<and> k \<notin> am_pending_stop s)"
      by blast
    then show ?thesis
    proof cases
      case reload
      then show ?thesis
        using Some sa so ok1 kept1
        by (intro exI [of _ False]; cases "am_reload_all_flag ?s"; cases "am_pending_reload ?s = {}")
           (simp_all add: handle_event_exit_def Let_def run_simps run_ret_def)
    next
      case restart
      then show ?thesis using Some re [of md]
        by (intro exI [of _ False]) (simp add: handle_event_exit_def Let_def run_ret_def)
    next
      case erase
      then have "handle_event_exit env k s =
          Some (Inr (\<not> am_is_running (erase_child k ?s) \<and> am_childrens (erase_child k ?s) = [], erase_child k ?s))"
        using Some by (auto simp: handle_event_exit_def Let_def run_ret_def)
      then show ?thesis using erased er by (auto simp: erase_child_def forget_pending_def)
    qed
  qed
qed

lemma handle_event_crash_ok:
  assumes ok: "mgr_ok env b (add_mset msg R) s" and msg: "heap (am_store s) msg = Some m" "needs_payload (msg_type m)"
  shows "\<exists>s'. handle_event_crash msg k s = Some (Inr s') \<and> mgr_ok env b (add_mset msg R) s' \<and> kept s s'"
proof (cases "find_child k (am_childrens s)")
  case None
  then show ?thesis using ok by (simp add: handle_event_crash_def run_ret_def kept_def store_le_refl)
next
  case (Some md)
  let ?s = "s\<lparr>am_pending_restart := insert k (am_pending_restart s)\<rparr>"
  have "k \<in> keys s" using Some by (force simp: find_child_def keys_def dest: map_of_SomeD)
  then have "mgr_ok env b (add_mset msg R) ?s"
    using ok by (auto simp: mgr_ok_def mgr_wf_def child_ok_def keys_def accounts_def)
  moreover obtain v where "get_payload msg (am_store s) = Inr v"
    using held_payload [OF ok msg held_below [OF ok msg(1)] store_le_refl] by blast
  ultimately show ?thesis
    using Some ok by (simp add: handle_event_crash_def run_simps run_ret_def kept_def store_le_refl)
qed

section \<open>A round of the event loop\<close>

lemma dispatch_ok:
  assumes env: "env_ok env" and ok: "mgr_ok env (length (am_childrens s) + 1 + b) (add_mset msg R) s"
    and room: "room s b" "room (snd (update_config env s)) b"
  shows "\<exists>fin s'. dispatch env msg s = Some (Inr (fin, s')) \<and> mgr_ok env b (add_mset msg R) s'
           \<and> am_is_running s' = am_is_running s \<and> am_main_latch s' = am_main_latch s \<and> am_mailbox s' = am_mailbox s
           \<and> (fin \<longrightarrow> am_childrens s' = [])"
proof -
  let ?R = "add_mset msg R"
  obtain m where m: "heap (am_store s) msg = Some m" "needs_payload (msg_type m) \<Longrightarrow> msg_payload m \<noteq> None"
    using held_message [OF ok] by blast
  have load: "load_message msg (am_store s) = Inr m" using m(1) by (rule load_message_Some)
  have ok': "mgr_ok env (Suc b) ?R s" "mgr_ok env b ?R s" "mgr_ok env (length (am_childrens s) + b) ?R s"
    using mgr_ok_mono [OF ok] by simp_all
  have lim: "length (am_childrens s) < index_limit" using room(1) by (simp add: room_def)
  have plain: "\<exists>fin s'. dispatch env msg s = Some (Inr (fin, s')) \<and> mgr_ok env b ?R s'
           \<and> am_is_running s' = am_is_running s \<and> am_main_latch s' = am_main_latch s \<and> am_mailbox s' = am_mailbox s
           \<and> (fin \<longrightarrow> am_childrens s' = [])"
    if "dispatch env msg s = run_ret (False, s)"
    using that ok'(2) by (auto simp: run_ret_def)
  show ?thesis
  proof (cases "msg_type m")
    case kEventCmdExit
    then show ?thesis
      using handle_cmd_exit_ok [OF ok'(3) lim] load by (auto simp: dispatch_def run_simps mgr_core_def)
  next
    case kEventCmdModuleReload
    then obtain s' where "handle_cmd_reload env msg s = Some (Inr s')" "mgr_ok env b ?R s'"
      "am_is_running s' = am_is_running s" "am_main_latch s' = am_main_latch s" "am_mailbox s' = am_mailbox s"
      using handle_cmd_reload_ok [OF env ok room(2) m(1)] by auto
    then show ?thesis
      using kEventCmdModuleReload load by (intro exI [of _ False]) (simp add: dispatch_def run_simps run_ret_def)
  next
    case kEventCmdModuleRemove
    then obtain s' where "handle_cmd_remove env msg s = Some (Inr s')" "mgr_ok env b ?R s'" "kept s s'"
      using handle_cmd_remove_ok [OF ok'(1) m(1)] by auto
    then show ?thesis
      using kEventCmdModuleRemove load by (intro exI [of _ False]) (simp add: dispatch_def run_simps run_ret_def kept_def)
  next
    case kEventModuleExited
    then show ?thesis
      using handle_event_exit_ok [OF env ok'(2) room(1), of "msg_sender_id m"] load
      by (auto simp: dispatch_def run_simps kept_def)
  next
    case kEventCrashReport
    then obtain s' where "handle_event_crash msg (msg_sender_id m) s = Some (Inr s')" "mgr_ok env b ?R s'" "kept s s'"
      using handle_event_crash_ok [OF ok'(2) m(1)] by auto
    then show ?thesis
      using kEventCrashReport load by (intro exI [of _ False]) (simp add: dispatch_def run_simps run_ret_def kept_def)
  qed (rule plain, simp add: dispatch_def load run_simps)+
qed

lemma receive_explicit:
  assumes acc: "accounts (env_frames env) (Suc b) contents R s" and mb: "mb < length (am_boxes s)"
  shows "\<exists>s'. box_receive mb s = Some (Inr (if contents ! mb = [] then None else Some (hd (contents ! mb)), s'))
           \<and> accounts (env_frames env) b (contents[mb := tl (contents ! mb)])
               (R + (if contents ! mb = [] then {#} else {#hd (contents ! mb)#})) s'
           \<and> mgr_core s' = mgr_core s \<and> am_store s' = am_store s"
proof -
  let ?f = "env_frames env" and ?ms = "contents ! mb" and ?box = "am_boxes s ! mb"
  have len: "mb < length contents" using acc mb by (simp add: accounts_def)
  have box: "mb_holds 256 (Suc b) ?ms ?box" "consumer_ok ?f ?box" using acc mb by (simp_all add: accounts_def)
  obtain box' where box': "try_receive ?box = Some (Inr (if ?ms = [] then None else Some (Some (hd ?ms)), box'))"
    "mb_holds 256 b (tl ?ms) box'" "mb_scheduled box' = mb_scheduled ?box" "mb_consumer box' = mb_consumer ?box"
    using try_receive_holds [OF box(1)] by blast
  obtain T where T: "sum_list (map mset contents) = mset ?ms + T"
    "\<And>y. sum_list (map mset (contents[mb := y])) = mset y + T"
    using sum_list_split [OF len, of mset] by blast
  let ?s = "s\<lparr>am_boxes := (am_boxes s)[mb := box']\<rparr>"
  let ?R = "R + (if ?ms = [] then {#} else {#hd ?ms#})"
  have "mb_holds 256 b (contents[mb := tl ?ms] ! k) ((am_boxes s)[mb := box'] ! k) \<and> consumer_ok ?f ((am_boxes s)[mb := box'] ! k)"
    if "k < length (am_boxes s)" for k
  proof (cases "k = mb")
    case True
    then show ?thesis using box box' len mb by (simp add: consumer_ok_def)
  next
    case False
    then show ?thesis using that accounts_mono [OF acc, of b] by (simp add: accounts_def)
  qed
  moreover have "sum_list (map mset (contents[mb := tl ?ms])) + ?R = sum_list (map mset contents) + R"
    unfolding T by (cases ?ms) simp_all
  then have "store_refs (am_store s) (sum_list (map mset (contents[mb := tl ?ms])) + ?R)"
    using acc unfolding accounts_def by metis
  ultimately have "accounts ?f b (contents[mb := tl ?ms]) ?R ?s" using acc unfolding accounts_def by simp
  moreover have "box_receive mb s = Some (Inr (if ?ms = [] then None else Some (hd ?ms), ?s))"
    using mb box'(1) by (cases ?ms) (simp_all add: box_receive_def run_simps run_ret_def)
  ultimately show ?thesis by (intro exI [of _ ?s]) (simp add: mgr_core_def)
qed

lemma receive_next_ok:
  assumes ok: "mgr_ok env (Suc b) {#} s"
  shows "\<exists>r s'. receive_next s = Some (Inr (r, s')) \<and> mgr_ok env b (case r of None \<Rightarrow> {#} | Some msg \<Rightarrow> {#msg#}) s'
           \<and> mgr_core s' = mgr_core s"
proof -
  have wf: "mgr_wf s" and mb: "am_mailbox s < length (am_boxes s)" using ok by (simp_all add: mgr_ok_def mgr_wf_def)
  obtain contents where acc: "accounts (env_frames env) (Suc b) contents {#} s" using ok by (auto simp: mgr_ok_def)
  let ?ms = "contents ! am_mailbox s"
  obtain s' where s': "box_receive (am_mailbox s) s = Some (Inr (if ?ms = [] then None else Some (hd ?ms), s'))"
    "accounts (env_frames env) b (contents[am_mailbox s := tl ?ms]) ({#} + (if ?ms = [] then {#} else {#hd ?ms#})) s'"
    "mgr_core s' = mgr_core s"
    using receive_explicit [OF acc mb] by blast
  have "mgr_ok env b ({#} + (if ?ms = [] then {#} else {#hd ?ms#})) s'" using mgr_ok_core [OF wf s'(2,3)] .
  then show ?thesis using s'(1,3) by (cases ?ms) (simp_all add: receive_next_def)
qed

section \<open>Starting and commanding\<close>

lemma manager_new_ok:
  assumes "256 + b < index_limit"
  shows "\<exists>s. manager_new cfg = Some (Inr s) \<and> mgr_ok env b {#} s \<and> am_childrens s = [] \<and> am_config s = cfg
           \<and> am_next_id s = 1 \<and> am_main_latch s = 1 \<and> am_enqueued s = [] \<and> \<not> am_is_running s"
proof -
  obtain box where box: "mail_box_new kMailBoxSize = Inr box" "consumer_ok (env_frames env) box" "mb_holds 256 b [] box"
    using kMailBoxSize_new [of "env_frames env"] assms by blast
  let ?s = "\<lparr>am_is_running = False, am_reload_all_flag = False, am_main_latch = 1, am_childrens = [],
        am_pending_reload = {}, am_pending_stop = {}, am_pending_restart = {}, am_mailbox = 0,
        am_boxes = [box], am_store = empty_store, am_next_id = unique_id_init, am_config = cfg,
        am_enqueued = [], am_woken = []\<rparr>"
  have "accounts (env_frames env) b [[]] {#} ?s"
    using box by (simp add: accounts_def store_refs_def store_wf_def empty_store_def payloads_ok_def)
  moreover have "mgr_wf ?s" by (simp add: mgr_wf_def unique_id_init_def)
  ultimately have "mgr_ok env b {#} ?s" by (auto simp: mgr_ok_def)
  then show ?thesis using box(1) by (simp add: manager_new_def run_simps run_ret_def unique_id_init_def)
qed

lemma EventLoop_start_tasks:
  assumes env: "env_ok env" and ok: "mgr_ok env b {#} s" and room: "room s b"
  shows "\<exists>s' tasks. EventLoop_start env h s = Some (Inr s') \<and> mgr_ok env b {#} s'
           \<and> grown (length (cfg_modules (am_config s))) (s\<lparr>am_is_running := True\<rparr>) s' \<and> am_enqueued s' = am_enqueued s @ tasks
           \<and> fresh_tasks s tasks s' \<and> length tasks \<le> length (cfg_modules (am_config s))"
proof -
  let ?mb = "am_mailbox s"
  let ?s = "s\<lparr>am_is_running := True, am_boxes := (am_boxes s)[?mb := ArmConsumer h (am_boxes s ! ?mb)],
              am_woken := am_woken s @ [h]\<rparr>"
  obtain contents where acc: "accounts (env_frames env) b contents {#} s" using ok by (auto simp: mgr_ok_def)
  have wf: "mgr_wf s" and mb: "?mb < length (am_boxes s)" using ok by (simp_all add: mgr_ok_def mgr_wf_def)
  have "mb_holds 256 b (contents ! k) ((am_boxes s)[?mb := ArmConsumer h (am_boxes s ! ?mb)] ! k)
      \<and> consumer_ok (env_frames env) ((am_boxes s)[?mb := ArmConsumer h (am_boxes s ! ?mb)] ! k)"
    if "k < length (am_boxes s)" for k
    using that acc mb by (cases "k = ?mb") (simp_all add: accounts_def ArmConsumer_def consumer_ok_def)
  then have "accounts (env_frames env) b contents {#} ?s" using acc by (simp add: accounts_def)
  moreover have "mgr_wf ?s" using wf by (simp add: mgr_wf_def child_ok_def keys_def)
  ultimately have "mgr_ok env b {#} ?s" by (auto simp: mgr_ok_def)
  moreover have "unat (am_next_id ?s) + length (cfg_modules (am_config ?s)) < index_limit" "256 + b < index_limit"
    using room by (simp_all add: room_def)
  ultimately obtain s' tasks where s': "load_modules env ?s = Some (Inr s')" "mgr_ok env b {#} s'"
    "grown (length (cfg_modules (am_config ?s))) ?s s'" "am_enqueued s' = am_enqueued ?s @ tasks" "fresh_tasks ?s tasks s'"
    "length tasks \<le> length (cfg_modules (am_config ?s))"
    using load_modules_tasks [OF env, of b "{#}" ?s] by blast
  have "grown (length (cfg_modules (am_config s))) (s\<lparr>am_is_running := True\<rparr>) s'" "fresh_tasks s tasks s'"
    using s'(3,5) by (simp_all add: grown_def fresh_tasks_def keys_def)
  then show ?thesis using s'(1,2,4,6) mb by (simp add: EventLoop_start_def Let_def)
qed

lemma EventLoop_start_ok:
  assumes "env_ok env" "mgr_ok env b {#} s" "room s b"
  shows "\<exists>s'. EventLoop_start env h s = Some (Inr s') \<and> mgr_ok env b {#} s' \<and> am_is_running s' \<and> kept (s\<lparr>am_is_running := True\<rparr>) s'"
  using EventLoop_start_tasks [OF assms, of h] by (auto simp: kept_def grown_def store_le_refl)

lemma create_payload_ok:
  assumes acc: "accounts frames b contents R s"
    and new: "new_message 1 type sender (am_store s) = (a, st)" and set: "set_payload a v st = Inr st'"
  shows "accounts frames b contents (add_mset a R) (s\<lparr>am_store := st'\<rparr>)"
    "heap st' = (heap (am_store s))(a \<mapsto> \<lparr>msg_ref = 1, msg_type = type, msg_sender_id = sender, msg_payload = Some v\<rparr>)"
proof -
  let ?m = "\<lparr>msg_ref = 1, msg_type = type, msg_sender_id = sender, msg_payload = Some v\<rparr>"
  have st': "st' = st\<lparr>heap := (heap st)(a \<mapsto> ?m)\<rparr>"
    using new set by (auto simp: new_message_def set_payload_def load_message_def)
  have "store_refs (am_store s) (sum_list (map mset contents) + R)" using acc by (simp add: accounts_def)
  from store_refs_new [OF this _ new, of 1 ?m] have "store_refs st' (sum_list (map mset contents) + R + replicate_mset 1 a)"
    using st' by simp
  moreover have "payloads_ok st'"
    using acc new st' by (auto simp: accounts_def payloads_ok_def new_message_def split: if_splits)
  ultimately show "accounts frames b contents (add_mset a R) (s\<lparr>am_store := st'\<rparr>)" using acc by (simp add: accounts_def)
  show "heap st' = (heap (am_store s))(a \<mapsto> ?m)" using st' new by (auto simp: new_message_def)
qed

lemma command_message_ok:
  assumes ok: "mgr_ok env (Suc b) R s"
  shows "\<exists>s'. command_message env type name s = Some (Inr s') \<and> mgr_ok env b R s' \<and> mgr_core s' = mgr_core s"
proof -
  obtain contents where acc: "accounts (env_frames env) (Suc b) contents R s" using ok by (auto simp: mgr_ok_def)
  have wf: "mgr_wf s" and mb: "am_mailbox s < length (am_boxes s)" using ok by (simp_all add: mgr_ok_def mgr_wf_def)
  obtain a st where new: "new_message 1 type 0 (am_store s) = (a, st)" by fastforce
  then obtain st' where set: "set_payload a name st = Inr st'"
    by (auto simp: new_message_def set_payload_def load_message_def)
  note acc1 = create_payload_ok(1) [OF acc new set]
  obtain s' contents' where s': "send_to env a (am_mailbox s) (s\<lparr>am_store := st'\<rparr>) = Some (Inr s')"
    "accounts (env_frames env) b contents' R s'" "mgr_core s' = mgr_core (s\<lparr>am_store := st'\<rparr>)"
    using send_to_ok [OF acc1, of "am_mailbox s"] mb by auto
  have "mgr_core s' = mgr_core s" using s'(3) by (simp add: mgr_core_def)
  then show ?thesis
    using mgr_ok_core [OF wf s'(2)] s'(1) new set by (simp add: command_message_def create_message_def run_simps)
qed

lemma Shutdown_ok:
  assumes ok: "mgr_ok env (Suc b) R s"
  shows "\<exists>s'. Shutdown env s = Some (Inr s') \<and> mgr_ok env b R s' \<and> mgr_core s' = mgr_core (s\<lparr>am_is_running := False\<rparr>)"
proof (cases "am_is_running s")
  case True
  let ?s = "s\<lparr>am_is_running := False\<rparr>"
  obtain contents where "accounts (env_frames env) (Suc b) contents R s" using ok by (auto simp: mgr_ok_def)
  then have acc: "accounts (env_frames env) (Suc b) contents R ?s" by (simp add: accounts_def)
  have wf: "mgr_wf ?s" using ok by (simp add: mgr_ok_def mgr_wf_def child_ok_def keys_def)
  obtain a s1 where new: "create_message (of_nat 1) kEventCmdExit 0 ?s = (a, s1)" by fastforce
  have one: "(0 :: nat) < 1" "(1 :: nat) < 2 ^ 64" by simp_all
  note s1 = create_message_ok [OF acc one new]
  have mb: "am_mailbox s1 < length (am_boxes s1)" using mgr_wf_core [OF s1(2)] wf by (simp add: mgr_wf_def)
  have "accounts (env_frames env) (Suc b) contents (add_mset a R) s1" using s1(1) by simp
  then obtain s' contents' where s': "send_to env a (am_mailbox s1) s1 = Some (Inr s')"
    "accounts (env_frames env) b contents' R s'" "mgr_core s' = mgr_core s1"
    using send_to_ok mb by blast
  have core: "mgr_core s' = mgr_core ?s" using s'(3) s1(2) by simp
  then show ?thesis using mgr_ok_core [OF wf s'(2) core] s'(1) True new by (simp add: Shutdown_def)
next
  case False
  then show ?thesis using mgr_ok_mono [OF ok, of b] by (simp add: Shutdown_def run_ret_def mgr_core_def)
qed

section \<open>Properties\<close>

text \<open>
  C10. The supervisor never runs into undefined behaviour and keeps itself in order. From a
  well-formed state (\<open>mgr_ok\<close>: children under their own identifiers with distinct mailboxes and a loaded module
  each, pending operations only for existing children, every message with exactly as many
  references as there are mailboxes holding it, payloads where handlers read them), a round of the event loop, whatever message is next,
  whatever the dynamic loader and the configuration file hold, returns without a fault and leaves a well-formed
  state. It asks to end the loop, and counts the main latch down, only when no child is left.
\<close>

theorem event_round_safe:
  assumes "env_ok env" "mgr_ok env (length (am_childrens s) + 2 + b) {#} s"
    and "room s b" "room (snd (update_config env s)) b"
  shows "\<exists>r s'. event_round env s = Some (Inr (r, s')) \<and> mgr_ok env b {#} s' \<and> am_is_running s' = am_is_running s
     \<and> am_main_latch s' = (if r = Some True then am_main_latch s - 1 else am_main_latch s)
     \<and> (r = Some True \<longrightarrow> am_childrens s' = [])"
proof -
  let ?n = "length (am_childrens s)"
  have "mgr_ok env (Suc (?n + 1 + b)) {#} s" using assms(2) by simp
  then obtain r s1 where s1: "receive_next s = Some (Inr (r, s1))"
    "mgr_ok env (?n + 1 + b) (case r of None \<Rightarrow> {#} | Some msg \<Rightarrow> {#msg#}) s1" "mgr_core s1 = mgr_core s"
    using receive_next_ok by blast
  have core: "am_childrens s1 = am_childrens s" "am_next_id s1 = am_next_id s" "am_config s1 = am_config s"
    "am_is_running s1 = am_is_running s" "am_main_latch s1 = am_main_latch s"
    using s1(3) by (simp_all add: mgr_core_def)
  have room: "room s1 b" "room (snd (update_config env s1)) b"
    using assms(3,4) core by (auto simp: room_def update_config_def split: option.splits)
  show ?thesis
  proof (cases r)
    case None
    then show ?thesis
      using s1(1) mgr_ok_mono [OF s1(2), of b] core by (simp add: event_round_def run_simps run_ret_def)
  next
    case (Some msg)
    then obtain fin s2 where s2: "dispatch env msg s1 = Some (Inr (fin, s2))" "mgr_ok env b {#msg#} s2"
      "am_is_running s2 = am_is_running s" "am_main_latch s2 = am_main_latch s" "fin \<longrightarrow> am_childrens s2 = []"
      using dispatch_ok [OF assms(1), of s1 b msg "{#}"] s1(2) core room by auto
    let ?s = "if fin then count_down s2 else s2"
    have "am_boxes ?s = am_boxes s2" "am_store ?s = am_store s2" by (simp_all add: count_down_def)
    then obtain contents where "accounts (env_frames env) b contents {#msg#} ?s"
      using s2(2) accounts_cong [of ?s s2] by (auto simp: mgr_ok_def)
    then obtain s3 where s3: "release_message msg ?s = Some (Inr s3)" "accounts (env_frames env) b contents {#} s3"
      "mgr_core s3 = mgr_core ?s"
      using release_message_ok by blast
    have "mgr_wf ?s" using s2(2) by (simp add: mgr_ok_def mgr_wf_def child_ok_def keys_def count_down_def)
    then have "mgr_ok env b {#} s3" using mgr_ok_core [OF _ s3(2,3)] by blast
    then show ?thesis
      using Some s1(1) s2 s3(1,3) by (auto simp: event_round_def run_simps run_ret_def mgr_core_def count_down_def)
  qed
qed

text \<open>An environment in which the one library of the configuration loads.\<close>

definition demo_env :: manager_env where
  "demo_env = \<lparr>env_library = [''lib/libnetactor.so'' \<mapsto> (True, True)], env_config = None, env_order = id, env_frames = Map.empty\<rparr>"

lemma demo_env_ok: "env_ok demo_env"
  by (simp add: env_ok_def demo_env_def)

text \<open>The supervisor has started and loaded the module; then it is told to shut down.\<close>

definition demo_up :: "manager run" where
  "demo_up = run_bind (manager_new demo_config) (EventLoop_start demo_env 1)"

definition demo_run :: "manager run" where
  "demo_run = run_bind demo_up (Shutdown demo_env)"

lemma demo_run_eval:
  "case demo_run of Some (Inr s) \<Rightarrow> map fst (am_childrens s) = [1] \<and> am_next_id s = 2
     \<and> am_config s = demo_config \<and> \<not> am_is_running s \<and> am_main_latch s = 1 | _ \<Rightarrow> False"
  by code_simp

lemma demo_up_ok:
  assumes "b < 1000"
  shows "\<exists>s. demo_up = Some (Inr s) \<and> mgr_ok demo_env b {#} s"
proof -
  obtain s0 where s0: "manager_new demo_config = Some (Inr s0)" "mgr_ok demo_env b {#} s0" "am_childrens s0 = []"
    "am_config s0 = demo_config" "am_next_id s0 = 1"
    using manager_new_ok [of b demo_config demo_env] assms by auto
  have room: "room s0 b" using s0 assms by (simp add: room_def demo_config_def)
  obtain s1 where "EventLoop_start demo_env 1 s0 = Some (Inr s1)" "mgr_ok demo_env b {#} s1"
    using EventLoop_start_ok [OF demo_env_ok s0(2) room, of 1] by metis
  then show ?thesis using s0(1) by (simp add: demo_up_def run_simps)
qed

lemma demo_run_ok:
  assumes "b < 999"
  shows "\<exists>s. demo_run = Some (Inr s) \<and> mgr_ok demo_env b {#} s \<and> map fst (am_childrens s) = [1] \<and> am_next_id s = 2
     \<and> am_config s = demo_config \<and> \<not> am_is_running s \<and> am_main_latch s = 1"
proof -
  obtain s1 where s1: "demo_up = Some (Inr s1)" "mgr_ok demo_env (Suc b) {#} s1" using demo_up_ok [of "Suc b"] assms by auto
  obtain s2 where s2: "Shutdown demo_env s1 = Some (Inr s2)" "mgr_ok demo_env b {#} s2"
    using Shutdown_ok [OF s1(2)] by blast
  have run: "demo_run = Some (Inr s2)" unfolding demo_run_def s1(1) by (simp add: run_simps s2(1))
  have "map fst (am_childrens s2) = [1] \<and> am_next_id s2 = 2
     \<and> am_config s2 = demo_config \<and> \<not> am_is_running s2 \<and> am_main_latch s2 = 1"
    using demo_run_eval unfolding run option.case sum.case .
  with run s2(2) show ?thesis by (intro exI [of _ s2] conjI) (elim conjE, assumption)+
qed

theorem event_round_safe_witness:
  "\<exists>s r s'. demo_run = Some (Inr s) \<and> event_round demo_env s = Some (Inr (r, s')) \<and> mgr_ok demo_env 5 {#} s'"
proof -
  obtain s where s: "demo_run = Some (Inr s)" "mgr_ok demo_env 8 {#} s" "map fst (am_childrens s) = [1]" "am_next_id s = 2"
    "am_config s = demo_config"
    using demo_run_ok [of 8] by auto
  have "length (map fst (am_childrens s)) = 1" unfolding s(3) by simp
  then have len: "length (am_childrens s) = 1" by simp
  have upd: "snd (update_config demo_env s) = s" by (simp add: update_config_def demo_env_def)
  have room: "room s 5" using s(4,5) len by (simp add: room_def demo_config_def)
  have "mgr_ok demo_env (length (am_childrens s) + 2 + 5) {#} s" using s(2) len by simp
  from event_round_safe [OF demo_env_ok this room] show ?thesis using room s(1) unfolding upd by blast
qed

end
