(* ===== verification/Supervision.thy ===== *)
theory Supervision
  imports Actor_Manager_Invariant
begin

text \<open>
  What the supervisor of theory \<open>Actor_Manager\<close> does over several events: ending the program when
  the last module has gone, restarting crashed modules, reloading, and where reloading leaves a child behind.
\<close>

section \<open>Shutting down\<close>

text \<open>The exit events of a list of modules, one after the other, with each answer.\<close>

fun exit_events :: "manager_env \<Rightarrow> size_t list \<Rightarrow> manager \<Rightarrow> (bool list \<times> manager) run" where
  "exit_events env [] s = run_ret ([], s)"
| "exit_events env (k # ks) s =
     run_bind (handle_event_exit env k s) (\<lambda>(fin, s).
       run_bind (exit_events env ks s) (\<lambda>(fins, s). run_ret (fin # fins, s)))"

lemma find_child_keys: "k \<in> keys s \<longleftrightarrow> (\<exists>md. find_child k (am_childrens s) = Some md)"
  unfolding keys_def find_child_def by (metis map_of_eq_None_iff not_None_eq)

lemma keys_erase: "keys (erase_child k (forget_pending k s)) = keys s - {k}"
  by (auto simp: keys_def erase_child_def forget_pending_def image_iff)

lemma exit_while_stopping:
  assumes "\<not> am_is_running s" "k \<in> keys s"
  shows "handle_event_exit env k s =
     Some (Inr (keys s = {k}, erase_child k (forget_pending k s)))"
proof -
  let ?s = "forget_pending k s"
  obtain md where "find_child k (am_childrens ?s) = Some md"
    using assms(2) find_child_keys [of k s] by (auto simp: forget_pending_def)
  moreover have "am_childrens (erase_child k ?s) = [] \<longleftrightarrow> keys s = {k}"
    using keys_erase [of k s] keys_empty [of "erase_child k ?s"] assms(2) by auto
  ultimately show ?thesis
    using assms(1) by (simp add: handle_event_exit_def Let_def run_ret_def forget_pending_def erase_child_def)
qed

text \<open>
  Graceful shutdown: once the manager is told to stop, the exit events of its modules, in
  whatever order they arrive, empty the table of children, and exactly the last of them is
  answered with the order to end the event loop.
\<close>

theorem shutdown_ends_at_last_exit:
  assumes "\<not> am_is_running s" "distinct ks" "set ks = keys s" "ks \<noteq> []"
  shows "\<exists>s'. exit_events env ks s = Some (Inr (replicate (length ks - 1) False @ [True], s')) \<and> am_childrens s' = []"
  using assms
proof (induction ks arbitrary: s)
  case (Cons k ks)
  let ?s = "erase_child k (forget_pending k s)"
  have k: "k \<in> keys s" using Cons.prems(3) by auto
  note step = exit_while_stopping [OF Cons.prems(1) k, of env]
  have ks: "set ks = keys ?s" using Cons.prems(2,3) by (auto simp: keys_erase)
  show ?case
  proof (cases "ks = []")
    case True
    then have "keys s = {k}" using Cons.prems(3) by auto
    moreover have "am_childrens ?s = []" using ks True keys_empty [of ?s] by auto
    ultimately show ?thesis using step True by (simp add: run_simps run_ret_def)
  next
    case False
    have "\<not> am_is_running ?s" using Cons.prems(1) by (simp add: erase_child_def forget_pending_def)
    then obtain s' where s': "exit_events env ks ?s = Some (Inr (replicate (length ks - 1) False @ [True], s'))"
      "am_childrens s' = []"
      using Cons.IH [OF _ _ ks False] Cons.prems(2) by auto
    have "keys s \<noteq> {k}" using ks keys_erase [of k s] False by auto
    then have "exit_events env (k # ks) s = Some (Inr (False # replicate (length ks - 1) False @ [True], s'))"
      using step s'(1) by (simp add: run_simps run_ret_def)
    moreover have "False # replicate (length ks - 1) False = replicate (length (k # ks) - 1) False"
      using False by (cases ks) simp_all
    ultimately show ?thesis using s'(2) by (metis append_Cons)
  qed
qed simp

text \<open>A supervisor with three modules that has been told to stop.\<close>

definition child :: "size_t \<Rightarrow> addr \<Rightarrow> string \<Rightarrow> size_t \<times> ActorMetaData" where
  "child k mb name = (k, \<lparr>md_actor_id = k, md_mailbox = mb, md_module_name = name,
     md_creator = Some \<lparr>lm_path = name, lm_handle = True, lm_create_func = True, lm_destroy_func = True\<rparr>\<rparr>)"

definition demo_manager :: manager where
  "demo_manager = \<lparr>am_is_running = False, am_reload_all_flag = False, am_main_latch = 1,
     am_childrens = [child 1 1 ''gateway'', child 2 2 ''login'', child 3 3 ''scene''],
     am_pending_reload = {}, am_pending_stop = {1, 2, 3}, am_pending_restart = {}, am_mailbox = 0,
     am_boxes = [], am_store = empty_store, am_next_id = 4, am_config = demo_config, am_enqueued = [], am_woken = []\<rparr>"

section \<open>Crashes\<close>

text \<open>
  C19. A module that reports a crash and then exits is started again, unless it is being stopped or
  reloaded: with the manager running and nothing pending for it, the crash report followed by the
  exit event enqueues one new coroutine of the same loaded module with the same identifier and mailbox, and
  changes nothing else. If an order to stop it was given before, it is removed from the table instead and
  not started again.
\<close>

theorem crashed_module_restarts:
  assumes "mgr_ok env b (add_mset msg R) s" "heap (am_store s) msg = Some m" "msg_type m = kEventCrashReport"
    and "am_is_running s" "find_child k (am_childrens s) = Some md" "md_creator md = Some creator" "k \<notin> am_pending_reload s"
  shows "\<exists>s1. handle_event_crash msg k s = Some (Inr s1) \<and>
     handle_event_exit env k s1 = Some (Inr (False,
       if k \<in> am_pending_stop s then erase_child k (forget_pending k s)
       else enqueue_tasks [call_creator creator (md_actor_id md) (md_mailbox md)] (forget_pending k s)))"
proof -
  obtain v where v: "get_payload msg (am_store s) = Inr v"
    using held_payload [OF assms(1,2) _ held_below [OF assms(1,2)] store_le_refl] assms(3) by auto
  show ?thesis
  proof (cases "k \<in> am_pending_stop s")
    case True
    have "k \<notin> am_pending_reload (forget_pending k s)" by (simp add: forget_pending_def)
    then show ?thesis
      using True v assms(4-7)
      by (simp add: handle_event_crash_def handle_event_exit_def Let_def run_simps run_ret_def find_child_def
          forget_pending_def erase_child_def)
  next
    case False
    then show ?thesis
      using v assms(4-7)
      by (simp add: handle_event_crash_def handle_event_exit_def Let_def run_simps run_ret_def find_child_def
          forget_pending_def restart_module_def enqueue_tasks_def)
  qed
qed

lemma demo_up_eval:
  "case demo_up of Some (Inr s) \<Rightarrow> am_is_running s \<and> am_pending_reload s = {} \<and> am_pending_stop s = {}
     \<and> (case find_child 1 (am_childrens s) of
          Some md \<Rightarrow> md_creator md = Some \<lparr>lm_path = ''lib/libnetactor.so'', lm_handle = True, lm_create_func = True, lm_destroy_func = True\<rparr>
        | None \<Rightarrow> False) | _ \<Rightarrow> False"
  by code_simp

theorem crashed_module_restarts_witness:
  "\<exists>s s0 msg s1 s2. demo_up = Some (Inr s) \<and> am_enqueued s0 = am_enqueued s
     \<and> handle_event_crash msg 1 s0 = Some (Inr s1)
     \<and> handle_event_exit demo_env 1 s1 = Some (Inr (False, s2)) \<and> length (am_enqueued s2) = Suc (length (am_enqueued s))"
proof -
  obtain s where s: "demo_up = Some (Inr s)" "mgr_ok demo_env 5 {#} s" using demo_up_ok [of 5] by auto
  let ?cr = "\<lparr>lm_path = ''lib/libnetactor.so'', lm_handle = True, lm_create_func = True, lm_destroy_func = True\<rparr>"
  have eval: "am_is_running s \<and> am_pending_reload s = {} \<and> am_pending_stop s = {}
     \<and> (case find_child 1 (am_childrens s) of Some md \<Rightarrow> md_creator md = Some ?cr | None \<Rightarrow> False)"
    using demo_up_eval unfolding s(1) option.case sum.case .
  then obtain md where md: "find_child 1 (am_childrens s) = Some md" "md_creator md = Some ?cr"
    by (auto split: option.splits)
  obtain contents where acc: "accounts (env_frames demo_env) 5 contents {#} s" using s(2) by (auto simp: mgr_ok_def)
  obtain a st where new: "new_message 1 kEventCrashReport 0 (am_store s) = (a, st)" by fastforce
  then obtain st' where set: "set_payload a ''boom'' st = Inr st'"
    by (auto simp: new_message_def set_payload_def load_message_def)
  let ?s = "s\<lparr>am_store := st'\<rparr>"
  have core: "mgr_core ?s = mgr_core s" by (simp add: mgr_core_def)
  have wf: "mgr_wf s" using s(2) by (simp add: mgr_ok_def)
  have ok: "mgr_ok demo_env 5 {#a#} ?s" using mgr_ok_core [OF wf create_payload_ok(1) [OF acc new set] core] .
  obtain m where m: "heap st' a = Some m" "msg_type m = kEventCrashReport"
    using new set by (auto simp: new_message_def set_payload_def load_message_def)
  have "heap (am_store ?s) a = Some m" "am_is_running ?s" "find_child 1 (am_childrens ?s) = Some md" "1 \<notin> am_pending_reload ?s"
    using m(1) eval md(1) by simp_all
  from crashed_module_restarts [OF ok this(1) m(2) this(2,3) md(2) this(4)] obtain s1 where
    "handle_event_crash a 1 ?s = Some (Inr s1)"
    "handle_event_exit demo_env 1 s1 = Some (Inr (False,
       enqueue_tasks [call_creator ?cr (md_actor_id md) (md_mailbox md)] (forget_pending 1 ?s)))"
    using eval by auto
  moreover have "length (am_enqueued (enqueue_tasks [t] (forget_pending 1 ?s))) = Suc (length (am_enqueued s))" for t
    by (simp add: enqueue_tasks_def forget_pending_def)
  moreover have "am_enqueued ?s = am_enqueued s" by simp
  ultimately show ?thesis using s(1) by blast
qed

section \<open>Reloading\<close>

text \<open>
  C33. A module that is stopped for a reload and is no longer in the configuration, or whose library no longer
  loads, is left behind: its exit event keeps it in the table of children and starts no coroutine for
  it, so no further exit event of it can arrive, and a later order to exit does not end the loop.
\<close>

theorem reload_strands_child:
  assumes "am_is_running s" "k \<in> am_pending_reload s" "\<not> am_reload_all_flag s" "find_child k (am_childrens s) = Some md"
    and "\<forall>m\<in>set (cfg_modules (am_config s)). mod_module_name m = md_module_name md \<longrightarrow>
           generate_creator (env_library env) (library_file (am_config s) m) = None"
  shows "handle_event_exit env k s = Some (Inr (False, forget_pending k s))
     \<and> k \<in> keys (forget_pending k s) \<and> am_enqueued (forget_pending k s) = am_enqueued s"
proof -
  have "reload_loop env cfg k name ms s1 = Some (Inr s1)"
    if "\<forall>m\<in>set ms. mod_module_name m = name \<longrightarrow> generate_creator (env_library env) (library_file cfg m) = None"
    for cfg name ms s1
    using that by (induction ms) (auto simp: run_ret_def)
  then have "reload_module env k (md_module_name md) (forget_pending k s) = Some (Inr (forget_pending k s))"
    using assms(5) by (simp add: reload_module_def GetConfigInfo_def Let_def forget_pending_def)
  then have "handle_event_exit env k s = Some (Inr (False, forget_pending k s))"
    using assms(1-4) by (simp add: handle_event_exit_def Let_def forget_pending_def run_simps run_ret_def)
  then show ?thesis
    using assms(4) find_child_keys [of k s] by (auto simp: forget_pending_def keys_def)
qed

theorem reload_strands_child_witness:
  "\<exists>s'. handle_event_exit (demo_env\<lparr>env_library := Map.empty\<rparr>) 2
       (demo_manager\<lparr>am_is_running := True, am_pending_stop := {}, am_pending_reload := {2}\<rparr>) = Some (Inr (False, s'))
     \<and> 2 \<in> keys s' \<and> am_enqueued s' = []"
proof -
  let ?s = "demo_manager\<lparr>am_is_running := True, am_pending_stop := {}, am_pending_reload := {2}\<rparr>"
  have "find_child 2 (am_childrens ?s) = Some (snd (child 2 2 ''login''))"
    by (simp add: demo_manager_def find_child_def child_def)
  moreover have "generate_creator Map.empty path = None" for path
    by (simp add: generate_creator_def Open_def Close_def LoadedModule_new_def)
  ultimately show ?thesis
    using reload_strands_child [of ?s 2 "snd (child 2 2 ''login'')" "demo_env\<lparr>env_library := Map.empty\<rparr>"]
    by (simp add: demo_manager_def)
qed

lemma create_child_names:
  assumes "env_ok env" "create_child env creator name s = Some (Inr (task, s'))" "c \<in> set (am_childrens s')"
  shows "c \<in> set (am_childrens s) \<or> md_module_name (snd c) = name"
proof -
  have "set (env_order env cs) = set cs" for cs using assms(1) by (metis env_ok_def set_mset_mset)
  then show ?thesis
    using assms(2,3)
    by (auto simp: create_child_def emplace_child_def generate_unique_id_def Let_def run_bind_Inr_iff run_ret_def run_res_def
        split: if_splits)
qed

lemma reload_all_loop_load:
  assumes "env_ok env" "distinct (map mod_module_name ms)"
    and "\<forall>m\<in>set ms. \<forall>c\<in>set (am_childrens s). md_module_name (snd c) \<noteq> mod_module_name m"
  shows "reload_all_loop env cfg ms s = load_loop env cfg ms s"
  using assms(2,3)
proof (induction ms arbitrary: s)
  case (Cons m ms)
  have find: "find (\<lambda>(k, md). md_module_name md = mod_module_name m) (am_childrens s) = None"
    using Cons.prems(2) by (fastforce simp: find_None_iff)
  have "reload_all_loop env cfg ms s' = load_loop env cfg ms s'"
    if "create_child env creator (mod_module_name m) s = Some (Inr (task, s'))" for creator task s'
  proof (rule Cons.IH)
    show "\<forall>m'\<in>set ms. \<forall>c\<in>set (am_childrens s'). md_module_name (snd c) \<noteq> mod_module_name m'"
      using create_child_names [OF assms(1) that] Cons.prems by fastforce
  qed (use Cons.prems(1) in simp)
  then have "run_bind (create_child env creator (mod_module_name m) s)
        (\<lambda>(task, s). run_bind (reload_all_loop env cfg ms s) (\<lambda>(tasks, s). run_ret (task # tasks, s))) =
      run_bind (create_child env creator (mod_module_name m) s)
        (\<lambda>(task, s). run_bind (load_loop env cfg ms s) (\<lambda>(tasks, s). run_ret (task # tasks, s)))" for creator
    by (auto simp: run_bind_def split: option.split sum.split)
  then show ?case
    using find Cons.IH [of s] Cons.prems
    by (cases "generate_creator (env_library env) (library_file cfg m)") simp_all
qed simp

text \<open>
  C32. Reloading everything and loading from scratch agree where both apply: with module
  names that are distinct in the configuration and no child of any of these names left, the search
  of \<^verbatim>\<open>__reload_all_modules\<close> for an entry to reuse finds nothing and the function is \<^verbatim>\<open>__load_modules\<close>.
\<close>

theorem reload_all_is_load:
  assumes "env_ok env" "distinct (map mod_module_name (cfg_modules (am_config s)))"
    and "\<forall>m\<in>set (cfg_modules (am_config s)). \<forall>c\<in>set (am_childrens s). md_module_name (snd c) \<noteq> mod_module_name m"
  shows "reload_all_modules env s = load_modules env s"
  using reload_all_loop_load [OF assms] by (simp add: reload_all_modules_def load_modules_def GetConfigInfo_def)

theorem reload_all_is_load_witness:
  "reload_all_modules demo_env demo_manager = load_modules demo_env demo_manager"
  by (rule reload_all_is_load [OF demo_env_ok]) (auto simp: demo_manager_def demo_config_def child_def)

end
