(* ===== verification/Reload_Races.thy ===== *)
theory Reload_Races
  imports Supervision
begin

text \<open>
  Commands that reach the supervisor of \<^verbatim>\<open>actor_manager.cc\<close> while it reloads all modules. A module that has exited for the reload
  stays in \<^verbatim>\<open>childrens_\<close> without a coroutine until the last one has exited too; then all of them are loaded and
  started. When a shutdown or another reload comes in between, that moment never comes, and the module is
  left behind for good.
\<close>

section \<open>What a handler leaves alone\<close>

text \<open>The part of the state that decides what becomes of a module.\<close>

definition table where
  "table s = (am_is_running s, am_reload_all_flag s, am_childrens s, am_pending_reload s, am_next_id s, am_enqueued s)"

lemma table_core: "mgr_core s' = mgr_core s \<Longrightarrow> table s' = table s"
  by (simp add: mgr_core_def table_def)

lemma create_message_table: "create_message n type sender s = (a, s') \<Longrightarrow> table s' = table s"
  by (auto simp: create_message_def table_def split: prod.splits)

lemma release_message_table: "release_message a s = Some (Inr s') \<Longrightarrow> table s' = table s"
  by (auto simp: release_message_def run_bind_Inr_iff run_ret_def table_def)

lemma send_to_table: "send_to env a mb s = Some (Inr s') \<Longrightarrow> table s' = table s"
  by (auto simp: send_to_def run_bind_Inr_iff run_ret_def run_res_def table_def split: if_splits)

lemma mark_stop_table: "table (mark_stop k s) = table s"
  by (simp add: mark_stop_def table_def)

lemma stop_loop_table: "stop_loop env a cs s = Some (Inr s') \<Longrightarrow> table s' = table s"
proof (induction cs arbitrary: s)
  case (Cons c cs)
  obtain k md where c: "c = (k, md)" by fastforce
  then obtain s1 where "send_to env a (md_mailbox md) (mark_stop k s) = Some (Inr s1)" "stop_loop env a cs s1 = Some (Inr s')"
    using Cons.prems by (auto simp: run_bind_Inr_iff)
  then show ?case using Cons.IH send_to_table mark_stop_table by metis
qed (simp add: run_ret_def)

lemma handle_cmd_exit_table:
  assumes "handle_cmd_exit env s = Some (Inr (fin, s'))"
  shows "fin \<longleftrightarrow> am_childrens s = []" "table s' = table s"
proof -
  obtain a s1 where new: "create_message (of_nat (length (am_childrens s))) kEventCmdModuleStop 0 s = (a, s1)" by fastforce
  have same: "table s1 = table s" using create_message_table [OF new] .
  have "(fin \<longleftrightarrow> am_childrens s = []) \<and> table s' = table s"
  proof (cases "am_childrens s = []")
    case True
    then show ?thesis using assms by (simp add: handle_cmd_exit_def run_ret_def)
  next
    case False
    then have "\<not> fin" "stop_loop env a (am_childrens s1) s1 = Some (Inr s')"
      using assms new by (auto simp: handle_cmd_exit_def run_bind_Inr_iff run_ret_def)
    then show ?thesis using stop_loop_table same False by metis
  qed
  then show "fin \<longleftrightarrow> am_childrens s = []" "table s' = table s" by blast+
qed

lemma remove_loop_table: "remove_loop env name cs s = Some (Inr s') \<Longrightarrow> table s' = table s"
proof (induction cs)
  case (Cons c cs)
  obtain k md where c: "c = (k, md)" by fastforce
  obtain a s1 where new: "create_message 1 kEventCmdModuleStop 0 s = (a, s1)" by fastforce
  show ?case
  proof (cases "md_module_name md = name")
    case True
    then have "send_to env a (md_mailbox md) (mark_stop k s1) = Some (Inr s')" using Cons.prems c new by simp
    then show ?thesis using send_to_table mark_stop_table create_message_table [OF new] by metis
  qed (use Cons c in simp)
qed (simp add: run_ret_def)

section \<open>Marking modules for a reload\<close>

lemma search_loop_table:
  assumes "search_loop env a name cs s = Some (Inr (found, s'))"
  shows "\<exists>P. table s' = table (s\<lparr>am_pending_reload := P\<rparr>) \<and> am_pending_reload s \<subseteq> P
     \<and> (am_reload_all_flag s \<longrightarrow> \<not> found \<and> fst ` set cs \<subseteq> P)"
  using assms
proof (induction cs arbitrary: s)
  case Nil
  then show ?case by (auto simp: run_ret_def table_def)
next
  case (Cons c cs)
  obtain k md where c: "c = (k, md)" by fastforce
  consider (all) s1 where "am_reload_all_flag s" "send_to env a (md_mailbox md) s = Some (Inr s1)"
      "search_loop env a name cs (mark_reload k s1) = Some (Inr (found, s'))"
    | (one) s1 where "\<not> am_reload_all_flag s" "send_to env a (md_mailbox md) s = Some (Inr s1)" "s' = mark_reload k s1"
    | (other) "\<not> am_reload_all_flag s" "search_loop env a name cs s = Some (Inr (found, s'))"
    using Cons.prems c by (auto simp: run_bind_Inr_iff run_ret_def split: if_splits)
  then show ?case
  proof cases
    case all
    have s1: "table s1 = table s" using send_to_table [OF all(2)] .
    then have "am_reload_all_flag (mark_reload k s1)" using all(1) by (simp add: table_def mark_reload_def)
    then show ?thesis using Cons.IH [OF all(3)] s1 c by (auto simp: table_def mark_reload_def)
  next
    case one
    then show ?thesis using send_to_table [OF one(2)]
      by (intro exI [of _ "insert k (am_pending_reload s)"]) (auto simp: table_def mark_reload_def)
  next
    case other
    then show ?thesis using Cons.IH [OF other(2)] by blast
  qed
qed

text \<open>A child is left, so a reload of all modules only marks them.\<close>

lemma search_module_table:
  assumes k: "k \<in> keys s" and search: "search_module_and_remove env name s = Some (Inr (found, s'))"
  shows "\<exists>P. table s' = table (s\<lparr>am_reload_all_flag := (name = ''all''), am_pending_reload := P\<rparr>) \<and> (name = ''all'' \<longrightarrow> k \<in> P)"
proof -
  let ?s = "s\<lparr>am_reload_all_flag := (name = ''all'')\<rparr>"
  let ?n = "if name = ''all'' then max (of_nat (length (am_childrens s))) 1 else 1"
  obtain a s1 where new: "create_message ?n kEventCmdModuleStop 0 ?s = (a, s1)" by fastforce
  have s1: "table s1 = table ?s" using create_message_table [OF new] .
  have "run_bind (search_loop env a name (am_childrens s1) s1) (\<lambda>(ret, s). search_finish env a ret s) = Some (Inr (found, s'))"
    using search new by (cases "name = ''all''") (simp_all add: search_module_and_remove_def Let_def)
  then obtain ret s2 where s2: "search_loop env a name (am_childrens s1) s1 = Some (Inr (ret, s2))"
    "search_finish env a ret s2 = Some (Inr (found, s'))"
    unfolding run_bind_Inr_iff by auto
  obtain P where P: "table s2 = table (s1\<lparr>am_pending_reload := P\<rparr>)"
    "am_reload_all_flag s1 \<longrightarrow> \<not> ret \<and> fst ` set (am_childrens s1) \<subseteq> P"
    using search_loop_table [OF s2(1)] by blast
  have all: "k \<in> P" if "name = ''all''" using that P(2) s1 k by (auto simp: table_def keys_def)
  have "table s' = table s2"
  proof (cases "name = ''all''")
    case True
    then have "am_pending_reload s2 \<noteq> {}" "am_reload_all_flag s2" using all P(1) s1 by (auto simp: table_def)
    then show ?thesis using s2(2) by (auto simp: search_finish_def run_ret_def split: if_splits)
  next
    case False
    then have "\<not> am_reload_all_flag s2" using P(1) s1 by (simp add: table_def)
    then show ?thesis
      using s2(2) by (auto simp: search_finish_def run_ret_def run_bind_Inr_iff dest: release_message_table split: if_splits)
  qed
  then have "table s' = table (s\<lparr>am_reload_all_flag := (name = ''all''), am_pending_reload := P\<rparr>)"
    using P(1) s1 by (simp add: table_def)
  then show ?thesis using all by blast
qed

section \<open>A module that is left behind\<close>

text \<open>
  Module \<open>k\<close> is in the table, and the reload of all modules that would start it waits for an exit event of \<open>k\<close> itself, or there is no
  such reload, or the manager is stopping. Entries have their own, non-zero identifiers.
\<close>

definition left_behind :: "size_t \<Rightarrow> manager \<Rightarrow> bool" where
  "left_behind k s \<longleftrightarrow>
     k \<in> keys s \<and> unat k < unat (am_next_id s)
     \<and> (am_is_running s \<and> am_reload_all_flag s \<longrightarrow> k \<in> am_pending_reload s)
     \<and> (\<forall>c\<in>set (am_childrens s). md_actor_id (snd c) = fst c \<and> fst c \<noteq> 0)"

lemma left_behind_table: "table s' = table s \<Longrightarrow> left_behind k s' = left_behind k s"
  by (simp add: table_def left_behind_def keys_def)

text \<open>What is started, and that it is not \<open>k\<close>.\<close>

definition starts_others :: "size_t \<Rightarrow> manager \<Rightarrow> manager \<Rightarrow> bool" where
  "starts_others k s s' \<longleftrightarrow> (\<exists>ts. am_enqueued s' = am_enqueued s @ ts \<and> k \<notin> la_actor_id ` set ts)"

lemma starts_others_same: "am_enqueued s' = am_enqueued s \<Longrightarrow> starts_others k s s'"
  by (simp add: starts_others_def)

lemma starts_others_trans: "starts_others k s s1 \<Longrightarrow> starts_others k s1 s2 \<Longrightarrow> starts_others k s s2"
  by (fastforce simp: starts_others_def)

text \<open>One more task, for another module.\<close>

lemma starts_others_task:
  assumes "la_actor_id t \<noteq> k" "am_enqueued s1 = am_enqueued s"
  shows "starts_others k s (enqueue_tasks [t] s1)"
  using assms by (simp add: starts_others_def enqueue_tasks_def)

lemma create_child_left_behind:
  assumes env: "env_ok env" and k: "left_behind k s" and id: "am_next_id s \<noteq> - 1"
    and new: "create_child env creator name s = Some (Inr (task, s'))"
  shows "left_behind k (enqueue_tasks [task] s') \<and> starts_others k s (enqueue_tasks [task] s')"
proof -
  let ?n = "am_next_id s"
  obtain box where s': "s' = emplace_child env ?n \<lparr>md_actor_id = ?n, md_mailbox = length (am_boxes s), md_module_name = name,
        md_creator = Some creator\<rparr> (s\<lparr>am_next_id := ?n + 1, am_boxes := am_boxes s @ [box]\<rparr>)" "la_actor_id task = ?n"
    using new by (auto simp: create_child_def generate_unique_id_def Let_def run_bind_Inr_iff run_ret_def call_creator_def)
  have set: "set (env_order env cs) = set cs" for cs using env by (metis env_ok_def set_mset_mset)
  have n: "unat ?n + 1 = unat (?n + 1)" using id by (metis Suc_eq_plus1 add.commute add_eq_0_iff unatSuc)
  have less: "unat k < unat ?n" "?n \<noteq> 0" using k by (auto simp: left_behind_def)
  then have "?n \<noteq> k" by blast
  then have "starts_others k s (enqueue_tasks [task] s')"
    using s' by (intro starts_others_task) (simp_all add: emplace_child_def)
  moreover have "left_behind k (enqueue_tasks [task] s')"
    using k less n unfolding s'(1) left_behind_def enqueue_tasks_def emplace_child_def keys_def by (auto simp: set)
  ultimately show ?thesis by blast
qed

lemma reload_new_left_behind:
  assumes env: "env_ok env" and k: "left_behind k s" and id: "am_next_id s \<noteq> - 1"
    and reload: "reload_loop env cfg 0 name ms s = Some (Inr s')"
  shows "left_behind k s' \<and> starts_others k s s'"
  using reload
proof (induction ms)
  case (Cons m ms)
  show ?case
  proof (cases "name = mod_module_name m")
    case True
    show ?thesis
    proof (cases "generate_creator (env_library env) (library_file cfg m)")
      case None
      then show ?thesis using Cons.prems True k by (auto simp: run_ret_def starts_others_same)
    next
      case (Some creator)
      then obtain task s1 where "create_child env creator name s = Some (Inr (task, s1))" "s' = enqueue_tasks [task] s1"
        using Cons.prems True by (auto simp: run_bind_Inr_iff run_ret_def)
      then show ?thesis using create_child_left_behind [OF env k id] by blast
    qed
  qed (use Cons in simp)
qed (use k in \<open>auto simp: run_ret_def starts_others_same\<close>)

lemma reload_other_left_behind:
  assumes k: "left_behind k s" and j: "j \<noteq> k" "j \<noteq> 0"
    and reload: "reload_loop env cfg j name ms s = Some (Inr s')"
  shows "left_behind k s' \<and> starts_others k s s'"
  using reload
proof (induction ms)
  case (Cons m ms)
  have id: "md_actor_id md = j" if "find_child j (am_childrens s) = Some md" for md
    using that k unfolding find_child_def left_behind_def by (metis fst_conv map_of_SomeD snd_conv)
  have set: "left_behind k (enqueue_tasks ts (set_creator creator j s))" for creator ts
    using k by (force simp: left_behind_def keys_def set_creator_def enqueue_tasks_def)
  show ?case
    using Cons j k set id
    by (auto simp: run_ret_def starts_others_same call_creator_def set_creator_def split: if_splits option.splits
        intro!: starts_others_task)
qed (use k in \<open>auto simp: run_ret_def starts_others_same\<close>)

section \<open>Every message leaves it behind\<close>

lemma exit_left_behind:
  assumes k: "left_behind k s" and j: "j \<noteq> k" and exit: "handle_event_exit env j s = Some (Inr (fin, s'))"
  shows "\<not> fin \<and> left_behind k s' \<and> starts_others k s s'"
proof -
  let ?s = "forget_pending j s"
  have k1: "left_behind k ?s" using k j by (auto simp: left_behind_def forget_pending_def keys_def)
  have same: "am_enqueued ?s = am_enqueued s" "am_is_running ?s = am_is_running s" "am_reload_all_flag ?s = am_reload_all_flag s"
    by (simp_all add: forget_pending_def)
  show ?thesis
  proof (cases "find_child j (am_childrens ?s)")
    case None
    then show ?thesis using exit k1 same by (auto simp: handle_event_exit_def Let_def run_ret_def starts_others_same)
  next
    case (Some md)
    then have id: "md_actor_id md = j" "j \<noteq> 0"
      using k1 unfolding find_child_def left_behind_def by (metis fst_conv map_of_SomeD snd_conv)+
    have erase: "left_behind k (erase_child j ?s)" "am_childrens (erase_child j ?s) \<noteq> []"
      using k1 j keys_empty [of "erase_child j ?s"] by (auto simp: left_behind_def erase_child_def keys_def)
    have more: "\<not> (am_is_running s \<and> am_reload_all_flag s \<and> am_pending_reload ?s = {})"
      using k1 same by (auto simp: left_behind_def)
    consider (wait) "\<not> fin" "s' = ?s"
      | (reload) "\<not> fin" "reload_module env j (md_module_name md) ?s = Some (Inr s')"
      | (restart) "\<not> fin" "s' = restart_module md ?s"
      | (erase) "fin \<longleftrightarrow> \<not> am_is_running ?s \<and> am_childrens (erase_child j ?s) = []" "s' = erase_child j ?s"
      using exit Some more unfolding same(2,3) [symmetric]
      by (auto simp: handle_event_exit_def Let_def run_ret_def run_bind_Inr_iff erase_child_def split: if_splits)
    then show ?thesis
    proof cases
      case wait
      then show ?thesis using k1 same by (simp add: starts_others_same)
    next
      case reload
      then show ?thesis
        using reload_other_left_behind [OF k1 j id(2)] same by (auto simp: reload_module_def Let_def starts_others_def)
    next
      case restart
      have "left_behind k (enqueue_tasks ts ?s)" for ts using k1 by (simp add: left_behind_def enqueue_tasks_def keys_def)
      then show ?thesis
        using restart k1 id(1) j same
        by (auto simp: restart_module_def call_creator_def starts_others_same intro!: starts_others_task split: option.splits)
    next
      case erase
      then show ?thesis using \<open>left_behind k (erase_child j ?s)\<close> \<open>am_childrens (erase_child j ?s) \<noteq> []\<close> same
        by (simp add: starts_others_same erase_child_def)
    qed
  qed
qed

lemma reload_left_behind:
  assumes env: "env_ok env" and k: "left_behind k s" and id: "am_next_id s \<noteq> - 1"
    and reload: "handle_cmd_reload env msg s = Some (Inr s')"
  shows "left_behind k s' \<and> starts_others k s s'"
proof (cases "env_config env")
  case None
  then show ?thesis
    using reload k by (auto simp: handle_cmd_reload_def update_config_def run_ret_def starts_others_same)
next
  case (Some cfg)
  let ?s = "s\<lparr>am_config := cfg\<rparr>"
  obtain name found s1 where s1: "search_module_and_remove env name ?s = Some (Inr (found, s1))"
    "s' = s1 \<or> (\<exists>name'. reload_module env 0 name' s1 = Some (Inr s'))"
    using reload Some by (auto simp: handle_cmd_reload_def update_config_def run_bind_Inr_iff run_ret_def split: if_splits)
  have "k \<in> keys ?s" using k by (simp add: left_behind_def keys_def)
  then obtain P where P: "table s1 = table (?s\<lparr>am_reload_all_flag := (name = ''all''), am_pending_reload := P\<rparr>)"
    "name = ''all'' \<longrightarrow> k \<in> P"
    using search_module_table s1(1) by blast
  have "left_behind k (?s\<lparr>am_reload_all_flag := (name = ''all''), am_pending_reload := P\<rparr>)"
    using k P(2) by (simp add: left_behind_def keys_def)
  then have k1: "left_behind k s1" using left_behind_table [OF P(1)] by simp
  have e: "am_enqueued s1 = am_enqueued s" "am_next_id s1 \<noteq> - 1" using P(1) id by (simp_all add: table_def)
  show ?thesis
  proof (cases "s' = s1")
    case True
    then show ?thesis using k1 e(1) by (simp add: starts_others_same)
  next
    case False
    then obtain name' where "reload_module env 0 name' s1 = Some (Inr s')" using s1(2) by blast
    then show ?thesis
      using reload_new_left_behind [OF env k1 e(2)] starts_others_trans [OF starts_others_same [OF e(1)]]
      by (auto simp: reload_module_def Let_def)
  qed
qed

text \<open>
  The supervisor handles a message that is not an exit event of \<open>k\<close>, with whatever libraries and configuration file there are by
  then, as long as there are identifiers left; \<open>fin\<close> is the answer whether to end the loop.
\<close>

definition handles :: "size_t \<Rightarrow> manager \<Rightarrow> bool \<Rightarrow> manager \<Rightarrow> bool" where
  "handles k s fin s' \<longleftrightarrow>
     (\<exists>env msg m. env_ok env \<and> am_next_id s \<noteq> - 1 \<and> heap (am_store s) msg = Some m
        \<and> (msg_type m, msg_sender_id m) \<noteq> (kEventModuleExited, k) \<and> dispatch env msg s = Some (Inr (fin, s')))"

lemma handles_left_behind:
  assumes k: "left_behind k s" and h: "handles k s fin s'"
  shows "\<not> fin \<and> left_behind k s' \<and> starts_others k s s'"
proof -
  obtain env msg m where env: "env_ok env" and id: "am_next_id s \<noteq> - 1" and m: "heap (am_store s) msg = Some m"
    "(msg_type m, msg_sender_id m) \<noteq> (kEventModuleExited, k)" and disp: "dispatch env msg s = Some (Inr (fin, s'))"
    using h by (auto simp: handles_def)
  have nonempty: "am_childrens s \<noteq> []" using k by (auto simp: left_behind_def keys_def)
  have same: "left_behind k s' \<and> starts_others k s s'" if "table s' = table s"
    using that left_behind_table [OF that] k by (simp add: table_def starts_others_same)
  have load: "load_message msg (am_store s) = Inr m" using m(1) by (rule load_message_Some)
  show ?thesis
  proof (cases "msg_type m")
    case kEventCmdExit
    then have "handle_cmd_exit env s = Some (Inr (fin, s'))" using disp load by (simp add: dispatch_def run_simps)
    from handle_cmd_exit_table [OF this] show ?thesis using same nonempty by simp
  next
    case kEventCmdModuleReload
    then have "\<not> fin" "handle_cmd_reload env msg s = Some (Inr s')"
      using disp load by (auto simp: dispatch_def run_simps run_bind_Inr_iff run_ret_def)
    then show ?thesis using reload_left_behind [OF env k id] by blast
  next
    case kEventCmdModuleRemove
    then have "\<not> fin" "handle_cmd_remove env msg s = Some (Inr s')"
      using disp load by (auto simp: dispatch_def run_simps run_bind_Inr_iff run_ret_def)
    then have "\<not> fin" "table s' = table s"
      using remove_loop_table by (auto simp: handle_cmd_remove_def run_bind_Inr_iff)
    then show ?thesis using same by blast
  next
    case kEventModuleExited
    then have "handle_event_exit env (msg_sender_id m) s = Some (Inr (fin, s'))" "msg_sender_id m \<noteq> k"
      using disp load m(2) by (simp_all add: dispatch_def run_simps)
    then show ?thesis using exit_left_behind [OF k] by blast
  next
    case kEventCrashReport
    then have "\<not> fin" "handle_event_crash msg (msg_sender_id m) s = Some (Inr s')"
      using disp load by (auto simp: dispatch_def run_simps run_bind_Inr_iff run_ret_def)
    then have "\<not> fin" "table s' = table s"
      by (auto simp: handle_event_crash_def run_bind_Inr_iff run_ret_def table_def split: option.splits if_splits)
    then show ?thesis using same by blast
  qed (use disp load k in \<open>auto simp: dispatch_def run_simps run_ret_def starts_others_same\<close>)
qed

text \<open>
  The supervisor goes on for any time: it handles messages, and between two of them other threads send and release
  messages or call \<^verbatim>\<open>Shutdown\<close>. No exit event of \<open>k\<close> arrives.
\<close>

inductive goes_on :: "size_t \<Rightarrow> manager \<Rightarrow> manager \<Rightarrow> bool" for k s where
  goes_start: "goes_on k s s"
| goes_meanwhile: "goes_on k s s1 \<Longrightarrow> mgr_core s2 = mgr_core s1 \<Longrightarrow> goes_on k s s2"
| goes_shutdown: "goes_on k s s1 \<Longrightarrow> mgr_core s2 = mgr_core (s1\<lparr>am_is_running := False\<rparr>) \<Longrightarrow> goes_on k s s2"
| goes_handles: "goes_on k s s1 \<Longrightarrow> handles k s1 fin s2 \<Longrightarrow> goes_on k s s2"

lemma goes_on_left_behind:
  assumes "goes_on k s s'" "left_behind k s"
  shows "left_behind k s' \<and> starts_others k s s'"
  using assms
proof (induction rule: goes_on.induct)
  case (goes_meanwhile s1 s2)
  have t: "table s2 = table s1" using table_core [OF goes_meanwhile.hyps(2)] .
  have k: "left_behind k s1" "starts_others k s s1" using goes_meanwhile.IH goes_meanwhile.prems by blast+
  have "starts_others k s1 s2" using t by (intro starts_others_same) (simp add: table_def)
  then show ?case using k left_behind_table [OF t] starts_others_trans by blast
next
  case (goes_shutdown s1 s2)
  have t: "table s2 = table (s1\<lparr>am_is_running := False\<rparr>)" using table_core [OF goes_shutdown.hyps(2)] .
  have k: "left_behind k s1" "starts_others k s s1" using goes_shutdown.IH goes_shutdown.prems by blast+
  have "left_behind k (s1\<lparr>am_is_running := False\<rparr>)" using k(1) by (simp add: left_behind_def keys_def)
  moreover have "starts_others k s1 s2" using t by (intro starts_others_same) (simp add: table_def)
  ultimately show ?case using k(2) left_behind_table [OF t] starts_others_trans by blast
next
  case (goes_handles s1 fin s2)
  then have k: "left_behind k s1" "starts_others k s s1" by blast+
  then show ?case using handles_left_behind [OF k(1) goes_handles.hyps(2)] starts_others_trans by blast
qed (simp add: starts_others_same)

lemma left_behind_forever:
  assumes "left_behind k s" "goes_on k s s'"
  shows "k \<in> keys s' \<and> (\<exists>ts. am_enqueued s' = am_enqueued s @ ts \<and> k \<notin> la_actor_id ` set ts)
     \<and> (\<forall>fin s''. handles k s' fin s'' \<longrightarrow> \<not> fin)"
proof -
  have k: "left_behind k s'" and ts: "starts_others k s s'" using goes_on_left_behind [OF assms(2,1)] by blast+
  have "k \<in> keys s'" using k by (simp add: left_behind_def)
  then show ?thesis using ts handles_left_behind [OF k] unfolding starts_others_def by blast
qed

section \<open>The commands\<close>

lemma search_loop_found:
  assumes "\<not> am_reload_all_flag s" "\<exists>c\<in>set cs. md_module_name (snd c) = name"
  shows "search_loop env a name cs s \<noteq> Some (Inr (False, s'))"
  using assms(2)
proof (induction cs)
  case (Cons c cs)
  then show ?case using assms(1) by (cases c) (auto simp: run_bind_Inr_iff run_ret_def)
qed simp

text \<open>The search for one module: it is marked for a reload, and the flag that asks for all of them is cleared.\<close>

lemma search_one_result:
  assumes wf: "mgr_wf s" and acc: "accounts (env_frames env) (Suc b) contents R s" and name: "name \<noteq> ''all''"
    and child: "\<exists>c\<in>set (am_childrens s). md_module_name (snd c) = name"
  shows "\<exists>k s'. k \<in> keys s \<and> search_module_and_remove env name s = Some (Inr (True, s'))
     \<and> mgr_core s' = mgr_core (mark_reload k (s\<lparr>am_reload_all_flag := False\<rparr>))"
proof -
  let ?s = "s\<lparr>am_reload_all_flag := False\<rparr>"
  have acc0: "accounts (env_frames env) (Suc b) contents R ?s" using acc by (simp add: accounts_def)
  obtain a s1 where new: "create_message (of_nat 1) kEventCmdModuleStop 0 ?s = (a, s1)" by fastforce
  have one: "(0 :: nat) < 1" "(1 :: nat) < 2 ^ 64" by simp_all
  note s1 = create_message_ok [OF acc0 one new]
  have core: "am_childrens s1 = am_childrens s" "\<not> am_reload_all_flag s1" "length (am_boxes s1) = length (am_boxes s)"
    using s1(2) by (simp_all add: mgr_core_def)
  have acc1: "accounts (env_frames env) (Suc b) contents (add_mset a R) s1" using s1(1) by simp
  have boxes: "\<forall>c\<in>set (am_childrens s). md_mailbox (snd c) < length (am_boxes s1)" using mgr_wf_boxes [OF wf] core(3) by simp
  obtain k s' where s': "k \<in> fst ` set (am_childrens s)" "search_loop env a name (am_childrens s) s1 = Some (Inr (True, s'))"
    "mgr_core s' = mgr_core (mark_reload k s1)"
    using search_one_ok [OF acc1 boxes core(2), of name] search_loop_found [OF core(2) child] by blast
  have "search_module_and_remove env name s = Some (Inr (True, s'))"
    using new name s'(2) core(1) by (simp add: search_module_and_remove_def search_finish_def Let_def run_simps run_ret_def)
  moreover have "mgr_core s' = mgr_core (mark_reload k ?s)" using s'(3) s1(2) by (simp add: mgr_core_def mark_reload_def)
  ultimately show ?thesis using s'(1) by (auto simp: keys_def)
qed

text \<open>The search for all modules: every child is marked for the reload.\<close>

lemma search_all_result:
  assumes wf: "mgr_wf s" and acc: "accounts (env_frames env) (length (am_childrens s) + b) contents R s"
    and n: "am_childrens s \<noteq> []" "length (am_childrens s) < index_limit"
  shows "\<exists>s' contents'. search_module_and_remove env ''all'' s = Some (Inr (True, s')) \<and> accounts (env_frames env) b contents' R s'
     \<and> mgr_core s' = mgr_core (s\<lparr>am_reload_all_flag := True, am_pending_reload := keys s,
          am_pending_restart := {}\<rparr>)"
proof -
  let ?s = "s\<lparr>am_reload_all_flag := True\<rparr>" and ?n = "length (am_childrens s)"
  have acc0: "accounts (env_frames env) (?n + b) contents R ?s" using acc by (simp add: accounts_def)
  obtain a s1 where new: "create_message (of_nat ?n) kEventCmdModuleStop 0 ?s = (a, s1)" by fastforce
  have k: "0 < ?n" "?n < 2 ^ 64" using n by simp_all
  note s1 = create_message_ok [OF acc0 k new]
  have core: "am_childrens s1 = am_childrens s" "am_reload_all_flag s1" "length (am_boxes s1) = length (am_boxes s)"
    using s1(2) by (simp_all add: mgr_core_def)
  have boxes: "\<forall>c\<in>set (am_childrens s). md_mailbox (snd c) < length (am_boxes s1)" using mgr_wf_boxes [OF wf] core(3) by simp
  obtain s' contents' where s': "search_loop env a ''all'' (am_childrens s) s1 = Some (Inr (False, s'))"
    "accounts (env_frames env) b contents' R s'"
    "mgr_core s' = mgr_core (s1\<lparr>am_pending_reload := am_pending_reload s1 \<union> fst ` set (am_childrens s),
                am_pending_restart := am_pending_restart s1 - fst ` set (am_childrens s)\<rparr>)"
    using search_all_ok [of env "am_childrens s" b contents R a s1 "''all''"] s1(1) boxes core(2) by auto
  have pend: "am_pending_reload s \<union> keys s = keys s" "am_pending_restart s - keys s = {}" using wf by (auto simp: mgr_wf_def)
  have res: "mgr_core s' = mgr_core (s\<lparr>am_reload_all_flag := True, am_pending_reload := keys s, am_pending_restart := {}\<rparr>)"
    using s'(3) s1(2) pend by (simp add: mgr_core_def keys_def)
  then have "am_pending_reload s' \<noteq> {}" "am_reload_all_flag s'" using n(1) by (simp_all add: mgr_core_def keys_def)
  moreover have "unat (of_nat ?n :: size_t) = ?n" using k(2) by (rule unat_of_nat64)
  then have "(1 :: size_t) \<le> of_nat ?n" unfolding word_le_nat_alt using k(1) by (simp add: Suc_le_eq)
  then have "max (of_nat ?n) 1 = (of_nat ?n :: size_t)" by (rule max_absorb1)
  ultimately have "search_module_and_remove env ''all'' s = Some (Inr (True, s'))"
    using new s'(1) core(1) by (simp add: search_module_and_remove_def search_finish_def Let_def run_simps run_ret_def)
  then show ?thesis using s'(2) res by blast
qed

text \<open>
  A reload of all modules is under way and \<open>k\<close> was the first to exit: it is still in the table, waits for the
  others, and has not been started.
\<close>

definition waits_for_reload :: "size_t \<Rightarrow> manager \<Rightarrow> bool" where
  "waits_for_reload k s \<longleftrightarrow>
     am_is_running s \<and> am_reload_all_flag s \<and> k \<in> keys s \<and> k \<notin> am_pending_reload s \<and> am_pending_reload s \<noteq> {}"

lemma reload_all_under_way:
  assumes ok: "mgr_ok env (length (am_childrens s) + b) R s" and n: "length (am_childrens s) < index_limit"
    and msg: "heap (am_store s) msg = Some m" "msg_payload m = Some ''all''" "env_config env = Some cfg"
    and k: "am_is_running s" "k \<in> keys s" "keys s \<noteq> {k}"
  shows "\<exists>s0 s1. handle_cmd_reload env msg s = Some (Inr s0) \<and> handle_event_exit env k s0 = Some (Inr (False, s1))
     \<and> mgr_ok env b R s1 \<and> waits_for_reload k s1 \<and> am_childrens s1 = am_childrens s \<and> am_enqueued s1 = am_enqueued s"
proof -
  let ?s = "s\<lparr>am_config := cfg\<rparr>"
  obtain contents where wf: "mgr_wf ?s" and acc: "accounts (env_frames env) (length (am_childrens ?s) + b) contents R ?s"
    using ok by (auto simp: mgr_ok_def mgr_wf_def child_ok_def keys_def accounts_def)
  have "am_childrens ?s \<noteq> []" "length (am_childrens ?s) < index_limit" using k(2) n by (auto simp: keys_def)
  from search_all_result [OF wf acc this] obtain s0 contents' where
    s0: "search_module_and_remove env ''all'' ?s = Some (Inr (True, s0))" "accounts (env_frames env) b contents' R s0"
      "mgr_core s0 = mgr_core (?s\<lparr>am_reload_all_flag := True, am_pending_reload := keys ?s, am_pending_restart := {}\<rparr>)"
    by blast
  have "get_payload msg (am_store s) = Inr ''all''" using msg(1,2) by (simp add: get_payload_def load_message_Some)
  then have reload: "handle_cmd_reload env msg s = Some (Inr s0)"
    using msg(3) s0(1) by (simp add: handle_cmd_reload_def update_config_def run_simps run_ret_def)
  have core: "am_is_running s0" "am_reload_all_flag s0" "am_childrens s0 = am_childrens s" "am_pending_reload s0 = keys s"
    "am_enqueued s0 = am_enqueued s"
    using s0(3) k(1) by (simp_all add: mgr_core_def keys_def)
  let ?s1 = "forget_pending k s0"
  obtain md where "find_child k (am_childrens s0) = Some md" using k(2) core(3) find_child_keys [of k s] by auto
  moreover have wait: "am_pending_reload ?s1 = keys s - {k}" "keys s - {k} \<noteq> {}"
    using core(4) k(2,3) by (auto simp: forget_pending_def)
  ultimately have exit: "handle_event_exit env k s0 = Some (Inr (False, ?s1))"
    using core k(2) by (simp add: handle_event_exit_def Let_def run_ret_def forget_pending_def)
  have "mgr_wf (?s\<lparr>am_reload_all_flag := True, am_pending_reload := keys ?s, am_pending_restart := {}\<rparr>)"
    using wf by (auto simp: mgr_wf_def child_ok_def keys_def)
  then have "mgr_wf ?s1" using mgr_wf_core [OF s0(3)] mgr_wf_forget by blast
  moreover have "accounts (env_frames env) b contents' R ?s1" using s0(2) by (simp add: accounts_def forget_pending_def)
  ultimately have "mgr_ok env b R ?s1" by (auto simp: mgr_ok_def)
  moreover have "waits_for_reload k ?s1"
    using core wait k(2) by (simp add: waits_for_reload_def forget_pending_def keys_def)
  ultimately show ?thesis using reload exit core(3,5) by (auto simp: forget_pending_def)
qed

lemma left_behind_wf:
  assumes "mgr_wf s" "k \<in> keys s" "\<not> (am_is_running s \<and> am_reload_all_flag s)"
  shows "left_behind k s"
  using assms by (auto simp: left_behind_def mgr_wf_def child_ok_def keys_def)

text \<open>The exit events of some of the children while the manager is stopping: the others stay.\<close>

lemma exits_leave:
  assumes "\<not> am_is_running s" "distinct ks" "set ks \<subset> keys s"
  shows "\<exists>s'. exit_events env ks s = Some (Inr (replicate (length ks) False, s')) \<and> keys s' = keys s - set ks
     \<and> am_enqueued s' = am_enqueued s"
  using assms
proof (induction ks arbitrary: s)
  case (Cons k ks)
  let ?s = "erase_child k (forget_pending k s)"
  have k: "k \<in> keys s" "keys s \<noteq> {k}" using Cons.prems(2,3) by auto
  have "\<not> am_is_running ?s" "set ks \<subset> keys ?s" "am_enqueued ?s = am_enqueued s"
    using Cons.prems by (auto simp: keys_erase, auto simp: erase_child_def forget_pending_def)
  then obtain s' where "exit_events env ks ?s = Some (Inr (replicate (length ks) False, s'))" "keys s' = keys ?s - set ks"
    "am_enqueued s' = am_enqueued s"
    using Cons.IH [of ?s] Cons.prems(2) by auto
  then show ?case
    using exit_while_stopping [OF Cons.prems(1) k(1), of env] k(2) by (auto simp: run_simps run_ret_def keys_erase)
qed (simp add: run_ret_def)

section \<open>Properties\<close>

text \<open>
  C34. A shutdown that arrives while all modules are being reloaded never ends. Two modules or more are running, all are told to reload,
  one of them, \<open>k\<close>, exits, and \<^verbatim>\<open>Shutdown\<close> is called. The order to exit is then answered with messages to stop, and the exit
  events of all the others, in any order, remove them one by one, none being answered with the order to end the loop; \<open>k\<close> is
  left. And this is not a matter of the order: whatever messages the supervisor handles from then on, exit
  events of \<open>k\<close> aside, \<open>k\<close> stays in the table, no coroutine is started for it that could send such an event, and none of the messages
  ends the loop.
\<close>

theorem shutdown_during_reload_hangs:
  assumes "mgr_ok env (length (am_childrens s) + Suc (length (am_childrens s))) R s" "length (am_childrens s) < index_limit"
    and "heap (am_store s) msg = Some m" "msg_payload m = Some ''all''" "env_config env = Some cfg"
    and "am_is_running s" "k \<in> keys s" "keys s \<noteq> {k}" "distinct ks" "set ks = keys s - {k}"
  shows "\<exists>s0 s1 s2. handle_cmd_reload env msg s = Some (Inr s0) \<and> handle_event_exit env k s0 = Some (Inr (False, s1))
     \<and> Shutdown env s1 = Some (Inr s2)
     \<and> (\<exists>s3 s4. handle_cmd_exit env s2 = Some (Inr (False, s3))
          \<and> exit_events env ks s3 = Some (Inr (replicate (length ks) False, s4)) \<and> keys s4 = {k} \<and> am_enqueued s4 = am_enqueued s)
     \<and> (\<forall>s'. goes_on k s2 s' \<longrightarrow>
          k \<in> keys s' \<and> (\<exists>ts. am_enqueued s' = am_enqueued s @ ts \<and> k \<notin> la_actor_id ` set ts)
          \<and> (\<forall>fin s''. handles k s' fin s'' \<longrightarrow> \<not> fin))"
proof -
  let ?n = "length (am_childrens s)"
  obtain s0 s1 where s1: "handle_cmd_reload env msg s = Some (Inr s0)" "handle_event_exit env k s0 = Some (Inr (False, s1))"
    "mgr_ok env (Suc ?n) R s1" "am_childrens s1 = am_childrens s" "am_enqueued s1 = am_enqueued s"
    using reload_all_under_way [OF assms(1-8)] by blast
  obtain s2 where s2: "Shutdown env s1 = Some (Inr s2)" "mgr_ok env ?n R s2" "mgr_core s2 = mgr_core (s1\<lparr>am_is_running := False\<rparr>)"
    using Shutdown_ok [OF s1(3)] by blast
  have core2: "\<not> am_is_running s2" "am_childrens s2 = am_childrens s" "am_enqueued s2 = am_enqueued s" "keys s2 = keys s"
    using s2(3) s1(4,5) by (simp_all add: mgr_core_def keys_def)
  have "mgr_ok env (length (am_childrens s2) + 0) R s2" "length (am_childrens s2) < index_limit" using s2(2) core2(2) assms(2) by simp_all
  then obtain s3 where s3: "handle_cmd_exit env s2 = Some (Inr (am_childrens s2 = [], s3))"
    "mgr_core s3 = mgr_core (s2\<lparr>am_pending_stop := am_pending_stop s2 \<union> keys s2, am_pending_restart := am_pending_restart s2 - keys s2\<rparr>)"
    using handle_cmd_exit_ok by blast
  have core3: "\<not> am_is_running s3" "keys s3 = keys s" "am_enqueued s3 = am_enqueued s" "am_childrens s2 \<noteq> []"
    using s3(2) core2 assms(7) by (auto simp: mgr_core_def keys_def)
  have "set ks \<subset> keys s3" "keys s3 - set ks = {k}" using assms(7,10) core3(2) by auto
  then obtain s4 where "exit_events env ks s3 = Some (Inr (replicate (length ks) False, s4))" "keys s4 = {k}" "am_enqueued s4 = am_enqueued s"
    using exits_leave [OF core3(1) assms(9), of env] core3(3) by auto
  moreover have "left_behind k s2" using left_behind_wf s2(2) core2(1,4) assms(7) by (simp add: mgr_ok_def)
  then have "\<forall>s'. goes_on k s2 s' \<longrightarrow>
          k \<in> keys s' \<and> (\<exists>ts. am_enqueued s' = am_enqueued s @ ts \<and> k \<notin> la_actor_id ` set ts)
          \<and> (\<forall>fin s''. handles k s' fin s'' \<longrightarrow> \<not> fin)"
    using left_behind_forever [of k s2] unfolding core2(3) by blast
  moreover have "handle_cmd_exit env s2 = Some (Inr (False, s3))" using s3(1) core3(4) by simp
  ultimately show ?thesis using s1(1,2) s2(1) by blast
qed

text \<open>A supervisor with two modules, and the command to reload all or one of them.\<close>

definition two_config :: ac_config where
  "two_config = \<lparr>cfg_library_path = ''lib'',
     cfg_modules = [\<lparr>mod_module_name = ''network_module'', mod_library_name = ''netactor''\<rparr>,
                    \<lparr>mod_module_name = ''login'', mod_library_name = ''login''\<rparr>]\<rparr>"

definition two_env :: manager_env where
  "two_env = \<lparr>env_library = [''lib/libnetactor.so'' \<mapsto> (True, True), ''lib/liblogin.so'' \<mapsto> (True, True)],
     env_config = Some two_config, env_order = id, env_frames = Map.empty\<rparr>"

definition two_up :: "manager run" where
  "two_up = run_bind (manager_new two_config) (EventLoop_start two_env 1)"

definition two_names :: "(size_t \<times> string) list" where
  "two_names = [(1, ''network_module''), (2, ''login'')]"

lemma two_up_eval:
  "case two_up of Some (Inr s) \<Rightarrow> am_is_running s
     \<and> map (\<lambda>(k, md). (k, md_module_name md)) (am_childrens s) = two_names | _ \<Rightarrow> False"
  by code_simp

lemma two_up_ok:
  assumes "b < 1000"
  shows "\<exists>s. two_up = Some (Inr s) \<and> mgr_ok two_env b {#} s \<and> am_is_running s
     \<and> map (\<lambda>(k, md). (k, md_module_name md)) (am_childrens s) = two_names"
proof -
  have env: "env_ok two_env" by (simp add: env_ok_def two_env_def)
  obtain s0 where s0: "manager_new two_config = Some (Inr s0)" "mgr_ok two_env b {#} s0" "am_childrens s0 = []"
    "am_config s0 = two_config" "am_next_id s0 = 1"
    using manager_new_ok [of b two_config two_env] assms by auto
  have room: "room s0 b" using s0 assms by (simp add: room_def two_config_def)
  obtain s where "EventLoop_start two_env 1 s0 = Some (Inr s)" "mgr_ok two_env b {#} s"
    using EventLoop_start_ok [OF env s0(2) room, of 1] by metis
  moreover from this have run: "two_up = Some (Inr s)" using s0(1) by (simp add: two_up_def run_simps)
  have "am_is_running s \<and> map (\<lambda>(k, md). (k, md_module_name md)) (am_childrens s) = two_names"
    using two_up_eval unfolding run option.case sum.case .
  ultimately show ?thesis using run by blast
qed

lemma two_keys:
  assumes "map (\<lambda>(k, md). (k, md_module_name md)) (am_childrens s) = two_names"
  shows "keys s = {1, 2}" "length (am_childrens s) = 2" "\<exists>c\<in>set (am_childrens s). md_module_name (snd c) = ''network_module''"
proof -
  have "fst ` set (am_childrens s) = fst ` set (map (\<lambda>(k, md). (k, md_module_name md)) (am_childrens s))" by force
  then show "keys s = {1, 2}" unfolding assms by (simp add: keys_def two_names_def)
  show "length (am_childrens s) = 2" using arg_cong [OF assms, of length] by (simp add: two_names_def)
  have "(1, ''network_module'') \<in> set (map (\<lambda>(k, md). (k, md_module_name md)) (am_childrens s))"
    unfolding assms by (simp add: two_names_def)
  then show "\<exists>c\<in>set (am_childrens s). md_module_name (snd c) = ''network_module''" by force
qed

lemma reload_command:
  assumes "mgr_ok env b R s"
  shows "\<exists>a s0 m. mgr_ok env b (add_mset a R) s0 \<and> heap (am_store s0) a = Some m \<and> msg_payload m = Some name \<and> mgr_core s0 = mgr_core s"
proof -
  obtain contents where acc: "accounts (env_frames env) b contents R s" and wf: "mgr_wf s"
    using assms by (auto simp: mgr_ok_def)
  obtain a st where new: "new_message 1 kEventCmdModuleReload 0 (am_store s) = (a, st)" by fastforce
  then obtain st' where set: "set_payload a name st = Inr st'"
    by (auto simp: new_message_def set_payload_def load_message_def)
  let ?s = "s\<lparr>am_store := st'\<rparr>"
  note made = create_payload_ok [OF acc new set]
  have core: "mgr_core ?s = mgr_core s" by (simp add: mgr_core_def)
  have "mgr_ok env b (add_mset a R) ?s" using mgr_ok_core [OF wf made(1) core] .
  then show ?thesis using made(2) core by (intro exI [of _ a] exI [of _ ?s]) auto
qed

theorem shutdown_during_reload_hangs_witness:
  "\<exists>msg s s0 s1 s2 s3 s4. keys s = {1, 2} \<and> handle_cmd_reload two_env msg s = Some (Inr s0)
     \<and> handle_event_exit two_env 1 s0 = Some (Inr (False, s1)) \<and> Shutdown two_env s1 = Some (Inr s2)
     \<and> handle_cmd_exit two_env s2 = Some (Inr (False, s3)) \<and> exit_events two_env [2] s3 = Some (Inr ([False], s4)) \<and> keys s4 = {1}"
proof -
  obtain t where t: "mgr_ok two_env 5 {#} t" "am_is_running t"
    "map (\<lambda>(k, md). (k, md_module_name md)) (am_childrens t) = two_names"
    using two_up_ok [of 5] by auto
  obtain a s m where s: "mgr_ok two_env 5 {#a#} s" "heap (am_store s) a = Some m" "msg_payload m = Some ''all''" "mgr_core s = mgr_core t"
    using reload_command [OF t(1)] by blast
  have cs: "am_childrens s = am_childrens t" "am_is_running s" using s(4) t(2) by (simp_all add: mgr_core_def)
  have k: "keys s = {1, 2}" "length (am_childrens s) = 2" using two_keys [OF t(3)] cs(1) by (simp_all add: keys_def)
  have ks: "1 \<in> keys s" "keys s \<noteq> {1}" "distinct [2 :: size_t]" "set [2] = keys s - {1}" unfolding k(1) by auto
  have ok: "mgr_ok two_env (length (am_childrens s) + Suc (length (am_childrens s))) {#a#} s" "length (am_childrens s) < index_limit"
    using s(1) k(2) by simp_all
  have cfg: "env_config two_env = Some two_config" by (simp add: two_env_def)
  have one: "replicate (length [2 :: size_t]) False = [False]" by simp
  show ?thesis
    using shutdown_during_reload_hangs [OF ok s(2,3) cfg cs(2) ks] k(1) unfolding one by blast
qed

text \<open>
  C35. A command to reload one module cancels a reload of all modules that is under way. Module \<open>k\<close> has exited for the reload of all and
  waits in the table for the others. The command clears the flag that says so and starts nothing; and whatever
  messages the supervisor handles from then on, other modules that exit, crashes, further reloads of one or of all modules, removals and a
  shutdown included, \<open>k\<close> is never started again and stays in the table, so that the loop does not end either. Only an
  exit event of \<open>k\<close> itself could change that, and there is no coroutine to send it.
\<close>

theorem reload_one_cancels_reload_all:
  assumes "mgr_ok env (Suc b) R s" "waits_for_reload k s"
    and "heap (am_store s) msg = Some m" "msg_payload m = Some name" "name \<noteq> ''all''"
    and "\<exists>c\<in>set (am_childrens s). md_module_name (snd c) = name" "env_config env = Some cfg"
  shows "\<exists>s'. handle_cmd_reload env msg s = Some (Inr s') \<and> \<not> am_reload_all_flag s'
     \<and> am_childrens s' = am_childrens s \<and> am_enqueued s' = am_enqueued s
     \<and> (\<forall>s''. goes_on k s' s'' \<longrightarrow>
          k \<in> keys s'' \<and> (\<exists>ts. am_enqueued s'' = am_enqueued s @ ts \<and> k \<notin> la_actor_id ` set ts)
          \<and> (\<forall>fin s3. handles k s'' fin s3 \<longrightarrow> \<not> fin))"
proof -
  let ?s = "s\<lparr>am_config := cfg\<rparr>"
  obtain contents where wf: "mgr_wf ?s" and acc: "accounts (env_frames env) (Suc b) contents R ?s"
    using assms(1) by (auto simp: mgr_ok_def mgr_wf_def child_ok_def keys_def accounts_def)
  have child: "\<exists>c\<in>set (am_childrens ?s). md_module_name (snd c) = name" using assms(6) by simp
  obtain j s' where s': "j \<in> keys ?s" "search_module_and_remove env name ?s = Some (Inr (True, s'))"
    "mgr_core s' = mgr_core (mark_reload j (?s\<lparr>am_reload_all_flag := False\<rparr>))"
    using search_one_result [OF wf acc assms(5) child] by blast
  have "get_payload msg (am_store s) = Inr name" using assms(3,4) by (simp add: get_payload_def load_message_Some)
  then have reload: "handle_cmd_reload env msg s = Some (Inr s')"
    using assms(7) s'(2) by (simp add: handle_cmd_reload_def update_config_def run_simps run_ret_def)
  have core: "\<not> am_reload_all_flag s'" "am_childrens s' = am_childrens s" "am_enqueued s' = am_enqueued s"
    using s'(3) by (simp_all add: mgr_core_def mark_reload_def)
  have "mgr_wf (mark_reload j (?s\<lparr>am_reload_all_flag := False\<rparr>))"
    using wf s'(1) by (auto simp: mark_reload_def mgr_wf_def child_ok_def keys_def)
  then have "mgr_wf s'" using mgr_wf_core [OF s'(3)] by simp
  then have "left_behind k s'" using left_behind_wf core(1,2) assms(2) by (simp add: waits_for_reload_def keys_def)
  then have "\<forall>s''. goes_on k s' s'' \<longrightarrow>
          k \<in> keys s'' \<and> (\<exists>ts. am_enqueued s'' = am_enqueued s @ ts \<and> k \<notin> la_actor_id ` set ts)
          \<and> (\<forall>fin s3. handles k s'' fin s3 \<longrightarrow> \<not> fin)"
    using left_behind_forever [of k s'] unfolding core(3) by blast
  then show ?thesis using reload core by blast
qed

text \<open>Both modules are told to reload, the second one exits, and the first one is to be reloaded once more.\<close>

theorem reload_one_cancels_reload_all_witness:
  "\<exists>msg s s'. waits_for_reload 2 s \<and> handle_cmd_reload two_env msg s = Some (Inr s') \<and> \<not> am_reload_all_flag s'
     \<and> am_enqueued s' = am_enqueued s \<and> (\<forall>s''. goes_on 2 s' s'' \<longrightarrow> 2 \<in> keys s'')"
proof -
  have cfg: "env_config two_env = Some two_config" by (simp add: two_env_def)
  obtain t where t: "mgr_ok two_env 5 {#} t" "am_is_running t"
    "map (\<lambda>(k, md). (k, md_module_name md)) (am_childrens t) = two_names"
    using two_up_ok [of 5] by auto
  obtain a s m where s: "mgr_ok two_env 5 {#a#} s" "heap (am_store s) a = Some m" "msg_payload m = Some ''all''" "mgr_core s = mgr_core t"
    using reload_command [OF t(1)] by blast
  have cs: "am_childrens s = am_childrens t" "am_is_running s" using s(4) t(2) by (simp_all add: mgr_core_def)
  have k: "keys s = {1, 2}" "length (am_childrens s) = 2" using two_keys [OF t(3)] cs(1) by (simp_all add: keys_def)
  have ks: "2 \<in> keys s" "keys s \<noteq> {2}" unfolding k(1) by auto
  have ok: "mgr_ok two_env (length (am_childrens s) + 3) {#a#} s" "length (am_childrens s) < index_limit" using s(1) k(2) by simp_all
  obtain s1 where s1: "mgr_ok two_env 3 {#a#} s1" "waits_for_reload 2 s1" "am_childrens s1 = am_childrens s"
    using reload_all_under_way [OF ok s(2,3) cfg cs(2) ks] by blast
  obtain c s2 m2 where s2: "mgr_ok two_env 3 {#c, a#} s2" "heap (am_store s2) c = Some m2" "msg_payload m2 = Some ''network_module''"
    "mgr_core s2 = mgr_core s1"
    using reload_command [OF s1(1)] by blast
  have wait: "waits_for_reload 2 s2" "am_childrens s2 = am_childrens t"
    using s2(4) s1(2,3) cs(1) by (simp_all add: mgr_core_def waits_for_reload_def keys_def)
  have child: "\<exists>c\<in>set (am_childrens s2). md_module_name (snd c) = ''network_module''" using two_keys(3) [OF t(3)] wait(2) by simp
  have "mgr_ok two_env (Suc 2) {#c, a#} s2" using s2(1) by simp
  then show ?thesis using reload_one_cancels_reload_all [OF _ wait(1) s2(2,3) _ child cfg] wait(1) by fastforce
qed

end
