(* ===== verification/Event_Rounds.thy ===== *)
theory Event_Rounds
  imports Supervision
begin

text \<open>
  What one round of the supervisor's event loop does, message type by message type: the exact change of its table and pending
  sets, and that the messages behind the one it handles stay what they are.
\<close>

section \<open>Letters\<close>

text \<open>Type and sender of a message.\<close>

abbreviation letter :: "msg_store \<Rightarrow> addr \<Rightarrow> (EventType \<times> size_t) option" where
  "letter st a \<equiv> map_option (\<lambda>m. (msg_type m, msg_sender_id m)) (heap st a)"

text \<open>A message in a mailbox keeps them while others are allocated and released.\<close>

lemma letter_kept:
  assumes "store_wf st" "store_le st st'" "store_refs st' C" "a \<in># C" "letter st a = Some x"
  shows "letter st' a = Some x"
proof -
  obtain m' where m': "heap st' a = Some m'"
    using store_refs_none [OF assms(3), of a] assms(4) by (cases "heap st' a") (auto simp: count_eq_zero_iff)
  have "a < next_addr st" using assms(1,5) by (auto simp: store_wf_def)
  then show ?thesis using assms(2,5) m' by (auto simp: store_le_def same_body_def)
qed

lemma letters_kept:
  assumes acc: "accounts frames b contents R s" and acc': "accounts frames' b' contents' R' s'"
    and le: "store_le (am_store s) (am_store s')" and mb: "mb < length contents'" "set xs \<subseteq> set (contents' ! mb)"
    and old: "map (letter (am_store s)) xs = map Some ls"
  shows "map (letter (am_store s')) xs = map Some ls"
proof -
  obtain T where T: "sum_list (map mset contents') = mset (contents' ! mb) + T"
    using sum_list_split [OF mb(1), of mset] by blast
  have wf: "store_wf (am_store s)" using acc by (simp add: accounts_def store_refs_def)
  have refs: "store_refs (am_store s') (mset (contents' ! mb) + T + R')" using acc' T by (simp add: accounts_def)
  have "letter (am_store s') a = letter (am_store s) a" if "a \<in> set xs" for a
  proof -
    have "letter (am_store s) a \<in> set (map (letter (am_store s)) xs)" using that by simp
    then obtain x where x: "letter (am_store s) a = Some x" unfolding old by auto
    have "a \<in># mset (contents' ! mb) + T + R'" using that mb(2) by auto
    then show ?thesis unfolding x by (rule letter_kept [OF wf le refs _ x])
  qed
  then have "map (letter (am_store s')) xs = map (letter (am_store s)) xs" by (simp cong: map_cong)
  then show ?thesis using old by simp
qed

section \<open>Rounds\<close>

lemma length_childrens: "mgr_wf s \<Longrightarrow> length (am_childrens s) = card (keys s)"
  by (metis distinct_card keys_def length_map list.set_map mgr_wf_def)

text \<open>
  A round that finds a message, given what the handler does with it: \<open>t\<close> has the state the handler leaves up to the contents of
  mailboxes, which satisfy \<open>Q\<close>.
\<close>

lemma round_by_dispatch:
  fixes env :: manager_env
  assumes acc: "accounts (env_frames env) (Suc b) contents {#} s" and wf: "mgr_wf s"
    and head: "contents ! am_mailbox s = a # rest" and letter: "letter (am_store s) a = Some (type, k)"
    and disp: "\<And>s1 m. accounts (env_frames env) b (contents[am_mailbox s := rest]) {#a#} s1 \<Longrightarrow> mgr_core s1 = mgr_core s \<Longrightarrow>
       mgr_ok env b {#a#} s1 \<Longrightarrow> heap (am_store s1) a = Some m \<Longrightarrow> msg_type m = type \<Longrightarrow> msg_sender_id m = k \<Longrightarrow>
       \<exists>s2 contents2. dispatch env a s1 = Some (Inr (fin, s2)) \<and> accounts (env_frames env) b' contents2 {#a#} s2 \<and> Q contents2
         \<and> mgr_core s2 = mgr_core t \<and> store_le (am_store s1) (am_store s2)"
  shows "\<exists>s' contents'. event_round env s = Some (Inr (Some fin, s')) \<and> accounts (env_frames env) b' contents' {#} s' \<and> Q contents'
     \<and> mgr_core s' = mgr_core (if fin then count_down t else t) \<and> store_le (am_store s) (am_store s')"
proof -
  have mb: "am_mailbox s < length (am_boxes s)" using wf by (simp add: mgr_wf_def)
  obtain s1 where s1: "receive_next s = Some (Inr (Some a, s1))"
    "accounts (env_frames env) b (contents[am_mailbox s := rest]) {#a#} s1" "mgr_core s1 = mgr_core s" "am_store s1 = am_store s"
    using receive_explicit [OF acc mb] head by (auto simp: receive_next_def)
  obtain m where m: "heap (am_store s1) a = Some m" "msg_type m = type" "msg_sender_id m = k" using letter s1(4) by auto
  obtain s2 contents2 where s2: "dispatch env a s1 = Some (Inr (fin, s2))" "accounts (env_frames env) b' contents2 {#a#} s2"
    "Q contents2" "mgr_core s2 = mgr_core t" "store_le (am_store s1) (am_store s2)"
    using disp [OF s1(2,3) mgr_ok_core [OF wf s1(2,3)] m] by blast
  let ?s = "if fin then count_down s2 else s2"
  have "accounts (env_frames env) b' contents2 {#a#} ?s" using s2(2) by (simp add: accounts_def count_down_def)
  then obtain s' where s': "release_message a ?s = Some (Inr s')" "accounts (env_frames env) b' contents2 {#} s'"
    "mgr_core s' = mgr_core ?s" "store_le (am_store ?s) (am_store s')"
    using release_message_ok by blast
  have "mgr_core ?s = mgr_core (if fin then count_down t else t)" using s2(4) by (simp add: mgr_core_def count_down_def)
  moreover have "store_le (am_store s) (am_store s')"
    using store_le_trans [OF s2(5)] s'(4) s1(4) by (simp add: count_down_def split: if_splits)
  moreover have "event_round env s = Some (Inr (Some fin, s'))"
    using s1(1) s2(1) s'(1) by (simp add: event_round_def run_simps run_ret_def)
  ultimately show ?thesis using s'(2,3) s2(3) by (intro exI [of _ s'] exI [of _ contents2]) simp
qed

text \<open>An empty mailbox.\<close>

lemma round_empty:
  fixes env :: manager_env
  assumes acc: "accounts (env_frames env) (Suc b) contents {#} s" and wf: "mgr_wf s" and "contents ! am_mailbox s = []"
  shows "\<exists>s'. event_round env s = Some (Inr (None, s')) \<and> accounts (env_frames env) b contents {#} s' \<and> mgr_core s' = mgr_core s
     \<and> am_store s' = am_store s"
proof -
  have mb: "am_mailbox s < length (am_boxes s)" using wf by (simp add: mgr_wf_def)
  have id: "contents[am_mailbox s := []] = contents" using assms(3) by (metis list_update_id)
  obtain s' where "receive_next s = Some (Inr (None, s'))" "accounts (env_frames env) b contents {#} s'" "mgr_core s' = mgr_core s"
    "am_store s' = am_store s"
    using receive_explicit [OF acc mb] assms(3) id by (auto simp: receive_next_def)
  then show ?thesis by (intro exI [of _ s']) (simp add: event_round_def run_simps run_ret_def)
qed

text \<open>A crash report.\<close>

lemma round_crash:
  assumes acc: "accounts (env_frames env) (Suc b) contents {#} s" and wf: "mgr_wf s"
    and head: "contents ! am_mailbox s = a # rest" and letter: "letter (am_store s) a = Some (kEventCrashReport, k)"
    and k: "k \<in> keys s"
  shows "\<exists>s'. event_round env s = Some (Inr (Some False, s'))
     \<and> accounts (env_frames env) b (contents[am_mailbox s := rest]) {#} s'
     \<and> mgr_core s' = mgr_core (s\<lparr>am_pending_restart :=
         (if am_is_running s \<and> k \<notin> am_pending_reload s \<and> k \<notin> am_pending_stop s
          then insert k (am_pending_restart s) else am_pending_restart s)\<rparr>)
     \<and> store_le (am_store s) (am_store s')"
proof -
  let ?set = "\<lambda>s. s\<lparr>am_pending_restart :=
         (if am_is_running s \<and> k \<notin> am_pending_reload s \<and> k \<notin> am_pending_stop s
          then insert k (am_pending_restart s) else am_pending_restart s)\<rparr>"
  have "\<exists>s2 contents2. dispatch env a s1 = Some (Inr (False, s2)) \<and> accounts (env_frames env) b contents2 {#a#} s2
      \<and> contents2 = contents[am_mailbox s := rest] \<and> mgr_core s2 = mgr_core (?set s) \<and> store_le (am_store s1) (am_store s2)"
    if acc1: "accounts (env_frames env) b (contents[am_mailbox s := rest]) {#a#} s1" and core: "mgr_core s1 = mgr_core s"
      and ok: "mgr_ok env b {#a#} s1" and m: "heap (am_store s1) a = Some m" "msg_type m = kEventCrashReport" "msg_sender_id m = k"
    for s1 m
  proof -
    obtain v where v: "get_payload a (am_store s1) = Inr v"
      using held_payload [OF ok m(1) _ held_below [OF ok m(1)] store_le_refl] m(2) by auto
    obtain md where md: "find_child k (am_childrens s1) = Some md"
      using k find_child_keys [of k s] core by (auto simp: mgr_core_def)
    have "dispatch env a s1 = Some (Inr (False, ?set s1))"
      using load_message_Some [OF m(1)] m md v
      by (auto simp: dispatch_def handle_event_crash_def run_simps run_ret_def)
    moreover have "accounts (env_frames env) b (contents[am_mailbox s := rest]) {#a#} (?set s1)"
      using acc1 by (simp add: accounts_def)
    moreover have "mgr_core (?set s1) = mgr_core (?set s)" using core by (simp add: mgr_core_def)
    ultimately show ?thesis by (intro exI [of _ "?set s1"]) (simp add: store_le_refl)
  qed
  from round_by_dispatch [OF acc wf head letter this] show ?thesis by auto
qed

text \<open>The exit event of a child that is to be restarted.\<close>

lemma round_restart:
  assumes acc: "accounts (env_frames env) (Suc b) contents {#} s" and wf: "mgr_wf s"
    and head: "contents ! am_mailbox s = a # rest" and letter: "letter (am_store s) a = Some (kEventModuleExited, k)"
    and k: "find_child k (am_childrens s) = Some md" "md_creator md = Some creator" "am_is_running s"
      "k \<notin> am_pending_reload s" "k \<notin> am_pending_stop s" "k \<in> am_pending_restart s"
  shows "\<exists>s'. event_round env s = Some (Inr (Some False, s'))
     \<and> accounts (env_frames env) b (contents[am_mailbox s := rest]) {#} s'
     \<and> mgr_core s' = mgr_core (enqueue_tasks [call_creator creator (md_actor_id md) (md_mailbox md)]
         (s\<lparr>am_pending_restart := am_pending_restart s - {k}\<rparr>))
     \<and> store_le (am_store s) (am_store s')"
proof -
  let ?task = "call_creator creator (md_actor_id md) (md_mailbox md)"
  let ?t = "enqueue_tasks [?task] (s\<lparr>am_pending_restart := am_pending_restart s - {k}\<rparr>)"
  have "\<exists>s2 contents2. dispatch env a s1 = Some (Inr (False, s2)) \<and> accounts (env_frames env) b contents2 {#a#} s2
      \<and> contents2 = contents[am_mailbox s := rest] \<and> mgr_core s2 = mgr_core ?t \<and> store_le (am_store s1) (am_store s2)"
    if acc1: "accounts (env_frames env) b (contents[am_mailbox s := rest]) {#a#} s1" and core: "mgr_core s1 = mgr_core s"
      and m: "heap (am_store s1) a = Some m" "msg_type m = kEventModuleExited" "msg_sender_id m = k" for s1 m
  proof -
    let ?s = "enqueue_tasks [?task] (forget_pending k s1)"
    have "dispatch env a s1 = Some (Inr (False, ?s))"
      using load_message_Some [OF m(1)] m k core
      by (simp add: dispatch_def handle_event_exit_def run_simps run_ret_def mgr_core_def Let_def forget_pending_def
          restart_module_def enqueue_tasks_def)
    moreover have "accounts (env_frames env) b (contents[am_mailbox s := rest]) {#a#} ?s"
      using acc1 by (simp add: accounts_def enqueue_tasks_def forget_pending_def)
    moreover have "mgr_core ?s = mgr_core ?t" "am_store ?s = am_store s1"
      using core k(4,5) by (simp_all add: mgr_core_def enqueue_tasks_def forget_pending_def)
    ultimately show ?thesis by (intro exI [of _ ?s]) (simp add: store_le_refl)
  qed
  from round_by_dispatch [OF acc wf head letter this] show ?thesis by auto
qed

text \<open>The exit event of a child that is not started again.\<close>

lemma round_gone:
  assumes acc: "accounts (env_frames env) (Suc b) contents {#} s" and wf: "mgr_wf s"
    and head: "contents ! am_mailbox s = a # rest" and letter: "letter (am_store s) a = Some (kEventModuleExited, k)"
    and k: "k \<in> keys s" "k \<notin> am_pending_reload s" "\<not> (am_is_running s \<and> k \<in> am_pending_restart s \<and> k \<notin> am_pending_stop s)"
  defines "t \<equiv> erase_child k (forget_pending k s)"
  shows "\<exists>s'. event_round env s = Some (Inr (Some (\<not> am_is_running s \<and> keys s = {k}), s'))
     \<and> accounts (env_frames env) b (contents[am_mailbox s := rest]) {#} s'
     \<and> mgr_core s' = mgr_core (if \<not> am_is_running s \<and> keys s = {k} then count_down t else t)
     \<and> store_le (am_store s) (am_store s')"
proof -
  let ?fin = "\<not> am_is_running s \<and> keys s = {k}"
  have "\<exists>s2 contents2. dispatch env a s1 = Some (Inr (?fin, s2)) \<and> accounts (env_frames env) b contents2 {#a#} s2
      \<and> contents2 = contents[am_mailbox s := rest] \<and> mgr_core s2 = mgr_core t \<and> store_le (am_store s1) (am_store s2)"
    if acc1: "accounts (env_frames env) b (contents[am_mailbox s := rest]) {#a#} s1" and core: "mgr_core s1 = mgr_core s"
      and m: "heap (am_store s1) a = Some m" "msg_type m = kEventModuleExited" "msg_sender_id m = k" for s1 m
  proof -
    let ?s = "erase_child k (forget_pending k s1)"
    have same: "mgr_core ?s = mgr_core t" "am_store ?s = am_store s1"
      using core by (simp_all add: mgr_core_def t_def erase_child_def forget_pending_def)
    have "am_childrens t = [] \<longleftrightarrow> keys s = {k}" using keys_erase [of k s] keys_empty [of t] k(1) by (auto simp: t_def)
    then have "am_childrens ?s = [] \<longleftrightarrow> keys s = {k}" using same(1) by (simp add: mgr_core_def)
    moreover obtain md where "find_child k (am_childrens s1) = Some md"
      using k(1) find_child_keys [of k s] core by (auto simp: mgr_core_def)
    ultimately have "dispatch env a s1 = Some (Inr (?fin, ?s))"
      using load_message_Some [OF m(1)] m k(2,3) core
      by (auto simp: dispatch_def handle_event_exit_def run_simps run_ret_def mgr_core_def Let_def forget_pending_def erase_child_def)
    moreover have "accounts (env_frames env) b (contents[am_mailbox s := rest]) {#a#} ?s"
      using acc1 by (simp add: accounts_def erase_child_def forget_pending_def)
    ultimately show ?thesis using same by (intro exI [of _ ?s]) (simp add: store_le_refl)
  qed
  from round_by_dispatch [OF acc wf head letter this] show ?thesis by auto
qed

text \<open>The order to stop everything.\<close>

lemma round_stop_all:
  assumes acc: "accounts (env_frames env) (Suc (length (am_childrens s) + b)) contents {#} s" and wf: "mgr_wf s"
    and head: "contents ! am_mailbox s = a # rest" and letter: "letter (am_store s) a = Some (kEventCmdExit, k)"
    and lim: "length (am_childrens s) < index_limit"
  defines "t \<equiv> s\<lparr>am_pending_stop := am_pending_stop s \<union> keys s, am_pending_restart := am_pending_restart s - keys s\<rparr>"
  shows "\<exists>s' contents'. event_round env s = Some (Inr (Some (am_childrens s = []), s'))
     \<and> accounts (env_frames env) b contents' {#} s' \<and> contents' ! am_mailbox s = rest
     \<and> mgr_core s' = mgr_core (if am_childrens s = [] then count_down t else t)
     \<and> store_le (am_store s) (am_store s')"
proof -
  have len: "am_mailbox s < length contents" using acc wf by (simp add: accounts_def mgr_wf_def)
  have "\<exists>s2 contents2. dispatch env a s1 = Some (Inr (am_childrens s = [], s2)) \<and> accounts (env_frames env) b contents2 {#a#} s2
      \<and> contents2 ! am_mailbox s = rest \<and> mgr_core s2 = mgr_core t \<and> store_le (am_store s1) (am_store s2)"
    if acc1: "accounts (env_frames env) (length (am_childrens s) + b) (contents[am_mailbox s := rest]) {#a#} s1"
      and core: "mgr_core s1 = mgr_core s"
      and m: "heap (am_store s1) a = Some m" "msg_type m = kEventCmdExit" for s1 m
  proof -
    have wf1: "mgr_wf s1" using mgr_wf_core [OF core] wf by simp
    have same: "am_childrens s1 = am_childrens s" "am_mailbox s1 = am_mailbox s" using core by (simp_all add: mgr_core_def)
    obtain s2 contents2 where s2: "handle_cmd_exit env s1 = Some (Inr (am_childrens s = [], s2))"
      "accounts (env_frames env) b contents2 {#a#} s2"
      "mgr_core s2 = mgr_core (s1\<lparr>am_pending_stop := am_pending_stop s1 \<union> keys s1, am_pending_restart := am_pending_restart s1 - keys s1\<rparr>)"
      "store_le (am_store s1) (am_store s2)" "contents2 ! am_mailbox s = rest"
      using handle_cmd_exit_accounts [OF wf1, of env b, unfolded same, OF acc1 lim] len by auto
    have "dispatch env a s1 = Some (Inr (am_childrens s = [], s2))"
      using load_message_Some [OF m(1)] m s2(1) by (simp add: dispatch_def run_simps)
    moreover have "mgr_core s2 = mgr_core t" using s2(3) core by (simp add: mgr_core_def t_def keys_def)
    ultimately show ?thesis using s2(2,4,5) by blast
  qed
  from round_by_dispatch [OF acc wf head letter this] show ?thesis by auto
qed

text \<open>The order to remove a module: the first child of that name is to stop, if there is one.\<close>

lemma round_remove:
  assumes acc: "accounts (env_frames env) (Suc (Suc b)) contents {#} s" and wf: "mgr_wf s"
    and head: "contents ! am_mailbox s = a # rest" and letter: "letter (am_store s) a = Some (kEventCmdModuleRemove, k)"
  shows "\<exists>s' t contents'. event_round env s = Some (Inr (Some False, s'))
     \<and> accounts (env_frames env) b contents' {#} s' \<and> contents' ! am_mailbox s = rest
     \<and> mgr_core s' = mgr_core t \<and> (t = s \<or> (\<exists>k\<in>keys s. t = mark_stop k s))
     \<and> store_le (am_store s) (am_store s')"
proof -
  have mb: "am_mailbox s < length (am_boxes s)" "am_mailbox s < length contents" using wf acc by (simp_all add: mgr_wf_def accounts_def)
  obtain s1 where s1: "receive_next s = Some (Inr (Some a, s1))"
    "accounts (env_frames env) (Suc b) (contents[am_mailbox s := rest]) {#a#} s1" "mgr_core s1 = mgr_core s" "am_store s1 = am_store s"
    using receive_explicit [OF acc mb(1)] head by (auto simp: receive_next_def)
  obtain m where m: "heap (am_store s1) a = Some m" "msg_type m = kEventCmdModuleRemove" using letter s1(4) by auto
  have wf1: "mgr_wf s1" using mgr_wf_core [OF s1(3)] wf by simp
  note ok = mgr_ok_core [OF wf s1(2,3)]
  obtain name where name: "get_payload a (am_store s1) = Inr name"
    using held_payload [OF ok m(1) _ held_below [OF ok m(1)] store_le_refl] m(2) by auto
  have same: "am_mailbox s1 = am_mailbox s" using s1(3) by (simp add: mgr_core_def)
  obtain s2 t contents2 where s2: "remove_loop env name (am_childrens s1) s1 = Some (Inr s2)"
    "accounts (env_frames env) b contents2 {#a#} s2" "mgr_core s2 = mgr_core t" "t = s1 \<or> (\<exists>k\<in>keys s1. t = mark_stop k s1)"
    "store_le (am_store s1) (am_store s2)" "contents2 ! am_mailbox s = rest"
    using remove_loop_accounts [OF wf1 s1(2) subset_refl, of name] mb(2) unfolding same by auto
  have disp: "dispatch env a s1 = Some (Inr (False, s2))"
    using load_message_Some [OF m(1)] m name s2(1) by (simp add: dispatch_def handle_cmd_remove_def run_simps run_ret_def)
  obtain s' where s': "release_message a s2 = Some (Inr s')" "accounts (env_frames env) b contents2 {#} s'"
    "mgr_core s' = mgr_core s2" "store_le (am_store s2) (am_store s')"
    using release_message_ok [OF s2(2)] by blast
  have "event_round env s = Some (Inr (Some False, s'))"
    using s1(1) disp s'(1) by (simp add: event_round_def run_simps run_ret_def)
  moreover have "store_le (am_store s) (am_store s')" using store_le_trans [OF s2(5) s'(4)] s1(4) by simp
  moreover have "mgr_core (mark_stop k s1) = mgr_core (mark_stop k s)" "keys s1 = keys s" for k
    using s1(3) by (simp_all add: mgr_core_def mark_stop_def keys_def)
  then have "\<exists>t. mgr_core s2 = mgr_core t \<and> (t = s \<or> (\<exists>k\<in>keys s. t = mark_stop k s))"
    using s2(3,4) s1(3) by metis
  ultimately show ?thesis using s'(2,3) s2(6) by metis
qed

end
