(* ===== verification/Decimal.thy ===== *)
theory Decimal
  imports Prelude
begin

text \<open>Printing a number in decimal, as \<^verbatim>\<open>printf\<close> and \<^verbatim>\<open>std::format\<close> do, and reading it back.\<close>

section \<open>Definitions\<close>

fun show_nat :: "nat \<Rightarrow> string" where
  "show_nat n = (if n < 10 then [char_of (48 + n)] else show_nat (n div 10) @ [char_of (48 + n mod 10)])"

declare show_nat.simps [simp del]

definition is_digit :: "char \<Rightarrow> bool" where
  "is_digit c \<longleftrightarrow> 48 \<le> (of_char c :: nat) \<and> (of_char c :: nat) \<le> 57"

definition digits_value :: "string \<Rightarrow> nat" where
  "digits_value cs = foldl (\<lambda>a c. a * 10 + ((of_char c :: nat) - 48)) 0 (takeWhile is_digit cs)"

section \<open>Lemmas\<close>

lemma digit_char: "n < 10 \<Longrightarrow> is_digit (char_of (48 + n)) \<and> (of_char (char_of (48 + n)) :: nat) = 48 + n"
  by (simp add: is_digit_def of_char_of)

lemma show_nat_digits: "\<forall>c\<in>set (show_nat n). is_digit c"
proof (induction n rule: show_nat.induct)
  case (1 n)
  then show ?case
    using digit_char [of n] digit_char [of "n mod 10"] by (subst show_nat.simps) auto
qed

lemma digits_value_snoc:
  assumes "\<forall>c\<in>set cs. is_digit c" "d < 10"
  shows "digits_value (cs @ [char_of (48 + d)]) = digits_value cs * 10 + d"
proof -
  have tw: "takeWhile is_digit cs = cs" "takeWhile is_digit (cs @ [char_of (48 + d)]) = cs @ [char_of (48 + d)]"
    using assms(1) digit_char [OF assms(2)] by simp_all
  show ?thesis unfolding digits_value_def tw using digit_char [OF assms(2)] by simp
qed

lemma show_nat_value: "digits_value (show_nat n) = n"
proof (induction n rule: show_nat.induct)
  case (1 n)
  show ?case
  proof (cases "n < 10")
    case True
    then show ?thesis
      using digit_char [OF True] by (simp add: digits_value_def show_nat.simps [of n])
  next
    case False
    have "digits_value (show_nat (n div 10)) = n div 10" using 1 False by simp
    moreover have "digits_value (show_nat n) = digits_value (show_nat (n div 10)) * 10 + n mod 10"
      using False digits_value_snoc [OF show_nat_digits, of "n mod 10" "n div 10"] by (simp add: show_nat.simps [of n])
    ultimately show ?thesis by simp
  qed
qed

lemma show_nat_length: "n < 10 ^ k \<Longrightarrow> 0 < k \<Longrightarrow> length (show_nat n) \<le> k"
proof (induction n arbitrary: k rule: show_nat.induct)
  case (1 n)
  show ?case
  proof (cases "n < 10")
    case True
    then show ?thesis using 1 by (simp add: show_nat.simps [of n])
  next
    case False
    then obtain j where k: "k = Suc j" "0 < j" using 1 by (cases k; cases "k - 1") auto
    then have "n div 10 < 10 ^ j" using 1 by (simp add: div_less_iff_less_mult)
    then show ?thesis using 1(1) [OF False, of j] k False by (simp add: show_nat.simps [of n])
  qed
qed

lemma show_nat_nonempty: "show_nat n \<noteq> []"
  by (simp add: show_nat.simps [of n])

end
