(* ===== verification/Actor_Module.thy ===== *)
theory Actor_Module
  imports Actor_Manager_Invariant Event_Bus Decimal
begin

text \<open>
  \<^verbatim>\<open>include/actor_module.h\<close>, \<^verbatim>\<open>src/core/actor_module.cc\<close>, the module \<^verbatim>\<open>GateWayActor\<close> under
  \<^verbatim>\<open>src/modules/network_module\<close>, and the coroutine \<^verbatim>\<open>ActorManager::__launch_actor\<close> that runs a module: its life
  from creation to the message that tells the supervisor of its end.
\<close>

section \<open>Modules\<close>

datatype ActorExitState = kExitSuccess | kExitFailure

text \<open>
  The virtual functions of a module: what \<^verbatim>\<open>Init\<close> and \<^verbatim>\<open>Uninit\<close> do to the event bus for a mailbox, and
  whether \<^verbatim>\<open>ProcessEvent\<close> throws on a message (and what). \<^verbatim>\<open>error_handle\<close> changes no state.
\<close>

record module_vtable =
  vt_Init :: "addr \<Rightarrow> event_bus \<Rightarrow> event_bus"
  vt_Uninit :: "addr \<Rightarrow> event_bus \<Rightarrow> event_bus"
  vt_ProcessEvent :: "EventMessage \<Rightarrow> string option"

definition ActorModule_vtable :: "(EventMessage \<Rightarrow> string option) \<Rightarrow> module_vtable" where
  "ActorModule_vtable process = \<lparr>vt_Init = (\<lambda>mb eb. eb), vt_Uninit = (\<lambda>mb eb. eb), vt_ProcessEvent = process\<rparr>"

definition GateWayActor_vtable :: module_vtable where
  "GateWayActor_vtable =
     \<lparr>vt_Init = Subscribe kEventCmdModuleStop, vt_Uninit = Unsubscribe kEventCmdModuleStop,
      vt_ProcessEvent = (\<lambda>m. None)\<rparr>"

section \<open>RunCoroutine\<close>

text \<open>
  The receive loop over the module's mailbox \<open>mb\<close>, with the local variable \<open>msg\<close>: it ends with an exception from
  \<^verbatim>\<open>ProcessEvent\<close>, with the order to stop, or by waiting on the empty mailbox.
\<close>

datatype loop_end = LoopStops | LoopWaits

fun receive_loop ::
    "nat \<Rightarrow> module_vtable \<Rightarrow> addr \<Rightarrow> addr option \<Rightarrow> manager \<Rightarrow> ((string + loop_end) \<times> addr option \<times> manager) run" where
  "receive_loop 0 vt mb msg s = None"
| "receive_loop (Suc n) vt mb msg s =
     run_bind (box_receive mb s) (\<lambda>(r, s).
       case r of
         None \<Rightarrow> run_ret (Inr LoopWaits, msg, s)
       | Some a \<Rightarrow>
           run_bind (run_res (load_message a (am_store s))) (\<lambda>m.
             if msg_type m = kEventCmdModuleStop
             then run_bind (release_message a s) (\<lambda>s. run_ret (Inr LoopStops, None, s))
             else case vt_ProcessEvent vt m of
                    Some e \<Rightarrow> run_ret (Inl e, Some a, s)
                  | None \<Rightarrow> run_bind (release_message a s) (\<lambda>s. receive_loop n vt mb None s)))"

text \<open>The \<^verbatim>\<open>try\<close> block: a pause of a second, a \<^verbatim>\<open>throw\<close>, and then the loop.\<close>

definition try_block ::
    "nat \<Rightarrow> module_vtable \<Rightarrow> addr \<Rightarrow> manager \<Rightarrow> ((string + loop_end) \<times> addr option \<times> manager) run" where
  "try_block n vt mb s =
     (let thrown = Inl ''boom!boom!boom!'' :: string + unit
      in case thrown of
           Inl e \<Rightarrow> run_ret (Inl e, None, s)
         | Inr u \<Rightarrow> receive_loop n vt mb None s)"

definition crash_text :: "size_t \<Rightarrow> EventType \<Rightarrow> string \<Rightarrow> string" where
  "crash_text actor_id event_type what =
     ''[NetActor id: '' @ show_nat (unat actor_id) @ ''] event_type: '' @ event_type_to_string event_type
     @ '', error: '' @ what"

definition catch_block :: "manager_env \<Rightarrow> size_t \<Rightarrow> string \<Rightarrow> addr option \<Rightarrow> manager \<Rightarrow> manager run" where
  "catch_block env actor_id what msg s =
     run_bind
       (case msg of
          None \<Rightarrow> run_ret (kEventNone, s)
        | Some a \<Rightarrow> run_bind (run_res (load_message a (am_store s))) (\<lambda>m.
                      run_bind (release_message a s) (\<lambda>s. run_ret (msg_type m, s))))
       (\<lambda>(event_type, s).
          let (crash, s) = create_message 1 kEventCrashReport actor_id s
          in run_bind (run_res (set_payload crash (crash_text actor_id event_type what) (am_store s))) (\<lambda>st.
               send_to env crash (am_mailbox s) (s\<lparr>am_store := st\<rparr>)))"

definition mark_running :: "addr \<Rightarrow> manager \<Rightarrow> manager" where
  "mark_running mb s = s\<lparr>am_boxes := (am_boxes s)[mb := MarkRunning (am_boxes s ! mb)]\<rparr>"

text \<open>The coroutine up to its end (with the exit state) or its first wait (\<open>None\<close>).\<close>

definition RunCoroutine ::
    "manager_env \<Rightarrow> nat \<Rightarrow> module_vtable \<Rightarrow> size_t \<Rightarrow> addr \<Rightarrow> manager \<Rightarrow> (ActorExitState option \<times> manager) run" where
  "RunCoroutine env n vt actor_id mb s =
     run_bind (try_block n vt mb (mark_running mb s)) (\<lambda>(r, msg, s).
       case r of
         Inr LoopStops \<Rightarrow> run_ret (Some kExitSuccess, s)
       | Inr LoopWaits \<Rightarrow> run_ret (None, s)
       | Inl what \<Rightarrow> run_bind (catch_block env actor_id what msg s) (\<lambda>s. run_ret (Some kExitFailure, s)))"

section \<open>Launching\<close>

definition report_exit :: "manager_env \<Rightarrow> size_t \<Rightarrow> manager \<Rightarrow> manager run" where
  "report_exit env actor_id s =
     (let (a, s) = create_message 1 kEventModuleExited actor_id s in send_to env a (am_mailbox s) s)"

text \<open>
  \<^verbatim>\<open>__launch_actor\<close> for a module with the given virtual functions; \<open>created\<close> says whether \<^verbatim>\<open>create_func\<close>
  returned an object. The result says whether the coroutine has ended.
\<close>

definition launch_actor ::
    "manager_env \<Rightarrow> nat \<Rightarrow> module_vtable \<Rightarrow> bool \<Rightarrow> launch \<Rightarrow> manager \<Rightarrow> event_bus \<Rightarrow> (bool \<times> manager \<times> event_bus) run" where
  "launch_actor env n vt created la s eb =
     (let finish = (\<lambda>s eb. run_bind (report_exit env (la_actor_id la) s) (\<lambda>s. run_ret (True, s, eb)))
      in if \<not> lm_create_func (la_module la) \<or> \<not> lm_destroy_func (la_module la) then finish s eb
         else if created
         then let eb = vt_Init vt (la_mailbox la) eb
              in run_bind (RunCoroutine env n vt (la_actor_id la) (la_mailbox la) s) (\<lambda>(exit_state, s).
                   if exit_state = None then run_ret (False, s, eb)
                   else finish s (vt_Uninit vt (la_mailbox la) eb))
         else finish s eb)"

section \<open>Lemmas\<close>

text \<open>A message with one reference, sent to a mailbox with room, is the newest one there.\<close>

lemma send_new:
  assumes acc: "accounts (env_frames env) (Suc b) contents (add_mset a R) s" and mb: "mb < length (am_boxes s)"
    and len: "length (contents ! mb) < 256"
  shows "\<exists>s'. send_to env a mb s = Some (Inr s') \<and> accounts (env_frames env) b (contents[mb := contents ! mb @ [a]]) R s'
           \<and> mgr_core s' = mgr_core s \<and> am_store s' = am_store s"
  using send_to_explicit [OF acc mb] len by auto

lemma mark_running_ok:
  assumes "accounts frames b contents R s" "mb < length (am_boxes s)"
  shows "accounts frames b contents R (mark_running mb s)" "mgr_core (mark_running mb s) = mgr_core s"
    "am_store (mark_running mb s) = am_store s"
proof -
  have "mb_holds 256 b (contents ! k) ((am_boxes s)[mb := MarkRunning (am_boxes s ! mb)] ! k)
      \<and> consumer_ok frames ((am_boxes s)[mb := MarkRunning (am_boxes s ! mb)] ! k)" if "k < length (am_boxes s)" for k
    using that assms by (cases "k = mb") (simp_all add: accounts_def MarkRunning_def consumer_ok_def)
  then show "accounts frames b contents R (mark_running mb s)" using assms(1) by (simp add: accounts_def mark_running_def)
qed (simp_all add: mark_running_def mgr_core_def)

lemma RunCoroutine_crashes:
  assumes acc: "accounts (env_frames env) (Suc b) contents R s" and wf: "mgr_wf s" and mb: "mb < length (am_boxes s)"
    and room: "length (contents ! am_mailbox s) < 256"
  shows "\<exists>a s'. RunCoroutine env n vt k mb s = Some (Inr (Some kExitFailure, s'))
     \<and> accounts (env_frames env) b (contents[am_mailbox s := contents ! am_mailbox s @ [a]]) R s'
     \<and> mgr_core s' = mgr_core s \<and> a = next_addr (am_store s) \<and> next_addr (am_store s') = Suc a
     \<and> heap (am_store s') = (heap (am_store s))(a \<mapsto>
         \<lparr>msg_ref = 1, msg_type = kEventCrashReport, msg_sender_id = k,
          msg_payload = Some (crash_text k kEventNone ''boom!boom!boom!'')\<rparr>)"
proof -
  let ?s = "mark_running mb s" and ?text = "crash_text k kEventNone ''boom!boom!boom!''"
  note mark = mark_running_ok [OF acc mb]
  have core: "am_mailbox ?s = am_mailbox s" "length (am_boxes ?s) = length (am_boxes s)"
    using mark(2) by (simp_all add: mgr_core_def)
  obtain a st where new: "new_message 1 kEventCrashReport k (am_store ?s) = (a, st)" by fastforce
  then obtain st' where set: "set_payload a ?text st = Inr st'"
    by (auto simp: new_message_def set_payload_def load_message_def)
  note crash = create_payload_ok [OF mark(1) new set]
  have nxt: "a = next_addr (am_store s)" "next_addr st' = Suc a" using new set mark(3) by (auto simp: new_message_def set_payload_def load_message_def)
  let ?s1 = "?s\<lparr>am_store := st'\<rparr>"
  have "am_mailbox s < length (am_boxes ?s1)" using wf core by (simp add: mgr_wf_def)
  then obtain s' where s': "send_to env a (am_mailbox s) ?s1 = Some (Inr s')"
    "accounts (env_frames env) b (contents[am_mailbox s := contents ! am_mailbox s @ [a]]) R s'"
    "mgr_core s' = mgr_core ?s1" "am_store s' = am_store ?s1"
    using send_new [OF crash(1) _ room] by blast
  have "RunCoroutine env n vt k mb s = Some (Inr (Some kExitFailure, s'))"
    using new set s'(1) core(1)
    by (simp add: RunCoroutine_def try_block_def catch_block_def create_message_def run_simps run_ret_def)
  moreover have "mgr_core s' = mgr_core s" using s'(3) mark(2) by (simp add: mgr_core_def)
  ultimately show ?thesis using s'(2,4) crash(2) mark(3) nxt by (intro exI [of _ a] exI [of _ s']) simp
qed

lemma report_exit_ok:
  assumes acc: "accounts (env_frames env) (Suc b) contents R s" and wf: "mgr_wf s"
    and room: "length (contents ! am_mailbox s) < 256"
  shows "\<exists>a s'. report_exit env k s = Some (Inr s')
     \<and> accounts (env_frames env) b (contents[am_mailbox s := contents ! am_mailbox s @ [a]]) R s'
     \<and> mgr_core s' = mgr_core s \<and> a = next_addr (am_store s) \<and> next_addr (am_store s') = Suc a
     \<and> heap (am_store s') = (heap (am_store s))(a \<mapsto>
         \<lparr>msg_ref = 1, msg_type = kEventModuleExited, msg_sender_id = k, msg_payload = None\<rparr>)"
proof -
  obtain a s1 where new: "create_message (of_nat 1) kEventModuleExited k s = (a, s1)" by fastforce
  have one: "(0 :: nat) < 1" "(1 :: nat) < 2 ^ 64" by simp_all
  note s1 = create_message_ok [OF acc one new]
  have core: "am_mailbox s1 = am_mailbox s" "length (am_boxes s1) = length (am_boxes s)"
    using s1(2) by (simp_all add: mgr_core_def)
  have mb: "am_mailbox s < length (am_boxes s1)" using wf core by (simp add: mgr_wf_def)
  have acc1: "accounts (env_frames env) (Suc b) contents (add_mset a R) s1" using s1(1) by simp
  obtain s' where s': "send_to env a (am_mailbox s) s1 = Some (Inr s')"
    "accounts (env_frames env) b (contents[am_mailbox s := contents ! am_mailbox s @ [a]]) R s'"
    "mgr_core s' = mgr_core s1" "am_store s' = am_store s1"
    using send_new [OF acc1 mb room] by blast
  have "heap (am_store s1) = (heap (am_store s))(a \<mapsto>
         \<lparr>msg_ref = 1, msg_type = kEventModuleExited, msg_sender_id = k, msg_payload = None\<rparr>)" "a = next_addr (am_store s)"
    "next_addr (am_store s1) = Suc a"
    using new by (auto simp: create_message_def new_message_def)
  moreover have "report_exit env k s = Some (Inr s')" using new s'(1) core(1) by (simp add: report_exit_def)
  ultimately show ?thesis using s'(2-4) s1(2) by (intro exI [of _ a] exI [of _ s']) simp
qed

text \<open>The launch of a gateway actor from its first step to its end.\<close>

lemma launch_gateway:
  assumes acc: "accounts (env_frames env) (Suc (Suc b)) contents R s" and wf: "mgr_wf s"
    and la: "ready (la_module la)" "la_mailbox la < length (am_boxes s)"
    and room: "length (contents ! am_mailbox s) + 1 < 256"
  shows "\<exists>s' eb' crash exited. launch_actor env n GateWayActor_vtable True la s eb = Some (Inr (True, s', eb'))
     \<and> (\<forall>type. table_of (eb_event_bus eb') type = table_of (eb_event_bus eb) type)
     \<and> accounts (env_frames env) b (contents[am_mailbox s := contents ! am_mailbox s @ [crash, exited]]) R s'
     \<and> mgr_core s' = mgr_core s
     \<and> map_option (\<lambda>m. (msg_type m, msg_sender_id m, msg_payload m)) (heap (am_store s') crash)
         = Some (kEventCrashReport, la_actor_id la, Some (crash_text (la_actor_id la) kEventNone ''boom!boom!boom!''))
     \<and> map_option (\<lambda>m. (msg_type m, msg_sender_id m)) (heap (am_store s') exited) = Some (kEventModuleExited, la_actor_id la)
     \<and> store_le (am_store s) (am_store s')"
proof -
  let ?mb = "am_mailbox s" and ?k = "la_actor_id la"
  obtain a s1 where s1: "RunCoroutine env n GateWayActor_vtable ?k (la_mailbox la) s = Some (Inr (Some kExitFailure, s1))"
    "accounts (env_frames env) (Suc b) (contents[?mb := contents ! ?mb @ [a]]) R s1"
    "mgr_core s1 = mgr_core s" "a = next_addr (am_store s)" "next_addr (am_store s1) = Suc a"
    "heap (am_store s1) = (heap (am_store s))(a \<mapsto>
         \<lparr>msg_ref = 1, msg_type = kEventCrashReport, msg_sender_id = ?k,
          msg_payload = Some (crash_text ?k kEventNone ''boom!boom!boom!'')\<rparr>)"
    using RunCoroutine_crashes [OF acc wf la(2), of n GateWayActor_vtable ?k] room by auto
  have mb: "am_mailbox s1 = ?mb" "?mb < length contents"
    using s1(3) acc wf by (simp_all add: mgr_core_def accounts_def mgr_wf_def)
  have wf1: "mgr_wf s1" using mgr_wf_core [OF s1(3)] wf by simp
  obtain e s2 where s2: "report_exit env ?k s1 = Some (Inr s2)"
    "accounts (env_frames env) b (contents[?mb := contents ! ?mb @ [a, e]]) R s2" "mgr_core s2 = mgr_core s1" "e = Suc a"
    "next_addr (am_store s2) = Suc e"
    "heap (am_store s2) = (heap (am_store s1))(e \<mapsto>
         \<lparr>msg_ref = 1, msg_type = kEventModuleExited, msg_sender_id = ?k, msg_payload = None\<rparr>)"
    using report_exit_ok [OF s1(2) wf1, of ?k] mb room s1(5) by auto
  let ?eb = "Unsubscribe kEventCmdModuleStop (la_mailbox la) (Subscribe kEventCmdModuleStop (la_mailbox la) eb)"
  have "launch_actor env n GateWayActor_vtable True la s eb = Some (Inr (True, s2, ?eb))"
    using la(1) s1(1) s2(1) by (simp add: launch_actor_def ready_def GateWayActor_vtable_def run_simps run_ret_def)
  moreover have "table_of (eb_event_bus ?eb) type = table_of (eb_event_bus eb) type" for type
    by (simp add: Unsubscribe_table Subscribe_table)
  moreover have "mgr_core s2 = mgr_core s" using s2(3) s1(3) by simp
  moreover have "store_le (am_store s) (am_store s2)" using s1(4-6) s2(4-6) by (auto simp: store_le_def same_body_def)
  ultimately show ?thesis using s2(2,4,6) s1(6)
    by - (rule exI [of _ s2], rule exI [of _ ?eb], rule exI [of _ a], rule exI [of _ e], simp)
qed

section \<open>Properties\<close>

text \<open>
  C22. The life of a gateway actor as the code stands: whatever its mailbox holds, it does not read it. It
  subscribes, throws, reports the crash and then its exit to the supervisor, in this order, and leaves
  the event bus with the same subscribers as before. The supervisor's mailbox gets exactly these two
  messages, both carrying the actor's identifier, the first with the text of the exception; no other mailbox and no
  other message changes.
\<close>

theorem gateway_actor_crashes:
  assumes acc: "accounts (env_frames env) (Suc (Suc b)) contents R s" and wf: "mgr_wf s"
    and la: "ready (la_module la)" "la_mailbox la < length (am_boxes s)"
    and room: "length (contents ! am_mailbox s) + 1 < 256"
  shows "\<exists>s' eb' crash exited. launch_actor env n GateWayActor_vtable True la s eb = Some (Inr (True, s', eb'))
     \<and> (\<forall>type. table_of (eb_event_bus eb') type = table_of (eb_event_bus eb) type)
     \<and> accounts (env_frames env) b (contents[am_mailbox s := contents ! am_mailbox s @ [crash, exited]]) R s'
     \<and> mgr_core s' = mgr_core s
     \<and> map_option (\<lambda>m. (msg_type m, msg_sender_id m, msg_payload m)) (heap (am_store s') crash)
         = Some (kEventCrashReport, la_actor_id la, Some (crash_text (la_actor_id la) kEventNone ''boom!boom!boom!''))
     \<and> map_option (\<lambda>m. (msg_type m, msg_sender_id m)) (heap (am_store s') exited) = Some (kEventModuleExited, la_actor_id la)
     \<and> store_le (am_store s) (am_store s')"
  using launch_gateway [OF assms] .

lemma accounts_no_messages:
  assumes "accounts frames b contents {#} s" "next_addr (am_store s) = 0" "i < length contents"
  shows "contents ! i = []"
proof -
  have refs: "store_refs (am_store s) (sum_list (map mset contents))" using assms(1) by (simp add: accounts_def)
  have "heap (am_store s) a = None" for a
    using refs assms(2) by (cases "heap (am_store s) a") (auto simp: store_refs_def store_wf_def)
  then have "sum_list (map mset contents) = {#}"
    using store_refs_none [OF refs] by (metis count_empty multiset_eqI)
  moreover obtain T where "sum_list (map mset contents) = mset (contents ! i) + T"
    using sum_list_split [OF assms(3), of mset] by blast
  ultimately show ?thesis by simp
qed

definition demo_launch :: launch where
  "demo_launch = \<lparr>la_module = \<lparr>lm_path = ''lib/libnetactor.so'', lm_handle = True, lm_create_func = True, lm_destroy_func = True\<rparr>,
     la_actor_id = 1, la_mailbox = 1\<rparr>"

lemma demo_launch_eval:
  "case demo_up of Some (Inr s) \<Rightarrow> am_enqueued s = [demo_launch] \<and> length (am_boxes s) = 2 \<and> am_mailbox s = 0
     \<and> next_addr (am_store s) = 0 | _ \<Rightarrow> False"
  by code_simp

theorem gateway_actor_crashes_witness:
  "\<exists>s s' eb' crash. demo_up = Some (Inr s) \<and> am_enqueued s = [demo_launch]
     \<and> launch_actor demo_env 5 GateWayActor_vtable True demo_launch s event_bus_new = Some (Inr (True, s', eb'))
     \<and> map_option (\<lambda>m. (msg_type m, msg_sender_id m)) (heap (am_store s') crash) = Some (kEventCrashReport, 1)"
proof -
  obtain s where s: "demo_up = Some (Inr s)" "mgr_ok demo_env 5 {#} s" using demo_up_ok [of 5] by auto
  have eval: "am_enqueued s = [demo_launch]" "length (am_boxes s) = 2" "am_mailbox s = 0" "next_addr (am_store s) = 0"
    using demo_launch_eval unfolding s(1) by simp_all
  obtain contents where acc: "accounts (env_frames demo_env) (Suc (Suc 3)) contents {#} s" and wf: "mgr_wf s"
    using s(2) by (auto simp: mgr_ok_def eval_nat_numeral)
  have "0 < length contents" using acc eval(2) by (simp add: accounts_def)
  then have "length (contents ! am_mailbox s) + 1 < 256" using accounts_no_messages [OF acc eval(4), of 0] eval(3) by simp
  moreover have "ready (la_module demo_launch)" "la_mailbox demo_launch < length (am_boxes s)" "la_actor_id demo_launch = 1"
    using eval(2) by (simp_all add: demo_launch_def ready_def)
  ultimately show ?thesis
    using gateway_actor_crashes [OF acc wf, of demo_launch 5 event_bus_new] s(1) eval(1) by auto
qed

end
