(* ===== verification/Manager_Coroutine.thy ===== *)
theory Manager_Coroutine
  imports Event_Rounds Actor_Module Actor_Scheduler
begin

text \<open>
  The supervisor's coroutine \<^verbatim>\<open>ActorManager::RunCoroutine\<close> as a whole, from one resumption to the next: it handles
  messages until its mailbox is empty, and then it sleeps, or it returns. The theorem is that every resumption comes to one of
  these ends, whatever the messages are.
\<close>

section \<open>The coroutine\<close>

text \<open>\<^verbatim>\<open>co_await mailbox_->Wait()\<close> in the coroutine \<open>h\<close>; the answer is whether it stays suspended.\<close>

definition box_wait :: "handle \<Rightarrow> addr \<Rightarrow> manager \<Rightarrow> (bool \<times> manager) run" where
  "box_wait h mb s =
     (if mb < length (am_boxes s)
      then run_bind (run_res (await_ready (am_boxes s ! mb))) (\<lambda>ready.
             if ready then run_ret (False, s)
             else run_bind (run_res (await_suspend h (am_boxes s ! mb))) (\<lambda>(suspended, box).
                    run_ret (suspended, s\<lparr>am_boxes := (am_boxes s)[mb := box]\<rparr>)))
      else run_res (Inl NullDeref))"

datatype coro_end = CoReturns | CoWaits

text \<open>Both loops, with a bound on the messages that are handled.\<close>

fun manager_loop :: "manager_env \<Rightarrow> handle \<Rightarrow> nat \<Rightarrow> manager \<Rightarrow> (coro_end \<times> manager) run" where
  "manager_loop env h 0 s = None"
| "manager_loop env h (Suc n) s =
     run_bind (event_round env s) (\<lambda>(r, s).
       case r of
         Some finished \<Rightarrow> if finished then run_ret (CoReturns, s) else manager_loop env h n s
       | None \<Rightarrow> run_bind (box_wait h (am_mailbox s) s) (\<lambda>(suspended, s).
                   if suspended then run_ret (CoWaits, s) else manager_loop env h n s))"

definition manager_coroutine :: "manager_env \<Rightarrow> handle \<Rightarrow> nat \<Rightarrow> manager \<Rightarrow> (coro_end \<times> manager) run" where
  "manager_coroutine env h n s =
     (if am_mailbox s < length (am_boxes s) then manager_loop env h n (mark_running (am_mailbox s) s) else run_res (Inl NullDeref))"

text \<open>
  \<^verbatim>\<open>MarkRunning\<close> is called once, when the coroutine starts. Where it is resumed, in \<^verbatim>\<open>Wait\<close>, \<^verbatim>\<open>Send\<close> has set
  \<^verbatim>\<open>scheduled_\<close> already, and going on with the loop is the same as starting there.
\<close>

lemma manager_coroutine_resumed:
  assumes "am_mailbox s < length (am_boxes s)" "mb_scheduled (am_boxes s ! am_mailbox s)"
  shows "manager_coroutine env h n s = manager_loop env h n s"
proof -
  have "MarkRunning (am_boxes s ! am_mailbox s) = am_boxes s ! am_mailbox s" using assms(2) by (simp add: MarkRunning_def)
  then have "mark_running (am_mailbox s) s = s" by (simp add: mark_running_def)
  then show ?thesis using assms(1) by (simp add: manager_coroutine_def)
qed

section \<open>What a handler leaves alone\<close>

text \<open>The supervisor's own mailbox; and it gives out at most \<open>n\<close> identifiers.\<close>

definition led :: "nat \<Rightarrow> manager \<Rightarrow> manager \<Rightarrow> bool" where
  "led n s s' \<longleftrightarrow>
     am_mailbox s' = am_mailbox s \<and> length (am_boxes s) \<le> length (am_boxes s')
     \<and> (am_mailbox s < length (am_boxes s) \<longrightarrow> am_boxes s' ! am_mailbox s = am_boxes s ! am_mailbox s)
     \<and> unat (am_next_id s') \<le> unat (am_next_id s) + n \<and> am_config s' = am_config s"

lemma led_refl: "led n s s"
  by (simp add: led_def)

lemma led_trans: "led j s s1 \<Longrightarrow> led k s1 s2 \<Longrightarrow> led (j + k) s s2"
  by (auto simp: led_def)

lemma led_mono: "led j s s' \<Longrightarrow> j \<le> k \<Longrightarrow> led k s s'"
  by (auto simp: led_def)

lemma led_same:
  "am_mailbox s' = am_mailbox s \<Longrightarrow> am_boxes s' = am_boxes s \<Longrightarrow> am_next_id s' = am_next_id s \<Longrightarrow> am_config s' = am_config s \<Longrightarrow>
   led n s s'"
  by (simp add: led_def)

lemma led_send: "send_to env m mb s = Some (Inr s') \<Longrightarrow> mb \<noteq> am_mailbox s \<Longrightarrow> led 0 s s'"
  by (auto simp: send_to_def run_bind_Inr_iff run_ret_def run_res_def led_def split: if_splits)

lemma led_release: "release_message a s = Some (Inr s') \<Longrightarrow> led 0 s s'"
  by (auto simp: release_message_def run_bind_Inr_iff run_ret_def led_def)

lemma led_create: "create_message r t k s = (a, s') \<Longrightarrow> led 0 s s' \<and> am_childrens s' = am_childrens s"
  by (auto simp: create_message_def led_def split: prod.splits)

lemma unat_add_one_le: "unat (x + 1 :: size_t) \<le> Suc (unat x)"
  using mod_less_eq_dividend [of "unat x + unat (1 :: size_t)" "2 ^ 64"] by (simp add: unat_word_ariths)

lemma led_create_child:
  "create_child env creator name s = Some (Inr (task, s')) \<Longrightarrow> led 1 s s'"
  by (auto simp: create_child_def generate_unique_id_def emplace_child_def Let_def run_bind_Inr_iff run_ret_def run_res_def led_def
      nth_append unat_add_one_le split: if_splits)

lemma led_load_loop: "load_loop env cfg ms s = Some (Inr (tasks, s')) \<Longrightarrow> led (length ms) s s'"
proof (induction ms arbitrary: s tasks)
  case Nil
  then show ?case by (simp add: run_ret_def led_refl)
next
  case (Cons m ms)
  show ?case
  proof (cases "generate_creator (env_library env) (library_file cfg m)")
    case None
    then show ?thesis using Cons led_mono [of "length ms" s s' "length (m # ms)"] by simp
  next
    case (Some creator)
    then obtain task s1 tasks' where "create_child env creator (mod_module_name m) s = Some (Inr (task, s1))"
      "load_loop env cfg ms s1 = Some (Inr (tasks', s'))"
      using Cons.prems by (auto simp: run_bind_Inr_iff run_ret_def)
    then show ?thesis using led_trans [OF led_create_child Cons.IH] by simp
  qed
qed

lemma led_enqueue: "led n s (enqueue_tasks ts s') = led n s s'"
  by (simp add: led_def enqueue_tasks_def)

lemma led_load_modules: "load_modules env s = Some (Inr s') \<Longrightarrow> led (length (cfg_modules (am_config s))) s s'"
  using led_load_loop by (fastforce simp: load_modules_def GetConfigInfo_def Let_def run_bind_Inr_iff run_ret_def led_enqueue)

lemma led_set_creator: "led n s (set_creator creator k s)"
  by (simp add: led_def set_creator_def)

lemma led_reload_loop: "reload_loop env cfg k name ms s = Some (Inr s') \<Longrightarrow> led 1 s s'"
proof (induction ms)
  case (Cons m ms)
  then show ?case
    by (auto simp: run_bind_Inr_iff run_ret_def led_refl led_enqueue led_set_creator split: if_splits option.splits
        dest: led_create_child)
qed (simp add: run_ret_def led_refl)

lemma led_reload_all_loop: "reload_all_loop env cfg ms s = Some (Inr (tasks, s')) \<Longrightarrow> led (length ms) s s'"
proof (induction ms arbitrary: s tasks)
  case Nil
  then show ?case by (simp add: run_ret_def led_refl)
next
  case (Cons m ms)
  show ?case
  proof (cases "generate_creator (env_library env) (library_file cfg m)")
    case None
    then show ?thesis using Cons led_mono [of "length ms" s s' "length (m # ms)"] by simp
  next
    case (Some creator)
    then obtain task s1 tasks' where s1: "(case find (\<lambda>(k, md). md_module_name md = mod_module_name m) (am_childrens s) of
               Some (k, md) \<Rightarrow>
                 run_ret (call_creator creator (md_actor_id md) (md_mailbox md), set_creator creator k s)
             | None \<Rightarrow> create_child env creator (mod_module_name m) s) = Some (Inr (task, s1))"
      "reload_all_loop env cfg ms s1 = Some (Inr (tasks', s'))"
      using Cons.prems by (auto simp: run_bind_Inr_iff run_ret_def)
    have "led 1 s s1"
      using s1(1) by (auto simp: run_ret_def led_set_creator split: option.splits dest: led_create_child)
    from led_trans [OF this Cons.IH [OF s1(2)]] show ?thesis by simp
  qed
qed

lemma led_reload_all_modules: "reload_all_modules env s = Some (Inr s') \<Longrightarrow> led (length (cfg_modules (am_config s))) s s'"
  using led_reload_all_loop by (fastforce simp: reload_all_modules_def GetConfigInfo_def Let_def run_bind_Inr_iff run_ret_def led_enqueue)


lemma led_search_loop:
  assumes "search_loop env a name cs s = Some (Inr (found, s'))" "\<forall>c\<in>set cs. md_mailbox (snd c) \<noteq> am_mailbox s"
  shows "led 0 s s'"
  using assms
proof (induction cs arbitrary: s)
  case Nil
  then show ?case by (simp add: run_ret_def led_refl)
next
  case (Cons c cs)
  obtain k md where c: "c = (k, md)" by fastforce
  have sent: "led 0 s (mark_reload k s1)" if "send_to env a (md_mailbox md) s = Some (Inr s1)" for s1
    using led_send [OF that] Cons.prems(2) c by (simp add: led_def mark_reload_def)
  consider (all) "am_reload_all_flag s" | (found) "\<not> am_reload_all_flag s" "md_module_name md = name"
    | (other) "\<not> am_reload_all_flag s" "md_module_name md \<noteq> name"
    by blast
  then show ?case
  proof cases
    case all
    then obtain s1 where s1: "send_to env a (md_mailbox md) s = Some (Inr s1)" "search_loop env a name cs (mark_reload k s1) = Some (Inr (found, s'))"
      using Cons.prems(1) c by (auto simp: run_bind_Inr_iff)
    have "\<forall>c\<in>set cs. md_mailbox (snd c) \<noteq> am_mailbox (mark_reload k s1)" using sent [OF s1(1)] Cons.prems(2) by (simp add: led_def)
    from led_trans [OF sent [OF s1(1)] Cons.IH [OF s1(2) this]] show ?thesis by simp
  next
    case found
    then show ?thesis using Cons.prems(1) c sent by (auto simp: run_bind_Inr_iff run_ret_def)
  next
    case other
    then show ?thesis using Cons c by simp
  qed
qed

lemma led_stop_loop:
  assumes "stop_loop env a cs s = Some (Inr s')" "\<forall>c\<in>set cs. md_mailbox (snd c) \<noteq> am_mailbox s"
  shows "led 0 s s'"
  using assms
proof (induction cs arbitrary: s)
  case Nil
  then show ?case by (simp add: run_ret_def led_refl)
next
  case (Cons c cs)
  obtain k md where c: "c = (k, md)" by fastforce
  obtain s1 where s1: "send_to env a (md_mailbox md) (mark_stop k s) = Some (Inr s1)" "stop_loop env a cs s1 = Some (Inr s')"
    using Cons.prems(1) c by (auto simp: run_bind_Inr_iff)
  have led: "led 0 s s1" using led_send [OF s1(1)] Cons.prems(2) c by (simp add: led_def mark_stop_def)
  then have "\<forall>c\<in>set cs. md_mailbox (snd c) \<noteq> am_mailbox s1" using Cons.prems(2) by (simp add: led_def)
  from led_trans [OF led Cons.IH [OF s1(2) this]] show ?case by simp
qed

lemma led_remove_loop:
  assumes "remove_loop env name cs s = Some (Inr s')" "\<forall>c\<in>set cs. md_mailbox (snd c) \<noteq> am_mailbox s"
  shows "led 0 s s'"
  using assms
proof (induction cs)
  case (Cons c cs)
  obtain k md where c: "c = (k, md)" by fastforce
  obtain a s1 where new: "create_message 1 kEventCmdModuleStop 0 s = (a, s1)" by fastforce
  show ?case
  proof (cases "md_module_name md = name")
    case True
    then have "send_to env a (md_mailbox md) (mark_stop k s1) = Some (Inr s')" using Cons.prems(1) c new by simp
    then show ?thesis using led_create [OF new] led_send Cons.prems(2) c by (fastforce simp: led_def mark_stop_def)
  next
    case False
    then show ?thesis using Cons c by simp
  qed
qed (simp add: run_ret_def led_refl)

lemma own_mailbox: "mgr_wf s \<Longrightarrow> \<forall>c\<in>set (am_childrens s). md_mailbox (snd c) \<noteq> am_mailbox s"
  by (simp add: mgr_wf_def child_ok_def)

lemma led_handle_cmd_exit:
  assumes "handle_cmd_exit env s = Some (Inr (fin, s'))" "mgr_wf s"
  shows "led 0 s s'"
proof (cases "am_childrens s = []")
  case True
  then show ?thesis using assms(1) by (simp add: handle_cmd_exit_def run_ret_def led_refl)
next
  case False
  obtain a s1 where new: "create_message (of_nat (length (am_childrens s))) kEventCmdModuleStop 0 s = (a, s1)" by fastforce
  note s1 = led_create [OF new]
  have loop: "stop_loop env a (am_childrens s1) s1 = Some (Inr s')"
    using assms(1) False new by (auto simp: handle_cmd_exit_def run_bind_Inr_iff run_ret_def)
  have "\<forall>c\<in>set (am_childrens s1). md_mailbox (snd c) \<noteq> am_mailbox s1" using own_mailbox [OF assms(2)] s1 by (simp add: led_def)
  from led_trans [OF conjunct1 [OF s1] led_stop_loop [OF loop this]] show ?thesis by simp
qed

lemma led_search:
  assumes "search_module_and_remove env name s = Some (Inr (found, s'))" "mgr_wf s"
  shows "led (if found then length (cfg_modules (am_config s)) else 0) s s'"
proof -
  let ?s = "s\<lparr>am_reload_all_flag := (name = ''all'')\<rparr>"
  let ?n = "if am_reload_all_flag ?s then max (of_nat (length (am_childrens ?s))) 1 else 1"
  obtain a s1 where new: "create_message ?n kEventCmdModuleStop 0 ?s = (a, s1)" by fastforce
  have s1: "led 0 s s1" "am_childrens s1 = am_childrens s" using led_create [OF new] by (simp_all add: led_def)
  obtain f s2 where s2: "search_loop env a name (am_childrens s1) s1 = Some (Inr (f, s2))" "search_finish env a f s2 = Some (Inr (found, s'))"
    using assms(1) new by (auto simp: search_module_and_remove_def Let_def run_bind_Inr_iff)
  have "\<forall>c\<in>set (am_childrens s1). md_mailbox (snd c) \<noteq> am_mailbox s1" using own_mailbox [OF assms(2)] s1 by (simp add: led_def)
  then have led2: "led 0 s s2" using led_trans [OF s1(1) led_search_loop [OF s2(1)]] by simp
  have "led (if found then length (cfg_modules (am_config s)) else 0) s2 s'"
    using s2(2) led2 led_release led_load_modules led_refl led_trans [of 0 s2 _ "length (cfg_modules (am_config s))" s']
    by (fastforce simp: search_finish_def run_bind_Inr_iff run_ret_def led_def split: if_splits)
  with led_trans [OF led2] show ?thesis by simp
qed


text \<open>No configuration the supervisor has or can read names more than \<open>M\<close> modules.\<close>

definition mods :: "nat \<Rightarrow> manager_env \<Rightarrow> manager \<Rightarrow> bool" where
  "mods M env s \<longleftrightarrow> length (cfg_modules (am_config s)) \<le> M \<and> (\<forall>cfg. env_config env = Some cfg \<longrightarrow> length (cfg_modules cfg) \<le> M)"

lemma mgr_wf_config: "mgr_wf (s\<lparr>am_config := cfg\<rparr>) = mgr_wf s"
  by (simp add: mgr_wf_def child_ok_def keys_def)

lemma led_handle_cmd_reload:
  assumes "handle_cmd_reload env msg s = Some (Inr s')" "mgr_wf s" "mods M env s"
  shows "led (Suc M) (snd (update_config env s)) s'"
proof -
  obtain ok s0 where s0: "update_config env s = (ok, s0)" by fastforce
  have wf0: "mgr_wf s0" using assms(2) s0 by (auto simp: update_config_def mgr_wf_config split: option.splits)
  have M: "length (cfg_modules (am_config s0)) \<le> M" using assms(3) s0 by (auto simp: update_config_def mods_def split: option.splits)
  show ?thesis
  proof (cases ok)
    case False
    then show ?thesis using assms(1) s0 by (simp add: handle_cmd_reload_def run_ret_def led_refl)
  next
    case True
    let ?rest = "\<lambda>(found, s1). if found then run_ret s1
        else run_bind (run_res (get_payload msg (am_store s1))) (\<lambda>module_name. reload_module env 0 module_name s1)"
    obtain name where "get_payload msg (am_store s0) = Inr name"
      using assms(1) s0 True by (cases "get_payload msg (am_store s0)") (simp_all add: handle_cmd_reload_def run_simps)
    then have "run_bind (search_module_and_remove env name s0) ?rest = Some (Inr s')"
      using assms(1) s0 True by (simp add: handle_cmd_reload_def run_simps)
    then obtain found s1 where s1: "search_module_and_remove env name s0 = Some (Inr (found, s1))" "?rest (found, s1) = Some (Inr s')"
      unfolding run_bind_Inr_iff by auto
    note led1 = led_search [OF s1(1) wf0]
    show ?thesis
    proof (cases found)
      case True
      then have "led (length (cfg_modules (am_config s0))) s0 s'" using s1(2) led1 by (simp add: run_ret_def)
      from led_mono [OF this, of "Suc M"] M s0 show ?thesis by simp
    next
      case False
      then have "led 1 s1 s'" using s1(2) led_reload_loop by (auto simp: reload_module_def GetConfigInfo_def Let_def run_bind_Inr_iff)
      from led_mono [OF led_trans [OF led1 this], of "Suc M"] False s0 show ?thesis by simp
    qed
  qed
qed

lemma led_handle_event_exit:
  assumes "handle_event_exit env k s = Some (Inr (fin, s'))" "mods M env s"
  shows "led (Suc M) s s'"
proof -
  let ?s = "forget_pending k s"
  have forget: "led 0 s ?s" "am_config ?s = am_config s" by (simp_all add: led_def forget_pending_def)
  have all: "led (Suc M) s s1" if "reload_all_modules env ?s = Some (Inr s1)" for s1
    using led_mono [OF led_trans [OF forget(1) led_reload_all_modules [OF that]], of "Suc M"] assms(2) forget(2) by (simp add: mods_def)
  have one: "led (Suc M) s s1" if "reload_module env k name ?s = Some (Inr s1)" for s1 name
    using led_mono [OF led_trans [OF forget(1) led_reload_loop], of _ _ _ _ _ s1 "Suc M"] that
    by (simp add: reload_module_def GetConfigInfo_def Let_def)
  have rest: "led (Suc M) s ?s" "led (Suc M) s (erase_child k ?s)" "led (Suc M) s (restart_module md ?s)" for md
    by (simp_all add: led_def forget_pending_def erase_child_def restart_module_def enqueue_tasks_def split: option.split)
  have "\<exists>name md. reload_all_modules env ?s = Some (Inr s') \<or> reload_module env k name ?s = Some (Inr s')
      \<or> s' = ?s \<or> s' = erase_child k ?s \<or> s' = restart_module md ?s"
    using assms(1) by (simp add: handle_event_exit_def Let_def run_bind_Inr_iff run_ret_def split: if_splits option.splits) blast+
  then show ?thesis using all one rest by blast
qed

lemma led_dispatch:
  assumes "dispatch env msg s = Some (Inr (fin, s'))" "mgr_wf s" "mods M env s"
  shows "\<exists>t. (t = s \<or> t = snd (update_config env s)) \<and> led (Suc M) t s'"
proof -
  obtain m where m: "load_message msg (am_store s) = Inr m"
    using assms(1) by (cases "load_message msg (am_store s)") (simp_all add: dispatch_def run_simps)
  have zero: "led 0 s s' \<Longrightarrow> ?thesis" using led_mono [of 0 s s' "Suc M"] by auto
  show ?thesis
  proof (cases "msg_type m")
    case kEventCmdExit
    then have "handle_cmd_exit env s = Some (Inr (fin, s'))" using assms(1) m by (simp add: dispatch_def run_simps)
    then show ?thesis using zero led_handle_cmd_exit assms(2) by blast
  next
    case kEventCmdModuleReload
    then have "handle_cmd_reload env msg s = Some (Inr s')" using assms(1) m by (simp add: dispatch_def run_simps run_bind_Inr_iff run_ret_def)
    then show ?thesis using led_handle_cmd_reload [OF _ assms(2,3)] by blast
  next
    case kEventCmdModuleRemove
    then obtain name where "remove_loop env name (am_childrens s) s = Some (Inr s')"
      using assms(1) m by (auto simp: dispatch_def handle_cmd_remove_def run_simps run_bind_Inr_iff run_ret_def)
    then show ?thesis using zero led_remove_loop own_mailbox [OF assms(2)] by blast
  next
    case kEventModuleExited
    then have "handle_event_exit env (msg_sender_id m) s = Some (Inr (fin, s'))" using assms(1) m by (simp add: dispatch_def run_simps)
    then show ?thesis using led_handle_event_exit [OF _ assms(3)] by blast
  next
    case kEventCrashReport
    then have "handle_event_crash msg (msg_sender_id m) s = Some (Inr s')"
      using assms(1) m by (simp add: dispatch_def run_simps run_bind_Inr_iff run_ret_def)
    then have "led 0 s s'"
      by (auto simp: handle_event_crash_def run_bind_Inr_iff run_ret_def led_def split: option.splits if_splits)
    then show ?thesis using zero by blast
  qed (use zero assms(1) m in \<open>simp_all add: dispatch_def run_simps run_ret_def led_refl\<close>)
qed


section \<open>Rounds of the loop\<close>

text \<open>A supervisor in order whose mailbox holds \<open>ms\<close>, with room for \<open>b\<close> more operations.\<close>

definition holding :: "manager_env \<Rightarrow> nat \<Rightarrow> addr list \<Rightarrow> manager \<Rightarrow> bool" where
  "holding env b ms s \<longleftrightarrow>
     mgr_wf s \<and> (\<exists>contents. accounts (env_frames env) b contents {#} s \<and> contents ! am_mailbox s = ms)"

lemma holding_mono: "holding env b ms s \<Longrightarrow> b' \<le> b \<Longrightarrow> holding env b' ms s"
  unfolding holding_def using accounts_mono by blast

lemma holding_ok: "holding env b ms s \<Longrightarrow> mgr_ok env b {#} s"
  by (auto simp: holding_def mgr_ok_def)

lemma childrens_below_next:
  assumes "mgr_wf s"
  shows "length (am_childrens s) \<le> unat (am_next_id s)"
proof -
  have "unat ` keys s \<subseteq> {..<unat (am_next_id s)}" using assms by (auto simp: mgr_wf_def child_ok_def keys_def)
  then have "card (unat ` keys s) \<le> unat (am_next_id s)" using card_mono [of "{..<unat (am_next_id s)}"] by fastforce
  moreover have "card (unat ` keys s) = card (keys s)" by (intro card_image inj_onI) (simp add: word_unat_eq_iff)
  ultimately show ?thesis using length_childrens [OF assms] by simp
qed

text \<open>One message is handled, and the mailbox has it no more and the others still.\<close>

lemma round_takes_one:
  assumes env: "env_ok env" and hold: "holding env (N + 2 + b) (a # ms) s" and mods: "mods M env s"
    and N: "unat (am_next_id s) \<le> N" and lim: "N + M + b + 258 < index_limit"
  shows "\<exists>fin s'. event_round env s = Some (Inr (Some fin, s')) \<and> holding env b ms s' \<and> mods M env s'
     \<and> unat (am_next_id s') \<le> unat (am_next_id s) + Suc M \<and> (fin \<longrightarrow> am_childrens s' = [])"
proof -
  obtain contents where wf: "mgr_wf s" and acc: "accounts (env_frames env) (Suc (N + 1 + b)) contents {#} s"
    and head: "contents ! am_mailbox s = a # ms"
    using hold by (auto simp: holding_def)
  have mb: "am_mailbox s < length (am_boxes s)" using wf by (simp add: mgr_wf_def)
  obtain s1 where s1: "receive_next s = Some (Inr (Some a, s1))"
    "accounts (env_frames env) (N + 1 + b) (contents[am_mailbox s := ms]) {#a#} s1" "mgr_core s1 = mgr_core s"
    using receive_explicit [OF acc mb] head by (auto simp: receive_next_def)
  have wf1: "mgr_wf s1" using mgr_wf_core [OF s1(3)] wf by simp
  have core: "am_mailbox s1 = am_mailbox s" "am_next_id s1 = am_next_id s" "am_config s1 = am_config s"
    "length (am_boxes s1) = length (am_boxes s)" "am_childrens s1 = am_childrens s"
    using s1(3) by (simp_all add: mgr_core_def)
  have len: "length (am_childrens s) \<le> N" using childrens_below_next [OF wf] N by simp
  have mods1: "mods M env s1" using mods core(3) by (simp add: mods_def)
  have room: "room s1 b" "room (snd (update_config env s1)) b"
    using lim N len mods1 core by (auto simp: room_def mods_def update_config_def split: option.splits)
  have "mgr_ok env (length (am_childrens s1) + 1 + b) {#a#} s1"
    using mgr_ok_mono [OF mgr_ok_core [OF wf s1(2,3)]] len core(5) by simp
  then obtain fin s2 where s2: "dispatch env a s1 = Some (Inr (fin, s2))" "mgr_ok env b {#a#} s2" "fin \<longrightarrow> am_childrens s2 = []"
    "am_mailbox s2 = am_mailbox s1"
    using dispatch_ok [OF env _ room, of a "{#}"] by auto
  obtain t where t: "t = s1 \<or> t = snd (update_config env s1)" "led (Suc M) t s2" using led_dispatch [OF s2(1) wf1 mods1] by blast
  have same: "am_mailbox t = am_mailbox s" "am_boxes t = am_boxes s1" "am_next_id t = am_next_id s"
    using t(1) core by (auto simp: update_config_def split: option.splits)
  have mods2: "mods M env s2"
    using t mods1 by (auto simp: mods_def led_def update_config_def split: option.splits)
  obtain contents2 where acc2: "accounts (env_frames env) b contents2 {#a#} s2" and wf2: "mgr_wf s2" using s2(2) by (auto simp: mgr_ok_def)
  have "am_boxes s2 ! am_mailbox s = am_boxes s1 ! am_mailbox s" "am_mailbox s < length (am_boxes s2)"
    using t(2) same mb core(4) by (auto simp: led_def)
  moreover have "mb_holds 256 (N + 1 + b) ms (am_boxes s1 ! am_mailbox s)" using s1(2) mb core(4) acc by (auto simp: accounts_def)
  moreover have "mb_holds 256 b (contents2 ! am_mailbox s) (am_boxes s2 ! am_mailbox s)"
    using acc2 calculation(2) by (simp add: accounts_def)
  ultimately have own: "contents2 ! am_mailbox s = ms" using mb_holds_unique by metis
  let ?s = "if fin then count_down s2 else s2"
  have "accounts (env_frames env) b contents2 {#a#} ?s" using acc2 by (simp add: accounts_def count_down_def)
  then obtain s' where s': "release_message a ?s = Some (Inr s')" "accounts (env_frames env) b contents2 {#} s'" "mgr_core s' = mgr_core ?s"
    using release_message_ok by blast
  have "event_round env s = Some (Inr (Some fin, s'))" using s1(1) s2(1) s'(1) by (simp add: event_round_def run_simps run_ret_def)
  moreover have "mgr_wf ?s" using wf2 by (simp add: mgr_wf_def child_ok_def keys_def count_down_def)
  then have "mgr_wf s'" using mgr_wf_core [OF s'(3)] by simp
  moreover have fields: "am_mailbox s' = am_mailbox s" "am_next_id s' = am_next_id s2" "am_config s' = am_config s2" "am_childrens s' = am_childrens s2"
    using s'(3) s2(4) core(1) by (simp_all add: mgr_core_def count_down_def)
  ultimately show ?thesis
    using s'(2) own mods2 t(2) same s2(3) by (intro exI [of _ fin] exI [of _ s']) (auto simp: holding_def mods_def led_def)
qed

text \<open>With an empty mailbox the coroutine goes to sleep, where the next sender will find it.\<close>

definition asleep :: "handle \<Rightarrow> manager \<Rightarrow> bool" where
  "asleep h s \<longleftrightarrow> \<not> mb_scheduled (am_boxes s ! am_mailbox s) \<and> mb_consumer (am_boxes s ! am_mailbox s) = Some h"

lemma empty_sleeps:
  fixes env :: manager_env
  assumes hold: "holding env (Suc b) [] s" and h: "env_frames env h \<noteq> None"
  shows "\<exists>s1 s'. event_round env s = Some (Inr (None, s1)) \<and> box_wait h (am_mailbox s1) s1 = Some (Inr (True, s'))
     \<and> holding env b [] s' \<and> asleep h s'"
proof -
  obtain contents where wf: "mgr_wf s" and acc: "accounts (env_frames env) (Suc b) contents {#} s"
    and empty: "contents ! am_mailbox s = []"
    using hold by (auto simp: holding_def)
  obtain s1 where s1: "event_round env s = Some (Inr (None, s1))" "accounts (env_frames env) b contents {#} s1" "mgr_core s1 = mgr_core s"
    using round_empty [OF acc wf empty] by blast
  have wf1: "mgr_wf s1" using mgr_wf_core [OF s1(3)] wf by simp
  let ?mb = "am_mailbox s1" and ?box = "am_boxes s1 ! am_mailbox s1"
  have mb: "?mb < length (am_boxes s1)" "?mb = am_mailbox s" using wf1 s1(3) by (simp_all add: mgr_wf_def mgr_core_def)
  have box: "mb_holds 256 b [] ?box" using s1(2) mb empty by (auto simp: accounts_def)
  let ?box' = "?box\<lparr>mb_consumer := Some h, mb_scheduled := False\<rparr>"
  let ?s = "s1\<lparr>am_boxes := (am_boxes s1)[?mb := ?box']\<rparr>"
  have "can_dequeue (mb_mailbox ?box) = Inr False" using mb_holds_ready [OF box] by (simp add: await_ready_def)
  then have "await_ready ?box = Inr False" "await_suspend h ?box = Inr (True, ?box')" by (simp_all add: await_ready_def await_suspend_def)
  then have wait: "box_wait h ?mb s1 = Some (Inr (True, ?s))" using mb(1) by (simp add: box_wait_def run_simps run_ret_def)
  have "mb_holds 256 b (contents ! k) ((am_boxes s1)[?mb := ?box'] ! k) \<and> consumer_ok (env_frames env) ((am_boxes s1)[?mb := ?box'] ! k)"
    if "k < length (am_boxes s1)" for k
    using that s1(2) mb h by (cases "k = ?mb") (auto simp: accounts_def consumer_ok_def)
  then have "accounts (env_frames env) b contents {#} ?s" using s1(2) by (simp add: accounts_def)
  moreover have "mgr_wf ?s" using wf1 by (simp add: mgr_wf_def child_ok_def keys_def)
  ultimately have "holding env b [] ?s" using empty mb(2) by (auto simp: holding_def)
  moreover have "asleep h ?s" using mb(1) by (simp add: asleep_def)
  ultimately show ?thesis using s1(1) wait by blast
qed

lemma manager_loop_ends:
  assumes env: "env_ok env" "env_frames env h \<noteq> None"
    and "holding env (Suc (length ms) * (N + 2)) ms s" "mods M env s" "unat (am_next_id s) + length ms * Suc M \<le> N"
    and "N + M + Suc (length ms) * (N + 2) + 258 < index_limit" "length ms < n"
  shows "\<exists>e s'. manager_loop env h n s = Some (Inr (e, s')) \<and> mgr_ok env 1 {#} s'
     \<and> (if e = CoReturns then am_childrens s' = [] else holding env 1 [] s' \<and> asleep h s')"
  using assms(3-)
proof (induction ms arbitrary: s n)
  case Nil
  obtain n' where n: "n = Suc n'" using Nil.prems(5) by (cases n) auto
  have "holding env (Suc 1) [] s" using holding_mono [OF Nil.prems(1), of "Suc 1"] by simp
  then obtain s1 s' where s': "event_round env s = Some (Inr (None, s1))" "box_wait h (am_mailbox s1) s1 = Some (Inr (True, s'))"
    "holding env 1 [] s'" "asleep h s'"
    using empty_sleeps [OF _ env(2)] by blast
  then have "manager_loop env h n s = Some (Inr (CoWaits, s'))" using n by (simp add: run_simps run_ret_def)
  then show ?case using s'(3,4) holding_ok by fastforce
next
  case (Cons a ms)
  obtain n' where n: "n = Suc n'" "length ms < n'" using Cons.prems(5) by (cases n) auto
  let ?b = "Suc (length ms) * (N + 2)"
  have "Suc (length (a # ms)) * (N + 2) = N + 2 + ?b" by simp
  then have hold: "holding env (N + 2 + ?b) (a # ms) s" using Cons.prems(1) by metis
  have N: "unat (am_next_id s) \<le> N" using Cons.prems(3) by simp
  have lim: "N + M + ?b + 258 < index_limit" using Cons.prems(4) by simp
  obtain fin s1 where s1: "event_round env s = Some (Inr (Some fin, s1))" "holding env ?b ms s1" "mods M env s1"
    "unat (am_next_id s1) \<le> unat (am_next_id s) + Suc M" "fin \<longrightarrow> am_childrens s1 = []"
    using round_takes_one [OF env(1) hold Cons.prems(2) N lim] by blast
  show ?case
  proof (cases fin)
    case True
    then have "manager_loop env h n s = Some (Inr (CoReturns, s1))" using n s1(1) by (simp add: run_simps run_ret_def)
    then show ?thesis using True s1(5) holding_ok [OF holding_mono [OF s1(2)]] by fastforce
  next
    case False
    have "unat (am_next_id s1) + length ms * Suc M \<le> N" using s1(4) Cons.prems(3) by simp
    then obtain e s' where "manager_loop env h n' s1 = Some (Inr (e, s'))" "mgr_ok env 1 {#} s'"
      "if e = CoReturns then am_childrens s' = [] else holding env 1 [] s' \<and> asleep h s'"
      using Cons.IH [OF s1(2,3) _ lim n(2)] by blast
    moreover have "manager_loop env h n s = manager_loop env h n' s1" using n s1(1) False by (simp add: run_simps)
    ultimately show ?thesis by metis
  qed
qed


section \<open>Properties\<close>

text \<open>
  C7. Every resumption of the supervisor's coroutine comes to an end. Whatever at most 256 messages its mailbox holds, commands to
  reload modules included, 257 rounds are enough: then it has handled all of them and sleeps on the empty mailbox,
  registered as its consumer and not scheduled, so that the next \<^verbatim>\<open>Send\<close> enqueues it; or it has returned, and
  no child is left. \<open>N\<close> bounds the identifiers in use and \<open>M\<close> the modules of a configuration.
\<close>

theorem manager_coroutine_ends:
  assumes "env_ok env" "env_frames env h = Some False" "mgr_ok env (257 * (N + 2)) {#} s" "mods M env s"
    and "unat (am_next_id s) + 256 * Suc M \<le> N" "258 * (N + 2) + M + 258 < index_limit"
  shows "\<exists>e s'. manager_coroutine env h 257 s = Some (Inr (e, s')) \<and> mgr_ok env 1 {#} s'
     \<and> (if e = CoReturns then am_childrens s' = []
        else mb_holds 256 1 [] (am_boxes s' ! am_mailbox s')
          \<and> (\<forall>m st. \<exists>box. Send (env_frames env) m (am_boxes s' ! am_mailbox s') st = Some (Inr (box, st, [h]))))"
proof -
  let ?s = "mark_running (am_mailbox s) s"
  obtain contents where wf: "mgr_wf s" and acc: "accounts (env_frames env) (257 * (N + 2)) contents {#} s"
    using assms(3) by (auto simp: mgr_ok_def)
  have mb: "am_mailbox s < length (am_boxes s)" using wf by (simp add: mgr_wf_def)
  note mark = mark_running_ok [OF acc mb]
  have core: "am_mailbox ?s = am_mailbox s" "am_next_id ?s = am_next_id s" "am_config ?s = am_config s" using mark(2) by (simp_all add: mgr_core_def)
  have wf': "mgr_wf ?s" using mgr_wf_core [OF mark(2)] wf by simp
  define ms where "ms = contents ! am_mailbox s"
  have "mb_holds 256 (257 * (N + 2)) ms (am_boxes s ! am_mailbox s)" using acc mb by (auto simp: accounts_def ms_def)
  then have len: "length ms \<le> 256" by (rule mb_holds_length)
  have "holding env (257 * (N + 2)) ms ?s" using mark(1) wf' core(1) by (auto simp: holding_def ms_def)
  moreover have "Suc (length ms) * (N + 2) \<le> 257 * (N + 2)" using len by (intro mult_le_mono1) simp
  ultimately have hold: "holding env (Suc (length ms) * (N + 2)) ms ?s" using holding_mono by blast
  have "length ms * Suc M \<le> 256 * Suc M" using len by (intro mult_le_mono1)
  then have N: "unat (am_next_id ?s) + length ms * Suc M \<le> N" using assms(5) core(2) by simp
  have lim: "N + M + Suc (length ms) * (N + 2) + 258 < index_limit"
    using assms(6) \<open>Suc (length ms) * (N + 2) \<le> 257 * (N + 2)\<close> by simp
  have "mods M env ?s" "env_frames env h \<noteq> None" "length ms < 257" using assms(2,4) core(3) len by (simp_all add: mods_def)
  then obtain e s' where s': "manager_loop env h 257 ?s = Some (Inr (e, s'))" "mgr_ok env 1 {#} s'"
    "if e = CoReturns then am_childrens s' = [] else holding env 1 [] s' \<and> asleep h s'"
    using manager_loop_ends [OF assms(1) _ hold _ N lim] by blast
  have run: "manager_coroutine env h 257 s = Some (Inr (e, s'))" using s'(1) mb by (simp add: manager_coroutine_def)
  have "mb_holds 256 1 [] (am_boxes s' ! am_mailbox s')
      \<and> (\<forall>m st. \<exists>box. Send (env_frames env) m (am_boxes s' ! am_mailbox s') st = Some (Inr (box, st, [h])))"
    if hold: "holding env 1 [] s'" and sleep: "asleep h s'"
  proof -
    let ?box = "am_boxes s' ! am_mailbox s'"
    have box: "mb_holds 256 (Suc 0) [] ?box" "consumer_ok (env_frames env) ?box"
      using hold unfolding holding_def accounts_def mgr_wf_def by (metis One_nat_def)+
    moreover have "woken (env_frames env) ?box = [h]" using sleep assms(2) by (simp add: asleep_def woken_def)
    ultimately show ?thesis using Send_room [OF box(1) _ box(2)] by fastforce
  qed
  then show ?thesis using run s'(2,3) by (intro exI [of _ e] exI [of _ s']) auto
qed


text \<open>A supervisor with one module, started and told to shut down, whose coroutine \<open>1\<close> is resumed.\<close>

definition demo_frames :: manager_env where
  "demo_frames = demo_env\<lparr>env_frames := [1 \<mapsto> False]\<rparr>"

theorem manager_coroutine_ends_witness:
  "\<exists>s0 s1 s2 e s'. manager_new demo_config = Some (Inr s0) \<and> EventLoop_start demo_frames 1 s0 = Some (Inr s1)
     \<and> Shutdown demo_frames s1 = Some (Inr s2) \<and> manager_coroutine demo_frames 1 257 s2 = Some (Inr (e, s'))"
proof -
  let ?B = "257 * (514 + 2) :: nat"
  have env: "env_ok demo_frames" using demo_env_ok by (simp add: env_ok_def demo_frames_def)
  obtain s0 where s0: "manager_new demo_config = Some (Inr s0)" "mgr_ok demo_frames (Suc ?B) {#} s0" "am_childrens s0 = []"
    "am_config s0 = demo_config" "am_next_id s0 = 1"
    using manager_new_ok [of "Suc ?B" demo_config demo_frames] by auto
  have "room s0 (Suc ?B)" using s0(3-5) by (simp add: room_def demo_config_def)
  then obtain s1 where s1: "EventLoop_start demo_frames 1 s0 = Some (Inr s1)" "mgr_ok demo_frames (Suc ?B) {#} s1"
    "grown (length (cfg_modules (am_config s0))) (s0\<lparr>am_is_running := True\<rparr>) s1"
    using EventLoop_start_tasks [OF env s0(2), of 1] by blast
  then have start: "unat (am_next_id s1) \<le> 2" "am_config s1 = demo_config" using s0(4,5) by (simp_all add: grown_def demo_config_def)
  obtain s2 where s2: "Shutdown demo_frames s1 = Some (Inr s2)" "mgr_ok demo_frames ?B {#} s2"
    "mgr_core s2 = mgr_core (s1\<lparr>am_is_running := False\<rparr>)"
    using Shutdown_ok [OF s1(2)] by blast
  have "unat (am_next_id s2) + 256 * Suc 1 \<le> 514" "mods 1 demo_frames s2"
    using s2(3) start by (simp_all add: mgr_core_def mods_def demo_config_def demo_frames_def demo_env_def)
  moreover have "env_frames demo_frames 1 = Some False" by (simp add: demo_frames_def)
  ultimately show ?thesis
    using manager_coroutine_ends [OF env _ s2(2), of 1 1] s0(1) s1(1) s2(1) by auto
qed

end
