(* ===== verification/Supervisor_Spec.thy ===== *)
theory Supervisor_Spec
  imports Event_Message
begin

text \<open>
  What the supervisor of \<^verbatim>\<open>actor_manager.cc\<close> promises, without mailboxes, messages and libraries: children that run, crash,
  exit and are started again, orders to remove a child or to stop. The theorem of this theory is that an order to
  stop is carried out; theory \<open>Whole_System\<close> shows that the code does nothing but the steps below.
\<close>

section \<open>States and steps\<close>

text \<open>
  The inbox has the type and the sender of each message; \<open>su_todo\<close> are the children with a coroutine that is still to run.
\<close>

record supervisor =
  su_running :: bool
  su_ended :: bool
  su_children :: "size_t set"
  su_stopping :: "size_t set"
  su_restarting :: "size_t set"
  su_inbox :: "(EventType \<times> size_t) list"
  su_todo :: "size_t list"

text \<open>Work: a child runs to its crash and exit, or the supervisor handles the oldest message.\<close>

inductive sup_work :: "supervisor \<Rightarrow> supervisor \<Rightarrow> bool" where
  child_runs: "su_todo u = xs @ k # ys \<Longrightarrow>
     sup_work u (u\<lparr>su_todo := xs @ ys, su_inbox := su_inbox u @ [(kEventCrashReport, k), (kEventModuleExited, k)]\<rparr>)"
| crash: "\<not> su_ended u \<Longrightarrow> su_inbox u = (kEventCrashReport, k) # r \<Longrightarrow>
     sup_work u (u\<lparr>su_inbox := r, su_restarting :=
       (if su_running u \<and> k \<in> su_children u \<and> k \<notin> su_stopping u then insert k (su_restarting u) else su_restarting u)\<rparr>)"
| restart: "\<not> su_ended u \<Longrightarrow> su_inbox u = (kEventModuleExited, k) # r \<Longrightarrow> k \<in> su_children u \<Longrightarrow>
     su_running u \<Longrightarrow> k \<in> su_restarting u \<Longrightarrow> k \<notin> su_stopping u \<Longrightarrow>
     sup_work u (u\<lparr>su_inbox := r, su_restarting := su_restarting u - {k}, su_todo := su_todo u @ [k]\<rparr>)"
| gone: "\<not> su_ended u \<Longrightarrow> su_inbox u = (kEventModuleExited, k) # r \<Longrightarrow> k \<in> su_children u \<Longrightarrow>
     \<not> (su_running u \<and> k \<in> su_restarting u \<and> k \<notin> su_stopping u) \<Longrightarrow>
     sup_work u (u\<lparr>su_inbox := r, su_restarting := su_restarting u - {k}, su_stopping := su_stopping u - {k},
       su_children := su_children u - {k}, su_ended := (\<not> su_running u \<and> su_children u - {k} = {})\<rparr>)"
| stop_all: "\<not> su_ended u \<Longrightarrow> su_inbox u = (kEventCmdExit, 0) # r \<Longrightarrow>
     sup_work u (u\<lparr>su_inbox := r, su_stopping := su_stopping u \<union> su_children u, su_restarting := su_restarting u - su_children u,
       su_ended := (su_children u = {})\<rparr>)"
| remove: "\<not> su_ended u \<Longrightarrow> su_inbox u = (kEventCmdModuleRemove, 0) # r \<Longrightarrow> k \<in> su_children u \<Longrightarrow>
     sup_work u (u\<lparr>su_inbox := r, su_stopping := insert k (su_stopping u), su_restarting := su_restarting u - {k}\<rparr>)"
| remove_unknown: "\<not> su_ended u \<Longrightarrow> su_inbox u = (kEventCmdModuleRemove, 0) # r \<Longrightarrow> sup_work u (u\<lparr>su_inbox := r\<rparr>)"

text \<open>Orders from outside.\<close>

inductive sup_order :: "supervisor \<Rightarrow> supervisor \<Rightarrow> bool" where
  order_remove: "sup_order u (u\<lparr>su_inbox := su_inbox u @ [(kEventCmdModuleRemove, 0)]\<rparr>)"
| order_stop: "su_running u \<Longrightarrow> sup_order u (u\<lparr>su_running := False, su_inbox := su_inbox u @ [(kEventCmdExit, 0)]\<rparr>)"
| order_again: "\<not> su_running u \<Longrightarrow> sup_order u u"

section \<open>The invariant\<close>

text \<open>The messages of one sender, oldest first.\<close>

definition mails :: "size_t \<Rightarrow> (EventType \<times> size_t) list \<Rightarrow> EventType list" where
  "mails k inbox = map fst (filter (\<lambda>m. snd m = k) inbox)"

lemma mails_simps [simp]:
  "mails k [] = []" "mails k ((t, j) # r) = (if j = k then t # mails k r else mails k r)"
  "mails k (xs @ ys) = mails k xs @ mails k ys"
  by (simp_all add: mails_def)

text \<open>
  Every child has one life: a coroutine that is to run, or the messages of one that has. After \<open>c\<close> orders at most that many
  are in the inbox.
\<close>

definition alive :: "supervisor \<Rightarrow> size_t \<Rightarrow> bool" where
  "alive u k \<longleftrightarrow>
     count_list (su_todo u) k = 1 \<and> mails k (su_inbox u) = []
     \<or> count_list (su_todo u) k = 0
         \<and> mails k (su_inbox u) \<in> {[kEventCrashReport, kEventModuleExited], [kEventModuleExited]}"

definition sup_inv :: "nat \<Rightarrow> supervisor \<Rightarrow> bool" where
  "sup_inv c u \<longleftrightarrow>
     finite (su_children u) \<and> 0 \<notin> su_children u
     \<and> (\<forall>k\<in>su_children u. alive u k)
     \<and> set (su_todo u) \<subseteq> su_children u \<and> snd ` set (su_inbox u) \<subseteq> insert 0 (su_children u)
     \<and> length (mails 0 (su_inbox u)) \<le> c \<and> set (mails 0 (su_inbox u)) \<subseteq> {kEventCmdExit, kEventCmdModuleRemove}
     \<and> (su_running u \<longrightarrow> kEventCmdExit \<notin> set (mails 0 (su_inbox u)) \<and> \<not> su_ended u)
     \<and> (su_ended u \<longrightarrow> su_children u = {})
     \<and> (\<not> su_running u \<and> \<not> su_ended u \<longrightarrow> su_children u \<noteq> {} \<or> kEventCmdExit \<in> set (mails 0 (su_inbox u)))"

lemma alive_inbox:
  assumes "sup_inv c u" "su_inbox u = (t, k) # r" "k \<noteq> 0"
  shows "k \<in> su_children u" "count_list (su_todo u) k = 0"
    "t = kEventCrashReport \<and> mails k r = [kEventModuleExited] \<or> t = kEventModuleExited \<and> mails k r = []"
proof -
  show k: "k \<in> su_children u" using assms by (auto simp: sup_inv_def)
  then have "alive u k" using assms(1) by (simp add: sup_inv_def)
  then show "count_list (su_todo u) k = 0"
    "t = kEventCrashReport \<and> mails k r = [kEventModuleExited] \<or> t = kEventModuleExited \<and> mails k r = []"
    using assms(2) by (auto simp: alive_def)
qed

text \<open>What a step must do for the children and for everything else.\<close>

lemma sup_invI:
  assumes "\<And>k. k \<in> su_children u \<Longrightarrow> alive u k" "finite (su_children u)" "0 \<notin> su_children u" "set (su_todo u) \<subseteq> su_children u"
    "snd ` set (su_inbox u) \<subseteq> insert 0 (su_children u)" "length (mails 0 (su_inbox u)) \<le> c"
    "set (mails 0 (su_inbox u)) \<subseteq> {kEventCmdExit, kEventCmdModuleRemove}"
    "su_running u \<Longrightarrow> kEventCmdExit \<notin> set (mails 0 (su_inbox u)) \<and> \<not> su_ended u" "su_ended u \<Longrightarrow> su_children u = {}"
    "\<not> su_running u \<Longrightarrow> \<not> su_ended u \<Longrightarrow> su_children u \<noteq> {} \<or> kEventCmdExit \<in> set (mails 0 (su_inbox u))"
  shows "sup_inv c u"
  using assms by (simp add: sup_inv_def)

lemma sup_invD:
  assumes "sup_inv c u"
  shows "k \<in> su_children u \<Longrightarrow> alive u k" "finite (su_children u)" "0 \<notin> su_children u" "set (su_todo u) \<subseteq> su_children u"
    "snd ` set (su_inbox u) \<subseteq> insert 0 (su_children u)" "length (mails 0 (su_inbox u)) \<le> c"
    "set (mails 0 (su_inbox u)) \<subseteq> {kEventCmdExit, kEventCmdModuleRemove}"
    "su_running u \<Longrightarrow> kEventCmdExit \<notin> set (mails 0 (su_inbox u)) \<and> \<not> su_ended u" "su_ended u \<Longrightarrow> su_children u = {}"
    "\<not> su_running u \<Longrightarrow> \<not> su_ended u \<Longrightarrow> su_children u \<noteq> {} \<or> kEventCmdExit \<in> set (mails 0 (su_inbox u))"
  using assms by (simp_all add: sup_inv_def)

lemma work_keeps_inv: "sup_work u u' \<Longrightarrow> sup_inv c u \<Longrightarrow> sup_inv c u'"
proof (induction rule: sup_work.induct)
  case (child_runs u xs k ys)
  note D = sup_invD [OF child_runs(2)]
  have k: "k \<in> su_children u" "k \<noteq> 0" "alive u k" using D(1,3,4) child_runs(1) by auto
  then have life: "count_list xs k = 0" "count_list ys k = 0" "mails k (su_inbox u) = []"
    using child_runs(1) by (auto simp: alive_def)
  show ?case
  proof (rule sup_invI)
    fix j
    assume "j \<in> su_children (u\<lparr>su_todo := xs @ ys, su_inbox := su_inbox u @ [(kEventCrashReport, k), (kEventModuleExited, k)]\<rparr>)"
    then have "alive u j" using D(1) by simp
    then show "alive (u\<lparr>su_todo := xs @ ys, su_inbox := su_inbox u @ [(kEventCrashReport, k), (kEventModuleExited, k)]\<rparr>) j"
      using life child_runs(1) by (cases "j = k") (auto simp: alive_def)
  qed (use D k child_runs(1) in auto)
next
  case (crash u k r)
  note D = sup_invD [OF crash(3)]
  have k: "k \<noteq> 0" using D(7) crash(2) by auto
  note life = alive_inbox [OF crash(3,2) k]
  have "alive u j \<Longrightarrow> alive (u\<lparr>su_inbox := r, su_restarting := X\<rparr>) j" for j X
    using crash(2) life by (cases "j = k") (auto simp: alive_def)
  then show ?case using D k crash(1,2) by (intro sup_invI) auto
next
  case (restart u k r)
  note D = sup_invD [OF restart(7)]
  have k: "k \<noteq> 0" using D(3) restart(3) by auto
  note life = alive_inbox [OF restart(7,2) k]
  have "alive u j \<Longrightarrow> alive (u\<lparr>su_inbox := r, su_restarting := X, su_todo := su_todo u @ [k]\<rparr>) j" for j X
    using restart(2) life by (cases "j = k") (auto simp: alive_def)
  then show ?case using D k restart(1-4) by (intro sup_invI) auto
next
  case (gone u k r)
  note D = sup_invD [OF gone(5)]
  have k: "k \<noteq> 0" using D(3) gone(3) by auto
  note life = alive_inbox [OF gone(5,2) k]
  have none: "k \<notin> snd ` set r" "k \<notin> set (su_todo u)"
    using life(2,3) by (auto simp: mails_def count_list_0_iff filter_empty_conv)
  have "alive u j \<Longrightarrow> j \<noteq> k \<Longrightarrow> alive (u\<lparr>su_inbox := r, su_restarting := X, su_stopping := Y, su_children := Z, su_ended := e\<rparr>) j" for j X Y Z e
    using gone(2) by (auto simp: alive_def)
  then show ?case using D k none gone(1,2) by (intro sup_invI) auto
next
  case (stop_all u r)
  note D = sup_invD [OF stop_all(3)]
  have "j \<in> su_children u \<Longrightarrow> alive (u\<lparr>su_inbox := r, su_stopping := X, su_restarting := Y, su_ended := e\<rparr>) j" for j X Y e
    using stop_all(2) D(1) [of j] D(3) by (cases "j = 0") (auto simp: alive_def)
  then show ?case using D stop_all(1,2) by (intro sup_invI) auto
next
  case (remove u r k)
  note D = sup_invD [OF remove(4)]
  have "j \<in> su_children u \<Longrightarrow> alive (u\<lparr>su_inbox := r, su_stopping := X, su_restarting := Y\<rparr>) j" for j X Y
    using remove(2) D(1) [of j] D(3) by (cases "j = 0") (auto simp: alive_def)
  then show ?case using D remove(1,2) by (intro sup_invI) auto
next
  case (remove_unknown u r)
  note D = sup_invD [OF remove_unknown(3)]
  have "j \<in> su_children u \<Longrightarrow> alive (u\<lparr>su_inbox := r\<rparr>) j" for j
    using remove_unknown(2) D(1) [of j] D(3) by (cases "j = 0") (auto simp: alive_def)
  then show ?case using D remove_unknown(1,2) by (intro sup_invI) auto
qed

lemma order_keeps_inv: "sup_order u u' \<Longrightarrow> sup_inv c u \<Longrightarrow> sup_inv (Suc c) u'"
  by (induction rule: sup_order.induct) (auto simp: sup_inv_def alive_def)

section \<open>How many messages there can be\<close>

lemma length_by_group:
  assumes "finite S" "f ` set xs \<subseteq> S"
  shows "length xs = (\<Sum>k\<in>S. length (filter (\<lambda>x. f x = k) xs))"
  using assms(2)
proof (induction xs)
  case (Cons x xs)
  have "(\<Sum>k\<in>S. length (filter (\<lambda>y. f y = k) (x # xs))) = (\<Sum>k\<in>S. (if k = f x then 1 else 0) + length (filter (\<lambda>y. f y = k) xs))"
    by (rule sum.cong) auto
  also have "\<dots> = 1 + length xs" using Cons assms(1) by (simp add: sum.distrib sum.delta)
  finally show ?case by simp
qed simp

text \<open>A child's life takes room for two messages.\<close>

lemma inbox_bound:
  assumes "sup_inv c u"
  shows "length (su_inbox u) + 2 * length (su_todo u) \<le> 2 * card (su_children u) + c"
proof -
  let ?S = "su_children u"
  have S: "finite ?S" "0 \<notin> ?S" using assms by (simp_all add: sup_inv_def)
  have "length (su_inbox u) = (\<Sum>k\<in>insert 0 ?S. length (mails k (su_inbox u)))"
    using length_by_group [of "insert 0 ?S" snd "su_inbox u"] S assms by (simp add: sup_inv_def mails_def)
  then have inbox: "length (su_inbox u) = length (mails 0 (su_inbox u)) + (\<Sum>k\<in>?S. length (mails k (su_inbox u)))"
    using S by simp
  have "length (su_todo u) = (\<Sum>k\<in>?S. count_list (su_todo u) k)"
    using length_by_group [of ?S "\<lambda>x. x" "su_todo u"] S(1) assms by (simp add: sup_inv_def count_list_eq_length_filter eq_commute)
  then have "2 * length (su_todo u) = (\<Sum>k\<in>?S. 2 * count_list (su_todo u) k)" by (simp add: sum_distrib_left)
  moreover have "(\<Sum>k\<in>?S. length (mails k (su_inbox u)) + 2 * count_list (su_todo u) k) \<le> (\<Sum>k\<in>?S. 2)"
    using assms by (intro sum_mono) (auto simp: sup_inv_def alive_def)
  ultimately show ?thesis using inbox assms by (simp add: sum.distrib sup_inv_def)
qed

section \<open>Stopping\<close>

text \<open>What is left to do once an order to stop has been given; every step of work takes from it.\<close>

definition work_left :: "supervisor \<Rightarrow> nat" where
  "work_left u = 3 * length (su_todo u) + length (su_inbox u)"

lemma work_decreases: "sup_work u u' \<Longrightarrow> \<not> su_running u \<Longrightarrow> work_left u' < work_left u \<and> \<not> su_running u'"
  by (induction rule: sup_work.induct) (simp_all add: work_left_def)

text \<open>Nobody runs, and the supervisor has ended or has nothing to read.\<close>

definition quiet :: "supervisor \<Rightarrow> bool" where
  "quiet u \<longleftrightarrow> su_todo u = [] \<and> (su_ended u \<or> su_inbox u = [])"

lemma quiet_stopped_ended:
  assumes "sup_inv c u" "\<not> su_running u" "quiet u"
  shows "su_ended u \<and> su_children u = {}"
proof -
  have "su_ended u"
  proof (rule ccontr)
    assume "\<not> su_ended u"
    then have "su_inbox u = []" "su_todo u = []" using assms(3) by (simp_all add: quiet_def)
    then have "su_children u = {}" using assms(1) by (auto simp: sup_inv_def alive_def)
    then show False using assms(1,2) \<open>\<not> su_ended u\<close> \<open>su_inbox u = []\<close> by (simp add: sup_inv_def)
  qed
  then show ?thesis using assms(1) by (simp add: sup_inv_def)
qed

end
