(* ===== verification/Whole_System.thy ===== *)
theory Whole_System
  imports Event_Rounds Actor_Module Supervisor_Spec Schedules
begin

text \<open>
  The running program: the supervisor, the event bus, the module coroutines that are enqueued, and the commands that arrive from
  outside, interleaved in any order. The theorems are that, as long as no module is reloaded and the
  supervisor's mailbox is large enough for the modules and the commands, the program never faults, does only what theory
  \<open>Supervisor_Spec\<close> allows, and ends after an order to shut down.
\<close>

section \<open>The system\<close>

text \<open>
  \<open>sy_todo\<close> are the enqueued coroutines of modules, all of them \<^verbatim>\<open>GateWayActor\<close>s, that have not run; \<open>sy_ended\<close> says that the
  supervisor's coroutine has returned.
\<close>

record system =
  sy_mgr :: manager
  sy_bus :: event_bus
  sy_todo :: "launch list"
  sy_ended :: bool

datatype sys_action = RunModule nat | RunManager | CmdReload string | CmdRemove string | CmdShutdown

text \<open>The supervisor's new state; what it has enqueued is there to be run.\<close>

definition put_mgr :: "manager \<Rightarrow> system \<Rightarrow> system" where
  "put_mgr s y = y\<lparr>sy_mgr := s, sy_todo := sy_todo y @ drop (length (am_enqueued (sy_mgr y))) (am_enqueued s)\<rparr>"

text \<open>
  A worker runs an enqueued module up to its end, a worker runs a round of the supervisor's event loop, or a signal brings a
  command. No sender interferes with a module's receive loop here, so more rounds than its mailbox has places are enough.
\<close>

fun sys_act :: "manager_env \<Rightarrow> sys_action \<Rightarrow> system \<Rightarrow> system run" where
  "sys_act env (RunModule i) y =
     (if i < length (sy_todo y)
      then run_bind (launch_actor env 257 GateWayActor_vtable True (sy_todo y ! i) (sy_mgr y) (sy_bus y)) (\<lambda>(ended, s, eb).
             run_ret (put_mgr s (y\<lparr>sy_bus := eb, sy_todo := take i (sy_todo y) @ drop (Suc i) (sy_todo y)\<rparr>)))
      else run_ret y)"
| "sys_act env RunManager y =
     (if sy_ended y then run_ret y
      else run_bind (event_round env (sy_mgr y)) (\<lambda>(r, s). run_ret (put_mgr s (y\<lparr>sy_ended := (r = Some True)\<rparr>))))"
| "sys_act env (CmdReload name) y = run_bind (ReloadModule env name (sy_mgr y)) (\<lambda>s. run_ret (put_mgr s y))"
| "sys_act env (CmdRemove name) y = run_bind (RemoveModule env name (sy_mgr y)) (\<lambda>s. run_ret (put_mgr s y))"
| "sys_act env CmdShutdown y = run_bind (Shutdown env (sy_mgr y)) (\<lambda>s. run_ret (put_mgr s y))"

fun sys_run :: "manager_env \<Rightarrow> sys_action list \<Rightarrow> system \<Rightarrow> system run" where
  "sys_run env [] y = run_ret y"
| "sys_run env (a # acts) y = run_bind (sys_act env a y) (sys_run env acts)"

text \<open>\<^verbatim>\<open>main\<close> calls \<^verbatim>\<open>EventLoop\<close>; the model starts when that has loaded the modules.\<close>

definition program_start :: "manager_env \<Rightarrow> ac_config \<Rightarrow> handle \<Rightarrow> system run" where
  "program_start env cfg h =
     run_bind (manager_new cfg) (\<lambda>s. run_bind (EventLoop_start env h s) (\<lambda>s.
       run_ret \<lparr>sy_mgr = s, sy_bus = event_bus_new, sy_todo = am_enqueued s, sy_ended = False\<rparr>))"

text \<open>Work there is to do: a module that can run, a message the supervisor can read.\<close>

fun sys_enabled :: "sys_action \<Rightarrow> system \<Rightarrow> bool" where
  "sys_enabled (RunModule i) y = (i < length (sy_todo y))"
| "sys_enabled RunManager y =
     (\<not> sy_ended y \<and> (case receive_next (sy_mgr y) of Some (Inr (Some msg, s)) \<Rightarrow> True | _ \<Rightarrow> False))"
| "sys_enabled _ y = False"

definition sys_work :: "manager_env \<Rightarrow> sys_action \<Rightarrow> system \<Rightarrow> system \<Rightarrow> bool" where
  "sys_work env a y y' \<longleftrightarrow> sys_enabled a y \<and> sys_act env a y = Some (Inr y')"

text \<open>A schedule of such work.\<close>

fun sys_works :: "manager_env \<Rightarrow> sys_action list \<Rightarrow> system \<Rightarrow> system \<Rightarrow> bool" where
  "sys_works env [] y y' = (y' = y)"
| "sys_works env (a # acts) y y' = (\<exists>z. sys_work env a y z \<and> sys_works env acts z y')"

interpretation workers: schedules "sys_work env" "sys_works env" for env
  by unfold_locales simp_all

interpretation program: schedules "\<lambda>a y y'. sys_act env a y = Some (Inr y')" "\<lambda>acts y y'. sys_run env acts y = Some (Inr y')" for env
  by unfold_locales (auto simp: run_ret_def run_bind_Inr_iff)

section \<open>The supervisor of the specification\<close>

definition view :: "system \<Rightarrow> (EventType \<times> size_t) list \<Rightarrow> supervisor" where
  "view y inbox =
     \<lparr>su_running = am_is_running (sy_mgr y), su_ended = sy_ended y, su_children = keys (sy_mgr y),
      su_stopping = am_pending_stop (sy_mgr y), su_restarting = am_pending_restart (sy_mgr y), su_inbox = inbox,
      su_todo = map la_actor_id (sy_todo y)\<rparr>"

definition sim_at :: "manager_env \<Rightarrow> nat \<Rightarrow> addr list list \<Rightarrow> (EventType \<times> size_t) list \<Rightarrow> system \<Rightarrow> bool" where
  "sim_at env b contents inbox y \<longleftrightarrow>
     accounts (env_frames env) b contents {#} (sy_mgr y) \<and> mgr_wf (sy_mgr y)
     \<and> am_pending_reload (sy_mgr y) = {} \<and> am_main_latch (sy_mgr y) = (if sy_ended y then 0 else 1)
     \<and> (\<forall>t\<in>set (sy_todo y). ready (la_module t) \<and> la_mailbox t < length (am_boxes (sy_mgr y)))
     \<and> map (letter (am_store (sy_mgr y))) (contents ! am_mailbox (sy_mgr y)) = map Some inbox"

text \<open>The system is in order, can take \<open>b\<close> more operations on its mailboxes, and looks like \<open>u\<close>.\<close>

definition sim :: "manager_env \<Rightarrow> nat \<Rightarrow> system \<Rightarrow> supervisor \<Rightarrow> bool" where
  "sim env b y u \<longleftrightarrow> (\<exists>contents inbox. sim_at env b contents inbox y \<and> u = view y inbox)"

lemma sim_mono: "sim env b y u \<Longrightarrow> b' \<le> b \<Longrightarrow> sim env b' y u"
  unfolding sim_def sim_at_def using accounts_mono by blast

lemma sim_atD:
  assumes "sim_at env b contents inbox y"
  shows "accounts (env_frames env) b contents {#} (sy_mgr y)" "mgr_wf (sy_mgr y)" "am_mailbox (sy_mgr y) < length contents"
    "am_mailbox (sy_mgr y) < length (am_boxes (sy_mgr y))" "length (contents ! am_mailbox (sy_mgr y)) = length inbox"
  using assms by (auto simp: sim_at_def accounts_def mgr_wf_def dest: map_eq_imp_length_eq)

text \<open>A new state of the supervisor, known up to the contents of its mailboxes and messages.\<close>

lemma sim_put:
  assumes old: "sim_at env b0 contents inbox y"
    and acc: "accounts (env_frames env) b contents' {#} s'" and core: "mgr_core s' = mgr_core t"
    and le: "store_le (am_store (sy_mgr y)) (am_store s')" and t: "mgr_wf t" "am_pending_reload t = {}" "am_mailbox t = am_mailbox (sy_mgr y)"
    and latch: "am_main_latch t = (if fin then 0 else 1)" and boxes: "length (am_boxes t) = length (am_boxes (sy_mgr y))"
    and tasks: "am_enqueued t = am_enqueued (sy_mgr y) @ new"
      "\<forall>t\<in>set (todo @ new). ready (la_module t) \<and> la_mailbox t < length (am_boxes (sy_mgr y))"
    and inbox: "contents' ! am_mailbox (sy_mgr y) = older @ sent" "map (letter (am_store (sy_mgr y))) older = map Some ls"
      "map (letter (am_store s')) sent = map Some ls'"
  shows "sim env b (put_mgr s' (y\<lparr>sy_bus := eb, sy_todo := todo, sy_ended := fin\<rparr>))
     \<lparr>su_running = am_is_running t, su_ended = fin, su_children = keys t, su_stopping = am_pending_stop t,
      su_restarting = am_pending_restart t, su_inbox = ls @ ls', su_todo = map la_actor_id (todo @ new)\<rparr>"
proof -
  let ?y = "put_mgr s' (y\<lparr>sy_bus := eb, sy_todo := todo, sy_ended := fin\<rparr>)"
  have todo: "sy_todo ?y = todo @ new" using core tasks(1) by (simp add: put_mgr_def mgr_core_def)
  have mgr: "sy_mgr ?y = s'" "sy_ended ?y = fin" by (simp_all add: put_mgr_def)
  have "mgr_wf s'" using mgr_wf_core [OF core] t(1) by simp
  moreover have "am_mailbox (sy_mgr y) < length contents'"
    using acc sim_atD(4) [OF old] core boxes by (simp add: accounts_def mgr_core_def)
  then have "map (letter (am_store s')) older = map Some ls"
    using letters_kept [OF sim_atD(1) [OF old] acc le] inbox(1,2) by simp
  ultimately have "sim_at env b contents' (ls @ ls') ?y"
    using acc core t latch boxes tasks(2) inbox(1,3) unfolding sim_at_def todo mgr by (simp add: mgr_core_def)
  moreover have "view ?y (ls @ ls') = \<lparr>su_running = am_is_running t, su_ended = fin, su_children = keys t, su_stopping = am_pending_stop t,
      su_restarting = am_pending_restart t, su_inbox = ls @ ls', su_todo = map la_actor_id (todo @ new)\<rparr>"
    using core unfolding view_def todo mgr by (simp add: mgr_core_def keys_def)
  ultimately show ?thesis unfolding sim_def by metis
qed


section \<open>Each action is a step of the specification\<close>

lemma sim_child:
  assumes sim: "sim env (Suc (Suc b)) y u" and i: "i < length (sy_todo y)" and room: "length (su_inbox u) + 1 < 256"
  shows "\<exists>y' u'. sys_act env (RunModule i) y = Some (Inr y') \<and> sup_work u u' \<and> sim env b y' u'"
proof -
  let ?s = "sy_mgr y" and ?la = "sy_todo y ! i" and ?todo = "take i (sy_todo y) @ drop (Suc i) (sy_todo y)"
  let ?mb = "am_mailbox ?s" and ?k = "la_actor_id (sy_todo y ! i)"
  obtain contents inbox where at: "sim_at env (Suc (Suc b)) contents inbox y" "u = view y inbox" using sim by (auto simp: sim_def)
  note D = sim_atD [OF at(1)]
  have la: "ready (la_module ?la)" "la_mailbox ?la < length (am_boxes ?s)" using at(1) i by (simp_all add: sim_at_def)
  have room': "length (contents ! ?mb) + 1 < 256" using room D(5) at(2) by (simp add: view_def)
  obtain s' eb' c e where s': "launch_actor env 257 GateWayActor_vtable True ?la ?s (sy_bus y) = Some (Inr (True, s', eb'))"
    "accounts (env_frames env) b (contents[?mb := contents ! ?mb @ [c, e]]) {#} s'" "mgr_core s' = mgr_core ?s"
    "letter (am_store s') c = Some (kEventCrashReport, ?k)" "letter (am_store s') e = Some (kEventModuleExited, ?k)"
    "store_le (am_store ?s) (am_store s')"
    using launch_gateway [where n = 257 and eb = "sy_bus y", OF D(1,2) la room'] by auto
  let ?y = "put_mgr s' (y\<lparr>sy_bus := eb', sy_todo := ?todo, sy_ended := sy_ended y\<rparr>)"
  have "sys_act env (RunModule i) y = Some (Inr ?y)" using i s'(1) by (simp add: run_simps run_ret_def)
  moreover have "set ?todo \<subseteq> set (sy_todo y)" using set_take_subset set_drop_subset by fastforce
  then have "sim env b ?y \<lparr>su_running = am_is_running ?s, su_ended = sy_ended y, su_children = keys ?s, su_stopping = am_pending_stop ?s,
      su_restarting = am_pending_restart ?s, su_inbox = inbox @ [(kEventCrashReport, ?k), (kEventModuleExited, ?k)],
      su_todo = map la_actor_id (?todo @ [])\<rparr>"
    using at(1) s'(4,5) D(3)
    by (intro sim_put [OF at(1) s'(2,3,6) D(2), where older = "contents ! ?mb" and sent = "[c, e]"]) (auto simp: sim_at_def)
  moreover have "sup_work u \<lparr>su_running = am_is_running ?s, su_ended = sy_ended y, su_children = keys ?s, su_stopping = am_pending_stop ?s,
      su_restarting = am_pending_restart ?s, su_inbox = inbox @ [(kEventCrashReport, ?k), (kEventModuleExited, ?k)],
      su_todo = map la_actor_id (?todo @ [])\<rparr>"
    using sup_work.child_runs [of u "map la_actor_id (take i (sy_todo y))" ?k "map la_actor_id (drop (Suc i) (sy_todo y))"]
      id_take_nth_drop [OF i] at(2) by (simp add: view_def) (metis list.simps(9) map_append)
  ultimately show ?thesis by blast
qed


text \<open>A round that has handled the oldest message.\<close>

lemma sim_round:
  assumes at: "sim_at env b0 contents (x # ls) y" and ended: "\<not> sy_ended y" and head: "contents ! am_mailbox (sy_mgr y) = a # rest"
    and round: "event_round env (sy_mgr y) = Some (Inr (Some fin, s'))" "accounts (env_frames env) b contents' {#} s'"
      "contents' ! am_mailbox (sy_mgr y) = rest" "mgr_core s' = mgr_core t" "store_le (am_store (sy_mgr y)) (am_store s')"
    and t: "mgr_wf t" "am_pending_reload t = {}" "am_mailbox t = am_mailbox (sy_mgr y)" "am_main_latch t = (if fin then 0 else 1)"
      "length (am_boxes t) = length (am_boxes (sy_mgr y))" "am_enqueued t = am_enqueued (sy_mgr y) @ new"
      "\<forall>t\<in>set new. ready (la_module t) \<and> la_mailbox t < length (am_boxes (sy_mgr y))"
  shows "\<exists>y'. sys_act env RunManager y = Some (Inr y') \<and> sim env b y'
     \<lparr>su_running = am_is_running t, su_ended = fin, su_children = keys t, su_stopping = am_pending_stop t,
      su_restarting = am_pending_restart t, su_inbox = ls, su_todo = map la_actor_id (sy_todo y @ new)\<rparr>"
proof -
  let ?y = "put_mgr s' (y\<lparr>sy_bus := sy_bus y, sy_todo := sy_todo y, sy_ended := fin\<rparr>)"
  have "sys_act env RunManager y = Some (Inr ?y)" using round(1) ended by (simp add: run_simps run_ret_def)
  moreover have "sim env b ?y
     \<lparr>su_running = am_is_running t, su_ended = fin, su_children = keys t, su_stopping = am_pending_stop t,
      su_restarting = am_pending_restart t, su_inbox = ls @ [], su_todo = map la_actor_id (sy_todo y @ new)\<rparr>"
    using at head t round(3)
    by (intro sim_put [OF at round(2,4,5) t(1-6), where older = rest and sent = "[]"]) (auto simp: sim_at_def)
  ultimately show ?thesis by auto
qed

lemma view_sel:
  "su_running (view y inbox) = am_is_running (sy_mgr y)" "su_ended (view y inbox) = sy_ended y"
  "su_children (view y inbox) = keys (sy_mgr y)" "su_stopping (view y inbox) = am_pending_stop (sy_mgr y)"
  "su_restarting (view y inbox) = am_pending_restart (sy_mgr y)" "su_inbox (view y inbox) = inbox"
  "su_todo (view y inbox) = map la_actor_id (sy_todo y)"
  by (simp_all add: view_def)

text \<open>What the rounds find: the supervisor is in order, its oldest message has type \<open>type\<close> and sender \<open>k\<close>.\<close>

lemma sim_crash:
  assumes at: "sim_at env (Suc b) contents ((kEventCrashReport, k) # ls) y" and ended: "\<not> sy_ended y" and k: "k \<in> keys (sy_mgr y)"
  shows "\<exists>y' u'. sys_act env RunManager y = Some (Inr y') \<and> sup_work (view y ((kEventCrashReport, k) # ls)) u' \<and> sim env b y' u'"
proof -
  let ?s = "sy_mgr y"
  note D = sim_atD [OF at]
  obtain a rest where head: "contents ! am_mailbox ?s = a # rest" "letter (am_store ?s) a = Some (kEventCrashReport, k)"
    using at by (auto simp: sim_at_def)
  let ?r = "if am_is_running ?s \<and> k \<notin> am_pending_reload ?s \<and> k \<notin> am_pending_stop ?s then insert k (am_pending_restart ?s) else am_pending_restart ?s"
  let ?t = "?s\<lparr>am_pending_restart := ?r\<rparr>"
  obtain s' where s': "event_round env ?s = Some (Inr (Some False, s'))"
    "accounts (env_frames env) b (contents[am_mailbox ?s := rest]) {#} s'" "mgr_core s' = mgr_core ?t"
    "store_le (am_store ?s) (am_store s')"
    using round_crash [OF D(1,2) head k] by blast
  have "mgr_wf ?t" using D(2) k by (auto simp: mgr_wf_def child_ok_def keys_def)
  then obtain y' where y': "sys_act env RunManager y = Some (Inr y')" "sim env b y'
     \<lparr>su_running = am_is_running ?t, su_ended = False, su_children = keys ?t, su_stopping = am_pending_stop ?t,
      su_restarting = am_pending_restart ?t, su_inbox = ls, su_todo = map la_actor_id (sy_todo y @ [])\<rparr>"
    using sim_round [OF at ended head(1) s'(1,2) _ s'(3,4), of "[]"] at D(3) ended by (auto simp: sim_at_def)
  moreover have "sup_work (view y ((kEventCrashReport, k) # ls))
     \<lparr>su_running = am_is_running ?t, su_ended = False, su_children = keys ?t, su_stopping = am_pending_stop ?t,
      su_restarting = am_pending_restart ?t, su_inbox = ls, su_todo = map la_actor_id (sy_todo y @ [])\<rparr>"
    using sup_work.crash [of "view y ((kEventCrashReport, k) # ls)" k ls] at k ended
    by (cases "am_is_running ?s \<and> k \<notin> am_pending_stop ?s") (auto simp: view_def sim_at_def keys_def)
  ultimately show ?thesis by blast
qed

lemma sim_exited:
  assumes at: "sim_at env (Suc b) contents ((kEventModuleExited, k) # ls) y" and ended: "\<not> sy_ended y" and k: "k \<in> keys (sy_mgr y)"
  shows "\<exists>y' u'. sys_act env RunManager y = Some (Inr y') \<and> sup_work (view y ((kEventModuleExited, k) # ls)) u' \<and> sim env b y' u'"
proof -
  let ?s = "sy_mgr y" and ?u = "view y ((kEventModuleExited, k) # ls)"
  note D = sim_atD [OF at]
  obtain a rest where head: "contents ! am_mailbox ?s = a # rest" "letter (am_store ?s) a = Some (kEventModuleExited, k)"
    using at by (auto simp: sim_at_def)
  obtain md where md: "find_child k (am_childrens ?s) = Some md" using k find_child_keys by blast
  then have child: "child_ok ?s (k, md)" using D(2) unfolding mgr_wf_def find_child_def by (blast dest: map_of_SomeD)
  have reload: "k \<notin> am_pending_reload ?s" using at by (simp add: sim_at_def)
  show ?thesis
  proof (cases "am_is_running ?s \<and> k \<in> am_pending_restart ?s \<and> k \<notin> am_pending_stop ?s")
    case True
    obtain creator where creator: "md_creator md = Some creator" "ready creator" using child by (auto simp: child_ok_def)
    let ?task = "call_creator creator (md_actor_id md) (md_mailbox md)"
    let ?t = "enqueue_tasks [?task] (?s\<lparr>am_pending_restart := am_pending_restart ?s - {k}\<rparr>)"
    obtain s' where s': "event_round env ?s = Some (Inr (Some False, s'))"
      "accounts (env_frames env) b (contents[am_mailbox ?s := rest]) {#} s'" "mgr_core s' = mgr_core ?t"
      "store_le (am_store ?s) (am_store s')"
      using round_restart [OF D(1,2) head md creator(1)] True reload by blast
    have "mgr_wf ?t" using D(2) by (auto simp: mgr_wf_def child_ok_def keys_def enqueue_tasks_def)
    moreover have "\<forall>t\<in>set [?task]. ready (la_module t) \<and> la_mailbox t < length (am_boxes ?s)" "la_actor_id ?task = k"
      using child creator by (auto simp: call_creator_def child_ok_def)
    ultimately obtain y' where "sys_act env RunManager y = Some (Inr y')" "sim env b y'
       \<lparr>su_running = am_is_running ?t, su_ended = False, su_children = keys ?t, su_stopping = am_pending_stop ?t,
        su_restarting = am_pending_restart ?t, su_inbox = ls, su_todo = map la_actor_id (sy_todo y @ [?task])\<rparr>"
      using sim_round [OF at ended head(1) s'(1,2) _ s'(3,4), of "[?task]"] at D(3) ended by (auto simp: sim_at_def enqueue_tasks_def)
    moreover have "sup_work ?u
       \<lparr>su_running = am_is_running ?t, su_ended = False, su_children = keys ?t, su_stopping = am_pending_stop ?t,
        su_restarting = am_pending_restart ?t, su_inbox = ls, su_todo = map la_actor_id (sy_todo y @ [?task])\<rparr>"
      using sup_work.restart [of ?u k ls] k True ended \<open>la_actor_id ?task = k\<close> by (simp add: view_def enqueue_tasks_def keys_def)
    ultimately show ?thesis by blast
  next
    case False
    let ?e = "erase_child k (forget_pending k ?s)" and ?fin = "\<not> am_is_running ?s \<and> keys ?s = {k}"
    let ?t = "if ?fin then count_down ?e else ?e"
    obtain s' where s': "event_round env ?s = Some (Inr (Some ?fin, s'))"
      "accounts (env_frames env) b (contents[am_mailbox ?s := rest]) {#} s'" "mgr_core s' = mgr_core ?t"
      "store_le (am_store ?s) (am_store s')"
      using round_gone [OF D(1,2) head k reload False] by blast
    have t: "mgr_wf ?t" "keys ?t = keys ?s - {k}" "am_is_running ?t = am_is_running ?s" "am_pending_stop ?t = am_pending_stop ?s - {k}"
      "am_pending_restart ?t = am_pending_restart ?s - {k}" "am_pending_reload ?t = {}" "am_mailbox ?t = am_mailbox ?s"
      "am_main_latch ?t = (if ?fin then 0 else 1)" "length (am_boxes ?t) = length (am_boxes ?s)" "am_enqueued ?t = am_enqueued ?s @ []"
      using mgr_wf_erase [OF D(2), of k] keys_erase [of k ?s] at ended
      by (auto simp: mgr_wf_def child_ok_def keys_def count_down_def erase_child_def forget_pending_def sim_at_def)
    have rest: "(contents[am_mailbox ?s := rest]) ! am_mailbox ?s = rest" using D(3) by simp
    obtain y' where "sys_act env RunManager y = Some (Inr y')" "sim env b y'
       \<lparr>su_running = am_is_running ?s, su_ended = ?fin, su_children = keys ?s - {k}, su_stopping = am_pending_stop ?s - {k},
        su_restarting = am_pending_restart ?s - {k}, su_inbox = ls, su_todo = map la_actor_id (sy_todo y @ [])\<rparr>"
      using sim_round [OF at ended head(1) s'(1,2) rest s'(3,4) t(1,6-10)] unfolding t(2-5) by auto
    moreover have "?fin \<longleftrightarrow> \<not> am_is_running ?s \<and> keys ?s - {k} = {}" using k by auto
    then have "sup_work ?u
       \<lparr>su_running = am_is_running ?s, su_ended = ?fin, su_children = keys ?s - {k}, su_stopping = am_pending_stop ?s - {k},
        su_restarting = am_pending_restart ?s - {k}, su_inbox = ls, su_todo = map la_actor_id (sy_todo y @ [])\<rparr>"
      using sup_work.gone [of ?u k ls] k False ended by (simp add: view_def)
    ultimately show ?thesis by blast
  qed
qed


lemma sim_stop_all:
  assumes at: "sim_at env (Suc (length (am_childrens (sy_mgr y)) + b)) contents ((kEventCmdExit, 0) # ls) y" and ended: "\<not> sy_ended y"
    and lim: "length (am_childrens (sy_mgr y)) < index_limit"
  shows "\<exists>y' u'. sys_act env RunManager y = Some (Inr y') \<and> sup_work (view y ((kEventCmdExit, 0) # ls)) u' \<and> sim env b y' u'"
proof -
  let ?s = "sy_mgr y"
  note D = sim_atD [OF at]
  obtain a rest where head: "contents ! am_mailbox ?s = a # rest" "letter (am_store ?s) a = Some (kEventCmdExit, 0)"
    using at by (auto simp: sim_at_def)
  let ?m = "?s\<lparr>am_pending_stop := am_pending_stop ?s \<union> keys ?s, am_pending_restart := am_pending_restart ?s - keys ?s\<rparr>"
  let ?t = "if am_childrens ?s = [] then count_down ?m else ?m"
  obtain s' contents' where s': "event_round env ?s = Some (Inr (Some (am_childrens ?s = []), s'))"
    "accounts (env_frames env) b contents' {#} s'" "contents' ! am_mailbox ?s = rest" "mgr_core s' = mgr_core ?t"
    "store_le (am_store ?s) (am_store s')"
    using round_stop_all [OF D(1,2) head lim] by blast
  have t: "mgr_wf ?t" "am_pending_reload ?t = {}" "am_mailbox ?t = am_mailbox ?s" "am_main_latch ?t = (if am_childrens ?s = [] then 0 else 1)"
    "length (am_boxes ?t) = length (am_boxes ?s)" "am_enqueued ?t = am_enqueued ?s @ []" "keys ?t = keys ?s" "am_is_running ?t = am_is_running ?s"
    "am_pending_stop ?t = am_pending_stop ?s \<union> keys ?s" "am_pending_restart ?t = am_pending_restart ?s - keys ?s"
    using D(2) at ended by (auto simp: mgr_wf_def child_ok_def keys_def count_down_def sim_at_def)
  obtain y' where "sys_act env RunManager y = Some (Inr y')" "sim env b y'
     \<lparr>su_running = am_is_running ?s, su_ended = (am_childrens ?s = []), su_children = keys ?s, su_stopping = am_pending_stop ?s \<union> keys ?s,
      su_restarting = am_pending_restart ?s - keys ?s, su_inbox = ls, su_todo = map la_actor_id (sy_todo y @ [])\<rparr>"
    using sim_round [OF at ended head(1) s' t(1-6)] unfolding t(7-10) by auto
  moreover have "sup_work (view y ((kEventCmdExit, 0) # ls))
     \<lparr>su_running = am_is_running ?s, su_ended = (am_childrens ?s = []), su_children = keys ?s, su_stopping = am_pending_stop ?s \<union> keys ?s,
      su_restarting = am_pending_restart ?s - keys ?s, su_inbox = ls, su_todo = map la_actor_id (sy_todo y @ [])\<rparr>"
    using sup_work.stop_all [of "view y ((kEventCmdExit, 0) # ls)" ls] ended keys_empty [of ?s] by (simp add: view_def)
  ultimately show ?thesis by blast
qed

lemma sim_remove:
  assumes at: "sim_at env (Suc (Suc b)) contents ((kEventCmdModuleRemove, 0) # ls) y" and ended: "\<not> sy_ended y"
  shows "\<exists>y' u'. sys_act env RunManager y = Some (Inr y') \<and> sup_work (view y ((kEventCmdModuleRemove, 0) # ls)) u' \<and> sim env b y' u'"
proof -
  let ?s = "sy_mgr y" and ?u = "view y ((kEventCmdModuleRemove, 0) # ls)"
  note D = sim_atD [OF at]
  obtain a rest where head: "contents ! am_mailbox ?s = a # rest" "letter (am_store ?s) a = Some (kEventCmdModuleRemove, 0)"
    using at by (auto simp: sim_at_def)
  obtain s' t contents' where s': "event_round env ?s = Some (Inr (Some False, s'))"
    "accounts (env_frames env) b contents' {#} s'" "contents' ! am_mailbox ?s = rest" "mgr_core s' = mgr_core t"
    "store_le (am_store ?s) (am_store s')" "t = ?s \<or> (\<exists>k\<in>keys ?s. t = mark_stop k ?s)"
    using round_remove [OF D(1,2) head] by blast
  have t: "mgr_wf t" "am_pending_reload t = {}" "am_mailbox t = am_mailbox ?s" "am_main_latch t = (if False then 0 else 1)"
    "length (am_boxes t) = length (am_boxes ?s)" "am_enqueued t = am_enqueued ?s @ []"
    using s'(6) D(2) mgr_wf_mark_stop at ended by (auto simp: mark_stop_def sim_at_def)
  obtain y' where "sys_act env RunManager y = Some (Inr y')" "sim env b y'
     \<lparr>su_running = am_is_running t, su_ended = False, su_children = keys t, su_stopping = am_pending_stop t,
      su_restarting = am_pending_restart t, su_inbox = ls, su_todo = map la_actor_id (sy_todo y @ [])\<rparr>"
    using sim_round [OF at ended head(1) s'(1-5) t] by auto
  moreover have "sup_work ?u
     \<lparr>su_running = am_is_running t, su_ended = False, su_children = keys t, su_stopping = am_pending_stop t,
      su_restarting = am_pending_restart t, su_inbox = ls, su_todo = map la_actor_id (sy_todo y @ [])\<rparr>"
    using s'(6)
  proof (elim disjE bexE)
    assume "t = ?s"
    then show ?thesis using sup_work.remove_unknown [of ?u ls] ended by (simp add: view_def)
  next
    fix k
    assume "k \<in> keys ?s" "t = mark_stop k ?s"
    then show ?thesis using sup_work.remove [of ?u ls k] ended by (simp add: view_def mark_stop_def keys_def)
  qed
  ultimately show ?thesis by blast
qed

text \<open>A round of the supervisor, whatever is in its mailbox.\<close>

lemma sim_manager:
  assumes sim: "sim env (256 + b) y u" and inv: "sup_inv c u" and few: "2 * card (su_children u) + c \<le> 256" and ended: "\<not> su_ended u"
    and inbox: "su_inbox u \<noteq> []"
  shows "\<exists>y' u'. sys_act env RunManager y = Some (Inr y') \<and> sup_work u u' \<and> sim env b y' u'"
proof -
  obtain contents inbox where at: "sim_at env (256 + b) contents inbox y" and u: "u = view y inbox" using sim by (auto simp: sim_def)
  obtain type k ls where ls: "inbox = (type, k) # ls" using inbox u by (cases inbox) (auto simp: view_def)
  have ended': "\<not> sy_ended y" using ended u by (simp add: view_def)
  have less: "sim_at env (b0 + b) contents inbox y" if "b0 \<le> 256" for b0
    using at that accounts_mono unfolding sim_at_def by (metis add_le_cancel_right)
  have len: "length (am_childrens (sy_mgr y)) \<le> 128"
    using few u length_childrens [OF sim_atD(2) [OF at]] by (simp add: view_def)
  show ?thesis
  proof (cases "k = 0")
    case True
    have "type \<in> {kEventCmdExit, kEventCmdModuleRemove}" using sup_invD(7) [OF inv] u ls True by (simp add: view_def)
    then show ?thesis
    proof (elim insertE emptyE)
      assume "type = kEventCmdExit"
      then show ?thesis
        using sim_stop_all [of env y b contents ls] less [of "Suc (length (am_childrens (sy_mgr y)))"] len ended' u ls True by simp
    next
      assume "type = kEventCmdModuleRemove"
      then show ?thesis using sim_remove [of env b contents ls y] less [of 2] ended' u ls True by simp
    qed
  next
    case False
    have "su_inbox u = (type, k) # ls" using u ls by (simp add: view_def)
    note life = alive_inbox [OF inv this False]
    have k: "k \<in> keys (sy_mgr y)" using life(1) u by (simp add: view_def)
    have at1: "sim_at env (Suc b) contents inbox y" using less [of 1] by simp
    show ?thesis using life(3) sim_crash [OF _ ended' k] sim_exited [OF _ ended' k] at1 u ls by blast
  qed
qed


text \<open>Rounds and runs with nothing to do.\<close>

lemma sim_idle:
  assumes sim: "sim env (Suc b) y u" and idle: "su_ended u \<or> su_inbox u = []"
  shows "\<exists>y'. sys_act env RunManager y = Some (Inr y') \<and> sim env b y' u"
proof (cases "sy_ended y")
  case True
  then show ?thesis using sim_mono [OF sim, of b] by (simp add: run_ret_def)
next
  case False
  obtain contents inbox where at: "sim_at env (Suc b) contents inbox y" and u: "u = view y inbox" using sim by (auto simp: sim_def)
  note D = sim_atD [OF at]
  have inbox: "inbox = []" using idle False u by (simp add: view_def)
  then have empty: "contents ! am_mailbox (sy_mgr y) = []" using D(5) by simp
  obtain s' where s': "event_round env (sy_mgr y) = Some (Inr (None, s'))" "accounts (env_frames env) b contents {#} s'"
    "mgr_core s' = mgr_core (sy_mgr y)" "am_store s' = am_store (sy_mgr y)"
    using round_empty [OF D(1,2) empty] by blast
  let ?y = "put_mgr s' (y\<lparr>sy_bus := sy_bus y, sy_todo := sy_todo y, sy_ended := False\<rparr>)"
  have "sys_act env RunManager y = Some (Inr ?y)" using s'(1) False by (simp add: run_simps run_ret_def)
  moreover have "sim env b ?y \<lparr>su_running = am_is_running (sy_mgr y), su_ended = False, su_children = keys (sy_mgr y),
      su_stopping = am_pending_stop (sy_mgr y), su_restarting = am_pending_restart (sy_mgr y), su_inbox = [] @ [],
      su_todo = map la_actor_id (sy_todo y @ [])\<rparr>"
    using at empty False s'(4)
    by (intro sim_put [OF at s'(2,3) _ D(2), where older = "[]" and sent = "[]"]) (auto simp: sim_at_def store_le_refl)
  ultimately show ?thesis using u inbox False by (simp add: view_def)
qed

section \<open>Commands\<close>

lemma command_explicit:
  fixes env :: manager_env
  assumes acc: "accounts (env_frames env) (Suc b) contents {#} s" and wf: "mgr_wf s" and room: "length (contents ! am_mailbox s) < 256"
  shows "\<exists>a s'. command_message env type name s = Some (Inr s')
     \<and> accounts (env_frames env) b (contents[am_mailbox s := contents ! am_mailbox s @ [a]]) {#} s'
     \<and> mgr_core s' = mgr_core s \<and> letter (am_store s') a = Some (type, 0) \<and> store_le (am_store s) (am_store s')"
proof -
  have mb: "am_mailbox s < length (am_boxes s)" using wf by (simp add: mgr_wf_def)
  obtain a st where new: "new_message 1 type 0 (am_store s) = (a, st)" by fastforce
  then obtain st' where set: "set_payload a name st = Inr st'"
    by (auto simp: new_message_def set_payload_def load_message_def)
  note made = create_payload_ok [OF acc new set]
  have "store_le (am_store s) st'"
    using new set by (auto simp: new_message_def set_payload_def load_message_def store_le_def same_body_def)
  moreover obtain s' where "send_to env a (am_mailbox s) (s\<lparr>am_store := st'\<rparr>) = Some (Inr s')"
    "accounts (env_frames env) b (contents[am_mailbox s := contents ! am_mailbox s @ [a]]) {#} s'"
    "mgr_core s' = mgr_core (s\<lparr>am_store := st'\<rparr>)" "am_store s' = st'"
    using send_new [OF made(1), of "am_mailbox s"] mb room by auto
  ultimately show ?thesis
    using new set made(2) by (intro exI [of _ a] exI [of _ s']) (simp add: command_message_def create_message_def run_simps mgr_core_def)
qed

lemma Shutdown_explicit:
  fixes env :: manager_env
  assumes acc: "accounts (env_frames env) (Suc b) contents {#} s" and wf: "mgr_wf s" and room: "length (contents ! am_mailbox s) < 256"
    and "am_is_running s"
  shows "\<exists>a s'. Shutdown env s = Some (Inr s')
     \<and> accounts (env_frames env) b (contents[am_mailbox s := contents ! am_mailbox s @ [a]]) {#} s'
     \<and> mgr_core s' = mgr_core (s\<lparr>am_is_running := False\<rparr>) \<and> letter (am_store s') a = Some (kEventCmdExit, 0)
     \<and> store_le (am_store s) (am_store s')"
proof -
  let ?s = "s\<lparr>am_is_running := False\<rparr>"
  have acc0: "accounts (env_frames env) (Suc b) contents {#} ?s" using acc by (simp add: accounts_def)
  obtain a s1 where new: "create_message (of_nat 1) kEventCmdExit 0 ?s = (a, s1)" by fastforce
  have one: "(0 :: nat) < 1" "(1 :: nat) < 2 ^ 64" by simp_all
  note s1 = create_message_ok [OF acc0 one new]
  have core: "am_mailbox s1 = am_mailbox s" "am_mailbox s < length (am_boxes s1)"
    using s1(2) wf by (simp_all add: mgr_core_def mgr_wf_def)
  have "accounts (env_frames env) (Suc b) contents (add_mset a {#}) s1" using s1(1) by simp
  then obtain s' where s': "send_to env a (am_mailbox s) s1 = Some (Inr s')"
    "accounts (env_frames env) b (contents[am_mailbox s := contents ! am_mailbox s @ [a]]) {#} s'" "mgr_core s' = mgr_core s1"
    "am_store s' = am_store s1"
    using send_new [OF _ core(2) room] by blast
  have "letter (am_store s1) a = Some (kEventCmdExit, 0)" using new by (auto simp: create_message_def new_message_def)
  then show ?thesis using s' s1(2,3) new core(1) assms(4) by (intro exI [of _ a] exI [of _ s']) (simp add: Shutdown_def)
qed

lemma sim_order:
  assumes sim: "sim env (Suc b) y u" and room: "length (su_inbox u) < 256" and a: "a = CmdShutdown \<or> (\<exists>name. a = CmdRemove name)"
  shows "\<exists>y' u'. sys_act env a y = Some (Inr y') \<and> sup_order u u' \<and> sim env b y' u'
     \<and> su_running u' = (su_running u \<and> a \<noteq> CmdShutdown)"
proof -
  let ?s = "sy_mgr y" and ?sent = "\<lambda>t. \<lambda>x. \<lparr>su_running = am_is_running t, su_ended = sy_ended y, su_children = keys t,
      su_stopping = am_pending_stop t, su_restarting = am_pending_restart t, su_inbox = x, su_todo = map la_actor_id (sy_todo y @ [])\<rparr>"
  obtain contents inbox where at: "sim_at env (Suc b) contents inbox y" and u: "u = view y inbox" using sim by (auto simp: sim_def)
  note D = sim_atD [OF at]
  have room': "length (contents ! am_mailbox ?s) < 256" using room u D(5) by (simp add: view_def)
  have keep: "y\<lparr>sy_bus := sy_bus y, sy_todo := sy_todo y, sy_ended := sy_ended y\<rparr> = y" by simp
  have result: "sim env b (put_mgr s' y) (?sent t (inbox @ [(type, 0)]))"
    if "accounts (env_frames env) b (contents[am_mailbox ?s := contents ! am_mailbox ?s @ [m]]) {#} s'" "mgr_core s' = mgr_core t"
      "store_le (am_store ?s) (am_store s')" "letter (am_store s') m = Some (type, 0)" "t = ?s\<lparr>am_is_running := r\<rparr>" for s' t m type r
  proof -
    have "mgr_wf t" using D(2) that(5) by (simp add: mgr_wf_def child_ok_def keys_def)
    then show ?thesis
      using at that(4,5) D(3)
      by (intro sim_put [OF at that(1-3), where older = "contents ! am_mailbox ?s" and sent = "[m]" and eb = "sy_bus y"
            and todo = "sy_todo y" and fin = "sy_ended y", unfolded keep]) (auto simp: sim_at_def)
  qed
  show ?thesis
    using a
  proof (elim disjE exE)
    assume a: "a = CmdShutdown"
    show ?thesis
    proof (cases "am_is_running ?s")
      case True
      obtain m s' where s': "Shutdown env ?s = Some (Inr s')"
        "accounts (env_frames env) b (contents[am_mailbox ?s := contents ! am_mailbox ?s @ [m]]) {#} s'"
        "mgr_core s' = mgr_core (?s\<lparr>am_is_running := False\<rparr>)" "letter (am_store s') m = Some (kEventCmdExit, 0)"
        "store_le (am_store ?s) (am_store s')"
        using Shutdown_explicit [OF D(1,2) room' True] by blast
      have "sup_order u (?sent (?s\<lparr>am_is_running := False\<rparr>) (inbox @ [(kEventCmdExit, 0)]))"
        using sup_order.order_stop [of u] True u by (simp add: view_def keys_def)
      then show ?thesis using result [OF s'(2,3,5,4) refl] s'(1) a by (auto simp: run_simps run_ret_def)
    next
      case False
      then have "sys_act env a y = Some (Inr (put_mgr ?s y))" using a by (simp add: Shutdown_def run_simps run_ret_def)
      moreover have "put_mgr ?s y = y" by (simp add: put_mgr_def)
      moreover have "sup_order u u" using sup_order.order_again [of u] False u by (simp add: view_def)
      ultimately show ?thesis using sim_mono [OF sim, of b] False u by (auto simp: view_def)
    qed
  next
    fix name
    assume a: "a = CmdRemove name"
    obtain m s' where s': "command_message env kEventCmdModuleRemove name ?s = Some (Inr s')"
      "accounts (env_frames env) b (contents[am_mailbox ?s := contents ! am_mailbox ?s @ [m]]) {#} s'"
      "mgr_core s' = mgr_core ?s" "letter (am_store s') m = Some (kEventCmdModuleRemove, 0)" "store_le (am_store ?s) (am_store s')"
      using command_explicit [OF D(1,2) room', of kEventCmdModuleRemove name] by blast
    have "?s = ?s\<lparr>am_is_running := am_is_running ?s\<rparr>" by simp
    note r = result [OF s'(2,3,5,4) this]
    have "sup_order u (?sent ?s (inbox @ [(kEventCmdModuleRemove, 0)]))"
      using sup_order.order_remove [of u] u by (simp add: view_def)
    then show ?thesis using r s'(1) a u by (intro exI conjI) (assumption | simp add: run_simps run_ret_def RemoveModule_def view_def)+
  qed
qed


section \<open>Schedules of the whole program\<close>

fun is_command :: "sys_action \<Rightarrow> bool" where
  "is_command (RunModule i) = False"
| "is_command RunManager = False"
| "is_command _ = True"

definition commands :: "sys_action list \<Rightarrow> nat" where
  "commands acts = length (filter is_command acts)"

text \<open>A step of the specification.\<close>

definition sup_step :: "supervisor \<Rightarrow> supervisor \<Rightarrow> bool" where
  "sup_step u u' \<longleftrightarrow> sup_work u u' \<or> sup_order u u'"

lemma work_children: "sup_work u u' \<Longrightarrow> su_children u' \<subseteq> su_children u \<and> su_running u' = su_running u"
  by (induction rule: sup_work.induct) auto

lemma order_children: "sup_order u u' \<Longrightarrow> su_children u' = su_children u"
  by (induction rule: sup_order.induct) auto

text \<open>Room for \<open>b\<close> operations on mailboxes, at most \<open>m\<close> children, \<open>c\<close> commands so far.\<close>

definition orderly :: "manager_env \<Rightarrow> nat \<Rightarrow> nat \<Rightarrow> nat \<Rightarrow> system \<Rightarrow> supervisor \<Rightarrow> bool" where
  "orderly env b m c y u \<longleftrightarrow> sim env b y u \<and> sup_inv c u \<and> card (su_children u) \<le> m"

lemma enabled_view:
  assumes "sim env (Suc b) y u"
  shows "sys_enabled (RunModule i) y \<longleftrightarrow> i < length (su_todo u)"
    "sys_enabled RunManager y \<longleftrightarrow> \<not> su_ended u \<and> su_inbox u \<noteq> []"
proof -
  obtain contents inbox where at: "sim_at env (Suc b) contents inbox y" and u: "u = view y inbox" using assms by (auto simp: sim_def)
  note D = sim_atD [OF at]
  show "sys_enabled (RunModule i) y \<longleftrightarrow> i < length (su_todo u)" using u by (simp add: view_def)
  show "sys_enabled RunManager y \<longleftrightarrow> \<not> su_ended u \<and> su_inbox u \<noteq> []"
    using receive_explicit [OF D(1,4)] D(5) u by (auto simp: view_def receive_next_def)
qed

lemma orderly_keep:
  assumes "orderly env b0 m c y u" "sim env b y' u'" "sup_work u u'"
  shows "orderly env b m c y' u'"
proof -
  have "finite (su_children u)" using assms(1) by (simp add: orderly_def sup_inv_def)
  then have "card (su_children u') \<le> card (su_children u)" using work_children [OF assms(3)] by (simp add: card_mono)
  then show ?thesis using assms work_keeps_inv by (auto simp: orderly_def)
qed

text \<open>Enabled work is possible and is work of the specification.\<close>

lemma orderly_work:
  assumes ok: "orderly env (256 + b) m c y u" and few: "2 * m + c \<le> 256" and en: "sys_enabled a y"
  shows "\<exists>y' u'. sys_act env a y = Some (Inr y') \<and> sup_work u u' \<and> orderly env b m c y' u'"
proof -
  have sim: "sim env (256 + b) y u" and inv: "sup_inv c u" and card: "card (su_children u) \<le> m" using ok by (simp_all add: orderly_def)
  have one: "sim env (Suc (255 + b)) y u" using sim by simp
  have "\<exists>y' u'. sys_act env a y = Some (Inr y') \<and> sup_work u u' \<and> sim env b y' u'"
  proof (cases a)
    case (RunModule i)
    then have i: "i < length (su_todo u)" "i < length (sy_todo y)" using enabled_view(1) [OF one] en by auto
    then have "length (su_inbox u) + 1 < 256" using inbox_bound [OF inv] card few by linarith
    then show ?thesis using sim_child [of env b y u i] sim_mono [OF sim, of "Suc (Suc b)"] i(2) RunModule by simp
  next
    case RunManager
    then show ?thesis using enabled_view(2) [OF one] en sim_manager [OF sim inv] card few by auto
  qed (use en in simp_all)
  then show ?thesis using orderly_keep [OF ok] by blast
qed

text \<open>Every action but a reload is possible.\<close>

lemma orderly_act:
  assumes ok: "orderly env (256 + b) m c y u" and few: "2 * m + c + commands [a] \<le> 256" and reload: "\<forall>name. a \<noteq> CmdReload name"
  shows "\<exists>y' u'. sys_act env a y = Some (Inr y') \<and> (u' = u \<or> sup_step u u') \<and> orderly env b m (c + commands [a]) y' u'
     \<and> su_running u' = (su_running u \<and> a \<noteq> CmdShutdown)"
proof (cases "sys_enabled a y")
  case True
  then have com: "commands [a] = 0" "a \<noteq> CmdShutdown" by (cases a; simp add: commands_def)+
  obtain y' u' where "sys_act env a y = Some (Inr y')" "sup_work u u'" "orderly env b m c y' u'"
    using orderly_work [OF ok _ True] few com by auto
  then show ?thesis using com work_children by (auto simp: sup_step_def)
next
  case False
  have sim: "sim env (256 + b) y u" and inv: "sup_inv c u" and card: "card (su_children u) \<le> m" using ok by (simp_all add: orderly_def)
  have one: "sim env (Suc (255 + b)) y u" "sim env (Suc b) y u" "sim env b y u" using sim sim_mono [OF sim] by simp_all
  show ?thesis
  proof (cases "is_command a")
    case True
    then have a: "a = CmdShutdown \<or> (\<exists>name. a = CmdRemove name)" "commands [a] = 1" using reload by (cases a; simp add: commands_def)+
    have "length (su_inbox u) < 256" using inbox_bound [OF inv] card few a(2) by linarith
    then obtain y' u' where "sys_act env a y = Some (Inr y')" "sup_order u u'" "sim env b y' u'"
      "su_running u' = (su_running u \<and> a \<noteq> CmdShutdown)"
      using sim_order [OF one(2) _ a(1)] by blast
    then show ?thesis
      using order_keeps_inv [OF _ inv] order_children card a(2) by (auto simp: orderly_def sup_step_def)
  next
    case False
    then have com: "commands [a] = 0" "a \<noteq> CmdShutdown" by (cases a; simp add: commands_def)+
    have "\<exists>y'. sys_act env a y = Some (Inr y') \<and> sim env b y' u"
    proof (cases a)
      case (RunModule i)
      then show ?thesis using \<open>\<not> sys_enabled a y\<close> one(3) by (auto simp: run_ret_def)
    next
      case RunManager
      then show ?thesis using sim_idle [OF one(2)] enabled_view(2) [OF one(1)] \<open>\<not> sys_enabled a y\<close> by blast
    qed (use False in simp_all)
    then show ?thesis using com inv card by (auto simp: orderly_def)
  qed
qed


lemma orderly_run:
  assumes "orderly env (256 * (length acts + n)) m c y u" "2 * m + c + commands acts \<le> 256" "\<forall>name. CmdReload name \<notin> set acts"
  shows "\<exists>y' u'. sys_run env acts y = Some (Inr y') \<and> sup_step\<^sup>*\<^sup>* u u' \<and> orderly env (256 * n) m (c + commands acts) y' u'
     \<and> su_running u' = (su_running u \<and> CmdShutdown \<notin> set acts)"
  using assms
proof (induction acts arbitrary: c y u)
  case Nil
  then show ?case by (auto simp: run_ret_def commands_def)
next
  case (Cons a acts)
  have com: "commands (a # acts) = commands [a] + commands acts" by (simp add: commands_def)
  have ok: "orderly env (256 + 256 * (length acts + n)) m c y u" using Cons.prems(1) by (simp add: algebra_simps)
  have few: "2 * m + c + commands [a] \<le> 256" using Cons.prems(2) com by simp
  have "\<forall>name. a \<noteq> CmdReload name" using Cons.prems(3) by auto
  then obtain y1 u1 where y1: "sys_act env a y = Some (Inr y1)" "u1 = u \<or> sup_step u u1"
    "orderly env (256 * (length acts + n)) m (c + commands [a]) y1 u1" "su_running u1 = (su_running u \<and> a \<noteq> CmdShutdown)"
    using orderly_act [OF ok few] by blast
  obtain y' u' where y': "sys_run env acts y1 = Some (Inr y')" "sup_step\<^sup>*\<^sup>* u1 u'" "orderly env (256 * n) m (c + commands [a] + commands acts) y' u'"
    "su_running u' = (su_running u1 \<and> CmdShutdown \<notin> set acts)"
    using Cons.IH [OF y1(3)] Cons.prems(2,3) com by auto
  have "sys_run env (a # acts) y = Some (Inr y')" using y1(1) y'(1) by (simp add: run_simps)
  moreover have "sup_step\<^sup>*\<^sup>* u u'" using y1(2) y'(2) by (auto intro: converse_rtranclp_into_rtranclp)
  ultimately show ?case using y'(3,4) y1(4) com by (auto simp: add.assoc)
qed

text \<open>After an order to stop, work is bounded and leaves the supervisor ended.\<close>

lemma orderly_works:
  assumes few: "2 * m + c \<le> 256" and work: "sys_works env acts y y'"
    and ok: "orderly env (256 + 256 * work_left u) m c y u" "\<not> su_running u"
  shows "\<exists>u'. (orderly env (256 + 256 * work_left u') m c y' u' \<and> \<not> su_running u') \<and> length acts + work_left u' \<le> work_left u"
proof -
  let ?I = "\<lambda>u y. orderly env (256 + 256 * work_left u) m c y u \<and> \<not> su_running u"
  have step: "\<exists>u'. ?I u' z \<and> work_left u' < work_left u" if I: "?I u y" and step: "sys_work env a y z" for a y z u
  proof -
    have en: "sys_enabled a y" and act: "sys_act env a y = Some (Inr z)" using step by (simp_all add: sys_work_def)
    have ok: "orderly env (256 + 256 * work_left u) m c y u" using I by simp
    obtain z' u' where "sys_act env a y = Some (Inr z')" and u': "sup_work u u'" "orderly env (256 * work_left u) m c z' u'"
      using orderly_work [OF ok few en] by blast
    then have "orderly env (256 * work_left u) m c z u'" using act by simp
    moreover have less: "work_left u' < work_left u" "\<not> su_running u'" using work_decreases [OF u'(1)] I by simp_all
    then have "256 + 256 * work_left u' \<le> 256 * work_left u" by simp
    ultimately have "orderly env (256 + 256 * work_left u') m c z u'" unfolding orderly_def using sim_mono by blast
    then show ?thesis using less by blast
  qed
  show ?thesis by (rule workers.exec_ranked [where I = ?I and rank = work_left, OF _ work]) (use step ok in blast)+
qed

lemma work_left_bound: "sup_inv c u \<Longrightarrow> card (su_children u) \<le> m \<Longrightarrow> work_left u \<le> 3 * m + 2 * c"
  using inbox_bound [of c u] by (simp add: work_left_def)

lemma orderly_quiet:
  assumes ok: "orderly env (Suc b) m c y u" "\<not> su_running u" and none: "\<forall>a. \<not> sys_enabled a y"
  shows "sy_ended y \<and> am_main_latch (sy_mgr y) = 0 \<and> am_childrens (sy_mgr y) = []"
proof -
  have sim: "sim env (Suc b) y u" and inv: "sup_inv c u" using ok by (simp_all add: orderly_def)
  have "su_todo u = []" using enabled_view(1) [OF sim, of 0] none by simp
  moreover have "su_ended u \<or> su_inbox u = []" using enabled_view(2) [OF sim] none by blast
  ultimately have "su_ended u" "su_children u = {}" using quiet_stopped_ended [OF inv ok(2)] by (simp_all add: quiet_def)
  then show ?thesis using sim keys_empty by (auto simp: sim_def sim_at_def view_def)
qed


lemma count_list_distinct: "distinct xs \<Longrightarrow> x \<in> set xs \<Longrightarrow> count_list xs x = 1"
  by (induction xs) auto

text \<open>The program starts in order: one coroutine for each module that could be loaded.\<close>

lemma manager_new_fields:
  "manager_new cfg = Some (Inr s) \<Longrightarrow> am_store s = empty_store \<and> am_pending_reload s = {} \<and> am_pending_stop s = {} \<and> am_pending_restart s = {}"
  by (auto simp: manager_new_def run_bind_Inr_iff run_ret_def)

lemma start_orderly:
  assumes env: "env_ok env" and mods: "length (cfg_modules cfg) \<le> 128" and lim: "257 + b < index_limit"
  shows "\<exists>y u. program_start env cfg h = Some (Inr y) \<and> orderly env b (length (cfg_modules cfg)) 0 y u \<and> su_running u"
proof -
  obtain s0 where s0: "manager_new cfg = Some (Inr s0)" "mgr_ok env b {#} s0" "am_childrens s0 = []" "am_config s0 = cfg"
    "am_next_id s0 = 1" "am_main_latch s0 = 1" "am_enqueued s0 = []"
    using manager_new_ok [of b cfg env] lim by auto
  note fields = manager_new_fields [OF s0(1)]
  have room: "room s0 b" using s0(3-5) mods lim by (simp add: room_def)
  obtain s tasks where s: "EventLoop_start env h s0 = Some (Inr s)" "mgr_ok env b {#} s"
    "grown (length (cfg_modules cfg)) (s0\<lparr>am_is_running := True\<rparr>) s" "am_enqueued s = tasks" "fresh_tasks s0 tasks s"
    "length tasks \<le> length (cfg_modules cfg)"
    using EventLoop_start_tasks [OF env s0(2) room, of h] s0(4,7) by auto
  let ?y = "\<lparr>sy_mgr = s, sy_bus = event_bus_new, sy_todo = tasks, sy_ended = False\<rparr>"
  have start: "program_start env cfg h = Some (Inr ?y)" using s0(1) s(1,4) by (simp add: program_start_def run_simps run_ret_def)
  obtain contents where acc: "accounts (env_frames env) b contents {#} s" and wf: "mgr_wf s" using s(2) by (auto simp: mgr_ok_def)
  have g: "am_is_running s" "am_pending_reload s = {}" "am_pending_stop s = {}" "am_pending_restart s = {}" "am_main_latch s = 1"
    "am_store s = empty_store"
    using s(3) fields s0(6) by (simp_all add: grown_def)
  have "am_mailbox s < length contents" using acc wf by (simp add: accounts_def mgr_wf_def)
  then have "contents ! am_mailbox s = []" using accounts_no_messages [OF acc] g(6) by (simp add: empty_store_def)
  then have "sim_at env b contents [] ?y" using acc wf g s(5) by (simp add: sim_at_def fresh_tasks_def)
  then have sim: "sim env b ?y (view ?y [])" by (auto simp: sim_def)
  have keys: "keys s = la_actor_id ` set tasks" "distinct (map la_actor_id tasks)" using s(5) s0(3) by (simp_all add: fresh_tasks_def keys_def)
  have "count_list (map la_actor_id tasks) k = 1" if "k \<in> keys s" for k
    using that keys by (intro count_list_distinct) simp_all
  moreover have "0 \<notin> keys s" using wf by (auto simp: mgr_wf_def keys_def child_ok_def)
  ultimately have "sup_inv 0 (view ?y [])" using keys g by (simp add: sup_inv_def view_def alive_def)
  moreover have "card (keys s) \<le> length (cfg_modules cfg)" using keys s(6) by (metis card_length length_map list.set_map order_trans)
  ultimately show ?thesis using start sim g(1) by (auto simp: orderly_def view_def)
qed


section \<open>Properties\<close>

text \<open>
  C2. The program refines the supervisor of theory \<open>Supervisor_Spec\<close>. Start the program with any configuration of
  gateway modules and let the workers run modules and the supervisor, and the commands to remove modules and to shut down
  arrive, in any order, as long as two messages for each module and one for each command fit into the supervisor's
  mailbox (and nothing is reloaded). Then nothing faults, and the children, pending operations, messages and coroutines of the program
  are always those of a run of the specification.
\<close>

theorem program_refines_supervisor:
  assumes "env_ok env" "2 * length (cfg_modules cfg) + commands acts \<le> 256" "\<forall>name. CmdReload name \<notin> set acts"
    and "257 + 256 * length acts < index_limit"
  shows "\<exists>y0 y u0 u. program_start env cfg h = Some (Inr y0) \<and> sys_run env acts y0 = Some (Inr y)
     \<and> sim env (256 * length acts) y0 u0 \<and> sup_step\<^sup>*\<^sup>* u0 u \<and> sim env 0 y u \<and> sup_inv (commands acts) u"
proof -
  let ?m = "length (cfg_modules cfg)"
  obtain y0 u0 where y0: "program_start env cfg h = Some (Inr y0)" "orderly env (256 * (length acts + 0)) ?m 0 y0 u0"
    using start_orderly [OF assms(1), of cfg "256 * (length acts + 0)" h] assms(2,4) by auto
  obtain y u where "sys_run env acts y0 = Some (Inr y)" "sup_step\<^sup>*\<^sup>* u0 u" "orderly env (256 * 0) ?m (0 + commands acts) y u"
    using orderly_run [OF y0(2) _ assms(3)] assms(2) by auto
  then show ?thesis using y0 by (auto simp: orderly_def)
qed

theorem program_refines_supervisor_witness:
  "\<exists>y0 y u. program_start demo_env demo_config 1 = Some (Inr y0)
     \<and> sys_run demo_env [RunModule 0, RunManager, CmdRemove ''network_module'', RunManager] y0 = Some (Inr y)
     \<and> sim demo_env 0 y u \<and> sup_inv 1 u"
proof -
  let ?acts = "[RunModule 0, RunManager, CmdRemove ''network_module'', RunManager]"
  have acts: "commands ?acts = 1" "2 * length (cfg_modules demo_config) + commands ?acts \<le> 256" "\<forall>name. CmdReload name \<notin> set ?acts"
    "257 + 256 * length ?acts < index_limit"
    by (simp_all add: demo_config_def commands_def)
  show ?thesis using program_refines_supervisor [OF demo_env_ok acts(2-4), of 1] unfolding acts(1) by blast
qed

text \<open>
  C3. An order to shut down ends the program. Let the program run as above, with a \<^verbatim>\<open>Shutdown\<close> among the commands. Then, in
  whatever order the workers go on from there, there is only a bounded amount of work left, each piece of it
  can be done, and when none is left the supervisor's coroutine has returned, the latch \<^verbatim>\<open>EventLoop\<close> waits for has been
  counted down, and no child is left.
\<close>

theorem shutdown_completes:
  assumes "env_ok env" "2 * length (cfg_modules cfg) + commands acts \<le> 256" "\<forall>name. CmdReload name \<notin> set acts"
    and "CmdShutdown \<in> set acts" "257 + 256 * (length acts + 513) < index_limit"
  shows "\<exists>y0 y. program_start env cfg h = Some (Inr y0) \<and> sys_run env acts y0 = Some (Inr y) \<and>
     (\<forall>work y'. sys_works env work y y' \<longrightarrow>
        length work \<le> 3 * length (cfg_modules cfg) + 2 * commands acts
        \<and> (\<forall>a. sys_enabled a y' \<longrightarrow> (\<exists>z. sys_act env a y' = Some (Inr z)))
        \<and> ((\<forall>a. \<not> sys_enabled a y') \<longrightarrow> sy_ended y' \<and> am_main_latch (sy_mgr y') = 0 \<and> am_childrens (sy_mgr y') = []))"
proof -
  let ?m = "length (cfg_modules cfg)" and ?c = "commands acts"
  have mods: "?m \<le> 128" using assms(2) by simp
  obtain y0 u0 where y0: "program_start env cfg h = Some (Inr y0)" "orderly env (256 * (length acts + 513)) ?m 0 y0 u0"
    using start_orderly [OF assms(1) mods assms(5)] by blast
  obtain y u where y: "sys_run env acts y0 = Some (Inr y)" "orderly env (256 * 513) ?m ?c y u" "\<not> su_running u"
    using orderly_run [OF y0(2) _ assms(3)] assms(2,4) by auto
  have left: "work_left u \<le> 3 * ?m + 2 * ?c" using y(2) work_left_bound by (simp add: orderly_def)
  then have "256 + 256 * work_left u \<le> 256 * 513" using assms(2) by simp
  then have ok: "orderly env (256 + 256 * work_left u) ?m ?c y u" using y(2) sim_mono unfolding orderly_def by blast
  have "length work \<le> 3 * ?m + 2 * ?c \<and> (\<forall>a. sys_enabled a y' \<longrightarrow> (\<exists>z. sys_act env a y' = Some (Inr z)))
        \<and> ((\<forall>a. \<not> sys_enabled a y') \<longrightarrow> sy_ended y' \<and> am_main_latch (sy_mgr y') = 0 \<and> am_childrens (sy_mgr y') = [])"
    if works: "sys_works env work y y'" for work y'
  proof -
    obtain u' where u': "orderly env (256 + 256 * work_left u') ?m ?c y' u'" "\<not> su_running u'" "length work + work_left u' \<le> work_left u"
      using orderly_works [OF assms(2) works ok y(3)] by blast
    have "orderly env (Suc (255 + 256 * work_left u')) ?m ?c y' u'" using u'(1) by simp
    then show ?thesis using orderly_quiet u'(2,3) left orderly_work [OF u'(1) assms(2)] by (meson add_leD1 le_trans)
  qed
  then show ?thesis using y0(1) y(1) by blast
qed


theorem shutdown_completes_witness:
  "\<exists>y0 y work y'. program_start demo_env demo_config 1 = Some (Inr y0) \<and> sys_run demo_env [RunModule 0, CmdShutdown] y0 = Some (Inr y)
     \<and> sys_works demo_env work y y' \<and> length work \<le> 5 \<and> sy_ended y' \<and> am_main_latch (sy_mgr y') = 0 \<and> am_childrens (sy_mgr y') = []"
proof -
  let ?acts = "[RunModule 0, CmdShutdown]"
  have acts: "2 * length (cfg_modules demo_config) + commands ?acts \<le> 256" "\<forall>name. CmdReload name \<notin> set ?acts" "CmdShutdown \<in> set ?acts"
    "257 + 256 * (length ?acts + 513) < index_limit" and bound: "3 * length (cfg_modules demo_config) + 2 * commands ?acts = 5"
    by (simp_all add: demo_config_def commands_def)
  obtain y0 y where y: "program_start demo_env demo_config 1 = Some (Inr y0)" "sys_run demo_env ?acts y0 = Some (Inr y)"
    and works: "\<forall>work y'. sys_works demo_env work y y' \<longrightarrow> length work \<le> 5
      \<and> (\<forall>a. sys_enabled a y' \<longrightarrow> (\<exists>z. sys_act demo_env a y' = Some (Inr z)))
      \<and> ((\<forall>a. \<not> sys_enabled a y') \<longrightarrow> sy_ended y' \<and> am_main_latch (sy_mgr y') = 0 \<and> am_childrens (sy_mgr y') = [])"
    using shutdown_completes [OF demo_env_ok acts, of 1] unfolding bound by blast
  then obtain work y' where "sys_works demo_env work y y'" "\<forall>a z. \<not> sys_work demo_env a y' z"
    using workers.exec_maximal [of demo_env y 5] by blast
  then show ?thesis using y works unfolding sys_work_def by blast
qed

end
