(* ===== verification/Main_Cli.thy ===== *)
theory Main_Cli
  imports Decimal
begin

text \<open>
  \<^verbatim>\<open>src/core/main.cc\<close>: the command line of the program, the files under \<^verbatim>\<open>logs/\<close> through which a second
  instance talks to the running one, and the signal handler that reads them. The answers of
  \<^verbatim>\<open>getopt_long\<close> and of the system calls are arguments; files are strings.
\<close>

section \<open>Files\<close>

text \<open>\<^verbatim>\<open>logs\<close> is missing, a directory, or something else; a file is missing or has contents.\<close>

record files =
  fs_logs :: "bool option"
  fs_control :: "string option"
  fs_pid :: "string option"

text \<open>
  Whether a call that could fail succeeds; the deletion of a file needs a regular file and a successful \<^verbatim>\<open>unlink\<close>.
\<close>

record os =
  os_mkdir :: bool
  os_fopen_control :: bool
  os_fopen_pid :: bool
  os_unlink :: bool

definition mkdir_if_not_exists :: "os \<Rightarrow> files \<Rightarrow> bool \<times> files" where
  "mkdir_if_not_exists os fs =
     (case fs_logs fs of
        Some is_dir \<Rightarrow> (is_dir, fs)
      | None \<Rightarrow> if os_mkdir os then (True, fs\<lparr>fs_logs := Some True\<rparr>) else (False, fs))"

definition delete_if_exists :: "os \<Rightarrow> string option \<Rightarrow> string option" where
  "delete_if_exists os file = (case file of None \<Rightarrow> None | Some c \<Rightarrow> if os_unlink os then None else Some c)"

text \<open>
  \<^verbatim>\<open>fgets\<close> with room for \<open>n\<close> characters: at most \<open>n - 1\<close> of the file, up to and including the first newline;
  nothing (\<open>None\<close>) from an empty file. What follows a NUL is not part of the C string.
\<close>

fun line_prefix :: "nat \<Rightarrow> string \<Rightarrow> string" where
  "line_prefix 0 cs = []"
| "line_prefix n [] = []"
| "line_prefix (Suc n) (c # cs) = (if c = CHR 0x0A then [c] else c # line_prefix n cs)"

definition c_string :: "string \<Rightarrow> string" where
  "c_string cs = takeWhile (\<lambda>c. c \<noteq> CHR 0x00) cs"

definition fgets :: "nat \<Rightarrow> string \<Rightarrow> string option" where
  "fgets n file = (if file = [] then None else Some (c_string (line_prefix (n - 1) file)))"

section \<open>Numbers\<close>

text \<open>\<^verbatim>\<open>strtol(s, NULL, 10)\<close>: white space, a sign, digits; out of range values saturate.\<close>

definition is_space :: "char \<Rightarrow> bool" where
  "is_space c \<longleftrightarrow> (of_char c :: nat) = 32 \<or> (9 \<le> (of_char c :: nat) \<and> (of_char c :: nat) \<le> 13)"

definition strtol :: "string \<Rightarrow> int" where
  "strtol s =
     (let s = dropWhile is_space s
      in case s of
           [] \<Rightarrow> 0
         | c # cs \<Rightarrow>
             if c = CHR ''-'' then max (- (2 ^ 63)) (- int (digits_value cs))
             else if c = CHR ''+'' then min (2 ^ 63 - 1) (int (digits_value cs))
             else min (2 ^ 63 - 1) (int (digits_value s)))"

text \<open>\<^verbatim>\<open>static_cast<pid_t>\<close> of a 64-bit value.\<close>

definition to_pid :: "int \<Rightarrow> int" where
  "to_pid x = (x + 2 ^ 31) mod 2 ^ 32 - 2 ^ 31"

section \<open>The command line\<close>

text \<open>
  What \<^verbatim>\<open>getopt_long\<close> reports, call after call: the option character with \<^verbatim>\<open>optarg\<close> (null is \<open>None\<close>). The tables it
  is called with give \<^verbatim>\<open>-s\<close> an argument and \<^verbatim>\<open>--signal\<close> none.
\<close>

datatype arg_kind = no_argument | required_argument

definition short_options :: "(char \<times> arg_kind) list" where
  "short_options = [(CHR ''h'', no_argument), (CHR ''s'', required_argument)]"

definition long_options :: "(string \<times> arg_kind \<times> char) list" where
  "long_options = [(''help'', no_argument, CHR ''h''), (''signal'', no_argument, CHR ''s'')]"

type_synonym getopt_results = "(char \<times> string option) list"

fun scan_options :: "getopt_results \<Rightarrow> string option \<Rightarrow> int + string option" where
  "scan_options [] command = Inr command"
| "scan_options ((opt, optarg) # rest) command =
     (if opt = CHR ''h'' then Inl 0
      else if opt = CHR ''s'' then scan_options rest optarg
      else if opt = CHR '':'' then Inl (- 1)
      else if opt = CHR ''?'' then Inl (- 1)
      else scan_options rest command)"

text \<open>How a call ends, and the process it signalled with \<^verbatim>\<open>SIGHUP\<close>.\<close>

datatype cli_result = Returned int | ExitFailure

text \<open>The text for the control file; \<open>None\<close> when the command is refused. \<open>args\<close> is \<^verbatim>\<open>argv\<close> from \<^verbatim>\<open>optind\<close>.\<close>

definition control_text :: "string \<Rightarrow> string list \<Rightarrow> string option" where
  "control_text command args =
     (if command = ''stop'' then Some ''stop''
      else if command = ''reload''
      then (case args of a # _ \<Rightarrow> Some (''reload '' @ a) | [] \<Rightarrow> Some ''reload all'')
      else if command = ''remove''
      then (case args of a # _ \<Rightarrow> Some (''remove '' @ a) | [] \<Rightarrow> None)
      else None)"

definition send_command :: "os \<Rightarrow> string \<Rightarrow> string list \<Rightarrow> files \<Rightarrow> cli_result \<times> int option \<times> files" where
  "send_command os command args fs =
     (let (ok, fs) = mkdir_if_not_exists os fs
      in if \<not> ok then (ExitFailure, None, fs)
         else if \<not> os_fopen_control os then (ExitFailure, None, fs)
         else case control_text command args of
                None \<Rightarrow> (Returned (- 1), None, fs\<lparr>fs_control := Some []\<rparr>)
              | Some text \<Rightarrow>
                  let fs = fs\<lparr>fs_control := Some text\<rparr>
                  in case fs_pid fs of
                       None \<Rightarrow> (ExitFailure, None, fs)
                     | Some pid_text \<Rightarrow>
                         if \<not> os_fopen_pid os then (ExitFailure, None, fs)
                         else case fgets 32 pid_text of
                                None \<Rightarrow> (ExitFailure, None, fs)
                              | Some pid_str \<Rightarrow> (Returned 0, Some (to_pid (strtol pid_str)), fs))"

definition parse_command_line ::
    "os \<Rightarrow> getopt_results \<Rightarrow> string list \<Rightarrow> files \<Rightarrow> cli_result \<times> int option \<times> files" where
  "parse_command_line os opts args fs =
     (case scan_options opts None of
        Inl code \<Rightarrow> (Returned code, None, fs)
      | Inr None \<Rightarrow> (Returned 0, None, fs)
      | Inr (Some command) \<Rightarrow> send_command os command args fs)"

section \<open>The running program\<close>

text \<open>The call the signal handler makes on the manager.\<close>

datatype manager_call = NoCall | CallReloadModule string | CallRemoveModule string | CallShutdown

definition sigal_handle :: "os \<Rightarrow> files \<Rightarrow> manager_call \<times> files" where
  "sigal_handle os fs =
     (case fs_control fs of
        None \<Rightarrow> (NoCall, fs)
      | Some text \<Rightarrow>
          case (if os_fopen_control os then fgets 64 text else None) of
            None \<Rightarrow> (NoCall, fs)
          | Some cmd \<Rightarrow>
              let fs = fs\<lparr>fs_control := delete_if_exists os (Some text)\<rparr>;
                  word = takeWhile (\<lambda>c. c \<noteq> CHR '' '') cmd;
                  rest = dropWhile (\<lambda>c. c \<noteq> CHR '' '') cmd
              in if rest \<noteq> []
                 then (if word = ''reload'' then CallReloadModule (tl rest)
                       else if word = ''remove'' then CallRemoveModule (tl rest) else NoCall, fs)
                 else (if cmd = ''stop'' then CallShutdown else NoCall, fs))"

text \<open>
  \<^verbatim>\<open>main\<close> with arguments always returns 0 after the command line is handled; without arguments it writes its process
  identifier and goes on to the event loop (\<open>None\<close>).
\<close>

definition main_client :: "os \<Rightarrow> getopt_results \<Rightarrow> string list \<Rightarrow> files \<Rightarrow> cli_result \<times> int option \<times> files" where
  "main_client os opts args fs =
     (case parse_command_line os opts args fs of
        (Returned code, kill, fs) \<Rightarrow> (Returned 0, kill, fs)
      | (ExitFailure, kill, fs) \<Rightarrow> (ExitFailure, kill, fs))"

definition main_server :: "os \<Rightarrow> nat \<Rightarrow> files \<Rightarrow> cli_result option \<times> files" where
  "main_server os getpid fs =
     (let (ok, fs) = mkdir_if_not_exists os fs
      in if \<not> ok then (Some ExitFailure, fs)
         else if \<not> os_fopen_pid os then (Some ExitFailure, fs)
         else (None, fs\<lparr>fs_pid := Some (show_nat getpid)\<rparr>))"

definition main_exit :: "os \<Rightarrow> files \<Rightarrow> files" where
  "main_exit os fs = fs\<lparr>fs_pid := delete_if_exists os (fs_pid fs)\<rparr>"

section \<open>Lemmas\<close>

lemma line_prefix_plain: "CHR 0x0A \<notin> set cs \<Longrightarrow> line_prefix n cs = take n cs"
  by (induction n cs rule: line_prefix.induct) auto

lemma c_string_plain: "CHR 0x00 \<notin> set cs \<Longrightarrow> c_string cs = cs"
  by (auto simp: c_string_def)

lemma fgets_plain:
  assumes "CHR 0x0A \<notin> set cs" "CHR 0x00 \<notin> set cs" "cs \<noteq> []"
  shows "fgets (Suc n) cs = Some (take n cs)"
  using assms c_string_plain [of "take n cs"] by (auto simp: fgets_def line_prefix_plain dest: in_set_takeD)

lemma pid_text:
  assumes "pid < 2 ^ 31"
  shows "fgets 32 (show_nat pid) = Some (show_nat pid)" "to_pid (strtol (show_nat pid)) = int pid"
proof -
  have digits: "48 \<le> (of_char c :: nat) \<and> (of_char c :: nat) \<le> 57" if "c \<in> set (show_nat pid)" for c
    using show_nat_digits that by (simp add: is_digit_def)
  have "CHR 0x0A \<notin> set (show_nat pid)" "CHR 0x00 \<notin> set (show_nat pid)" using digits by fastforce+
  moreover have "length (show_nat pid) \<le> 10" using assms by (intro show_nat_length) simp_all
  ultimately show "fgets 32 (show_nat pid) = Some (show_nat pid)"
    using fgets_plain [of "show_nat pid" 31] show_nat_nonempty by simp
  obtain c cs where c: "show_nat pid = c # cs" using show_nat_nonempty [of pid] by (cases "show_nat pid") auto
  have cd: "48 \<le> (of_char c :: nat)" "(of_char c :: nat) \<le> 57" using digits [of c] c by auto
  then have "\<not> is_space c" "c \<noteq> CHR ''-''" "c \<noteq> CHR ''+''" by (auto simp: is_space_def)
  then have "strtol (show_nat pid) = min (2 ^ 63 - 1) (int pid)"
    using show_nat_value [of pid] by (simp add: strtol_def c)
  also have "\<dots> = int pid" using assms by simp
  finally show "to_pid (strtol (show_nat pid)) = int pid" using assms by (simp add: to_pid_def)
qed

section \<open>Properties\<close>

text \<open>
  C20. A command given to a second instance reaches the manager of the running one. With the server up
  under process identifier \<open>pid\<close> and a module name free of NUL and newline, \<^verbatim>\<open>-s reload name\<close> and \<^verbatim>\<open>-s remove name\<close>
  signal exactly that process, whose handler then calls \<^verbatim>\<open>ReloadModule\<close> or \<^verbatim>\<open>RemoveModule\<close> with the
  first 56 characters of the name and removes the control file; \<^verbatim>\<open>-s reload\<close> alone names \<^verbatim>\<open>all\<close>, and \<^verbatim>\<open>-s stop\<close>
  calls \<^verbatim>\<open>Shutdown\<close>. Names of up to 56 characters arrive unchanged, longer ones are cut off.
\<close>

theorem control_roundtrip:
  assumes "main_server os pid fs0 = (None, fs)" "pid < 2 ^ 31" "os_fopen_control os" "os_unlink os"
    and "CHR 0x00 \<notin> set name" "CHR 0x0A \<notin> set name"
    and "(command, args, call) \<in> {(''reload'', [name], CallReloadModule (take 56 name)),
           (''remove'', [name], CallRemoveModule (take 56 name)), (''reload'', [], CallReloadModule ''all''),
           (''stop'', [], CallShutdown)}"
  shows "\<exists>fs'. main_client os [(CHR ''s'', Some command)] args fs = (Returned 0, Some (int pid), fs')
     \<and> sigal_handle os fs' = (call, fs'\<lparr>fs_control := None\<rparr>)"
proof -
  have fs: "fs_logs fs = Some True" "fs_pid fs = Some (show_nat pid)" "os_fopen_pid os"
    using assms(1) by (auto simp: main_server_def mkdir_if_not_exists_def Let_def split: option.splits if_splits)
  have client: "main_client os [(CHR ''s'', Some command)] args fs = (Returned 0, Some (int pid), fs\<lparr>fs_control := Some ctl\<rparr>)"
    if "control_text command args = Some ctl" for ctl
    using that fs assms(3) pid_text [OF assms(2)]
    by (simp add: main_client_def parse_command_line_def send_command_def mkdir_if_not_exists_def Let_def)
  have word: "sigal_handle os (fs\<lparr>fs_control := Some (w @ CHR '' '' # n)\<rparr>) =
      (if w = ''reload'' then CallReloadModule (take 56 n) else CallRemoveModule (take 56 n), fs\<lparr>fs_control := None\<rparr>)"
    if "w \<in> {''reload'', ''remove''}" "CHR 0x00 \<notin> set n" "CHR 0x0A \<notin> set n" for w n
    using that assms(3,4) fgets_plain [of "w @ CHR '' '' # n" 63]
    by (auto simp: sigal_handle_def delete_if_exists_def Let_def)
  have plain: "CHR 0x00 \<notin> set ''all''" "CHR 0x0A \<notin> set ''all''" by simp_all
  have stop: "sigal_handle os (fs\<lparr>fs_control := Some ''stop''\<rparr>) = (CallShutdown, fs\<lparr>fs_control := None\<rparr>)"
    using assms(3,4) fgets_plain [of "''stop''" 63] by (simp add: sigal_handle_def delete_if_exists_def Let_def)
  have "\<exists>ctl. control_text command args = Some ctl
      \<and> sigal_handle os (fs\<lparr>fs_control := Some ctl\<rparr>) = (call, fs\<lparr>fs_control := None\<rparr>)"
    using assms(7) word [of "''reload''" name] word [of "''remove''" name] word [of "''reload''" "''all''"] stop assms(5,6) plain
    by (auto simp: control_text_def)
  then obtain ctl where ctl: "control_text command args = Some ctl"
    "sigal_handle os (fs\<lparr>fs_control := Some ctl\<rparr>) = (call, fs\<lparr>fs_control := None\<rparr>)" by blast
  show ?thesis using client [OF ctl(1)] ctl(2) by (intro exI [of _ "fs\<lparr>fs_control := Some ctl\<rparr>"]) simp
qed

theorem control_roundtrip_witness:
  "\<exists>fs fs'. main_server \<lparr>os_mkdir = True, os_fopen_control = True, os_fopen_pid = True, os_unlink = True\<rparr> 4711
         \<lparr>fs_logs = None, fs_control = None, fs_pid = None\<rparr> = (None, fs)
     \<and> main_client \<lparr>os_mkdir = True, os_fopen_control = True, os_fopen_pid = True, os_unlink = True\<rparr>
         [(CHR ''s'', Some ''reload'')] [''network_module''] fs = (Returned 0, Some 4711, fs')
     \<and> fst (sigal_handle \<lparr>os_mkdir = True, os_fopen_control = True, os_fopen_pid = True, os_unlink = True\<rparr> fs')
         = CallReloadModule ''network_module''"
proof -
  let ?os = "\<lparr>os_mkdir = True, os_fopen_control = True, os_fopen_pid = True, os_unlink = True\<rparr>"
  obtain fs where fs: "main_server ?os 4711 \<lparr>fs_logs = None, fs_control = None, fs_pid = None\<rparr> = (None, fs)"
    by (simp add: main_server_def mkdir_if_not_exists_def)
  show ?thesis
    using control_roundtrip [OF fs, of "''network_module''" "''reload''" "[''network_module'']" "CallReloadModule (take 56 ''network_module'')"] fs
    by auto
qed

end
