(* ===== verification/Spec2Isabelle.thy ===== *)
theory Spec2Isabelle
  imports Helper Mail_Queue_Concurrent SPSC_Queue Work_Stealing_Concurrent Scheduler_Join
  Mail_Box_Protocol Event_Bus Coroutines Reload_Races Manager_Coroutine Whole_System Main_Cli
begin

text \<open>
  A verification development for \<^verbatim>\<open>acnet\<close>, an actor runtime in C++. Actors are coroutines with a mailbox
  each; a pool of worker threads runs them; a supervising actor loads modules from shared libraries, restarts the ones that
  crash, reloads and removes modules on command and ends the program when all have stopped.

  \<^bold>\<open>Parts and theories.\<close>

  \<^item> \<open>Prelude\<close>: machine words, faults (\<open>'a res\<close>: what undefined behaviour the code runs into, or a result; \<open>'a run\<close>:
    the same for code with loops, \<open>None\<close> when the rounds given did not suffice), ring-buffer positions, list
    lemmas. \<open>Decimal\<close>: decimal numerals. \<open>Schedules\<close>: what all models of interleaved threads share, as locales with
    the inductions over schedules (invariants, budgets, ranks).
  \<^item> \<open>Helper\<close> (\<^verbatim>\<open>include/helper.h\<close>): the identifier counter.
  \<^item> \<open>Event_Message\<close> (\<^verbatim>\<open>include/event_message.h\<close>): event types and messages in an explicit heap with their
    reference counts. \<open>Message_References\<close>: the relation between these counts and everyone who refers to a message.
  \<^item> \<open>Mail_Queue\<close>, \<open>Mail_Queue_Concurrent\<close>, \<open>SPSC_Queue\<close>, \<open>Work_Stealing_Queue\<close>, \<open>Work_Stealing_Concurrent\<close>, \<open>Global_Queue\<close>
    (\<^verbatim>\<open>include/queue.h\<close>): each queue operation is a machine whose steps are the single accesses to shared variables
    (\<open>enq_step\<close>, \<open>deq_step\<close>, \<open>push_step\<close>, \<open>pop_step\<close>, \<open>steal_step\<close>, ...), run alone or interleaved.
    \<open>Queue_Interface\<close> has the contract of a bounded queue as a locale; the mail queue and the
    single-producer queue are instances of it, and the work-stealing deque of its own one.
  \<^item> \<open>Actor_Scheduler\<close>, \<open>Scheduler_Threads\<close>, \<open>Scheduler_Join\<close> (\<^verbatim>\<open>actor_scheduler.cc\<close>): enqueueing, the search for tasks, the worker
    loop with parking, shutdown, and the destructor that joins the threads.
  \<^item> \<open>Mail_Box\<close>, \<open>Mail_Box_Protocol\<close> (\<^verbatim>\<open>mail_box.cc\<close>, \<^verbatim>\<open>mail_box.h\<close>): sending, receiving and waiting, one call at a
    time, and the sleeping and waking of the consumer with concurrent senders.
  \<^item> \<open>Event_Bus\<close> (\<^verbatim>\<open>event_bus.cc\<close>): subscriptions, the tables cached by each thread, deliveries.
  \<^item> \<open>Task\<close>, \<open>Coroutines\<close> (\<^verbatim>\<open>include/task.h\<close>): awaiting one coroutine from another while it is woken on another thread; nests of
    awaited coroutines with their frames, run by one worker.
  \<^item> \<open>Plugin_Manager\<close> (\<^verbatim>\<open>plugin_manager.cc\<close>), \<open>Actor_Manager\<close>, \<open>Actor_Manager_Invariant\<close>, \<open>Supervision\<close>
    (\<^verbatim>\<open>actor_manager.cc\<close>): the configuration and the supervisor. \<open>Actor_Module\<close> (\<^verbatim>\<open>actor_module.cc\<close>,
    \<^verbatim>\<open>gateway_actor.cc\<close>, \<^verbatim>\<open>__launch_actor\<close>): a module's life. \<open>Event_Rounds\<close>: what one round of the event loop does to each kind of
    message. \<open>Manager_Coroutine\<close>: the event loop from one suspension to the next. \<open>Reload_Races\<close>: commands that arrive
    during a reload of all modules.
  \<^item> \<open>Supervisor_Spec\<close>: what a supervisor promises, as a step relation on numbered modules. \<open>Whole_System\<close>: the program with its modules,
    its supervisor and the commands that arrive, in any order, and its refinement to that specification.
  \<^item> \<open>Main_Cli\<close> (\<^verbatim>\<open>main.cc\<close>): command line, control file, signal handler.
  \<^item> This theory: the cycle of a supervised module through all of these.

  \<^bold>\<open>How state and operations correspond.\<close> A class is a record with its members' names, a pointer an address, a null pointer
  \<open>None\<close>, \<^verbatim>\<open>std::size_t\<close> a 64-bit word. Functions keep their names (leading underscores dropped, clashes
  with a prefix). Mutexes delimit one step. Threads are lists of actions (schedules); the theorems about
  them hold for every schedule. Virtual functions are a table, the answers of the dynamic loader, of
  \<^verbatim>\<open>getopt_long\<close>, of the TOML reader, of system calls and the iteration order of hash maps are arguments.

  \<^bold>\<open>What is shown.\<close> The queues are linearizable bounded queues without data races or undefined accesses; no task and no
  wake-up is lost by the scheduler; a mailbox's consumer is run by one worker at a time and does not sleep on a
  message; reference counts equal the number of holders through every delivery of the bus and every round of
  the supervisor, which never faults; the supervisor restarts, reloads, removes and shuts down as intended, and the program as a whole
  does what the specification of a supervisor allows. What must end does: the search for a task, a resumption of the
  event loop, a nest of awaited coroutines, the program after an order to shut down, the destruction of the scheduler.
  Where the code does not do what it means to, a theorem shows the schedule or the input: a queue of one
  slot, indices beyond the sign boundary, an awaiter used after its coroutine is gone (and that nothing else uses it then), a continuation
  stored too late, a module that cannot be loaded again, a shutdown and a second reload that arrive
  during a reload of all modules, names that are cut off, and a module that throws before its loop.

  \<^bold>\<open>Bounds.\<close> Queue indices stay below \<open>index_limit\<close> \<open>= 2 ^ 63\<close>, where signed and unsigned comparison agree; theorems about schedules
  of the queues, the bus and the supervisor take a schedule shorter than that. Loops carry a number of rounds; where that is
  an argument, a theorem shows which number suffices (\<open>mail_box_drain_releases\<close>, \<open>try_enqueue_spurious_failures\<close>,
  \<open>manager_coroutine_ends\<close>: 257 rounds, one more than a mailbox has places), and the queue operations run alone get as many
  steps as they have. \<open>Whole_System\<close> counts 256 mailbox operations for one action, which is enough for the at most 128
  modules there are, and asks that two messages per module and one per command fit into the supervisor's mailbox: a message that does not fit is
  dropped by \<^verbatim>\<open>Send\<close>, and the supervisor would miss it.

  \<^bold>\<open>Not modelled.\<close> The C++ memory orders: accesses are interleaved as if sequentially consistent, so orderings that are too weak
  would not show. The logger of \<^verbatim>\<open>include/helper.h\<close>, which only formats and writes lines; thread creation, names and
  affinities, pauses, the usage text; the destruction of a mailbox when its last pointer goes (its effect is \<open>mail_box_drain\<close>). In
  \<open>Whole_System\<close> a module runs in one piece, and reloading is left out of the refinement, where it would fail by the theorems of
  \<open>Supervision\<close> and \<open>Reload_Races\<close> about it. \<^verbatim>\<open>time_wheel\<close> is empty in the sources. The third-party logging and TOML libraries are outside.
\<close>

section \<open>Supervised modules\<close>

text \<open>
  C12. The supervision cycle of the program as it stands, across the module, its coroutine, the mailboxes, the
  event bus and the supervisor: while the manager is running and nothing is pending for a gateway module, each
  run of its coroutine ends in a crash, and two rounds of the event loop later the same module has been enqueued again with
  the same identifier and mailbox. All messages of the cycle have been released, the mailboxes
  and the table of children are as before, and so are the subscribers of every event.
\<close>

theorem gateway_restart_cycle:
  assumes acc: "accounts (env_frames env) (4 + b) contents {#} s" and wf: "mgr_wf s" and empty: "contents ! am_mailbox s = []"
    and k: "find_child k (am_childrens s) = Some md" "md_creator md = Some creator" "am_is_running s"
      "k \<notin> am_pending_reload s" "k \<notin> am_pending_stop s" "k \<notin> am_pending_restart s"
  shows "\<exists>s1 eb1 s2 s3. launch_actor env n GateWayActor_vtable True (call_creator creator k (md_mailbox md)) s eb
       = Some (Inr (True, s1, eb1))
     \<and> event_round env s1 = Some (Inr (Some False, s2)) \<and> event_round env s2 = Some (Inr (Some False, s3))
     \<and> mgr_core s3 = mgr_core (enqueue_tasks [call_creator creator k (md_mailbox md)] s)
     \<and> accounts (env_frames env) b contents {#} s3
     \<and> (\<forall>type. table_of (eb_event_bus eb1) type = table_of (eb_event_bus eb) type)"
proof -
  let ?la = "call_creator creator k (md_mailbox md)" and ?mb = "am_mailbox s"
  have child: "child_ok s (k, md)"
    using k(1) wf unfolding mgr_wf_def find_child_def by (blast dest: map_of_SomeD)
  have len: "?mb < length contents" using acc wf by (simp add: accounts_def mgr_wf_def)
  have acc0: "accounts (env_frames env) (Suc (Suc (Suc (Suc b)))) contents {#} s" using acc by (simp add: eval_nat_numeral)
  have la: "ready (la_module ?la)" "la_mailbox ?la < length (am_boxes s)" "la_actor_id ?la = k"
    using child k(2) by (auto simp: child_ok_def call_creator_def)
  obtain s1 eb1 c e where s1: "launch_actor env n GateWayActor_vtable True ?la s eb = Some (Inr (True, s1, eb1))"
    "\<forall>type. table_of (eb_event_bus eb1) type = table_of (eb_event_bus eb) type"
    "accounts (env_frames env) (Suc (Suc b)) (contents[?mb := [c, e]]) {#} s1" "mgr_core s1 = mgr_core s"
    "map_option (\<lambda>m. (msg_type m, msg_sender_id m)) (heap (am_store s1) c) = Some (kEventCrashReport, k)"
    "map_option (\<lambda>m. (msg_type m, msg_sender_id m)) (heap (am_store s1) e) = Some (kEventModuleExited, k)"
    using launch_gateway [where n = n and eb = eb, OF acc0 wf la(1,2)] empty la(3) by auto
  have core1: "am_mailbox s1 = ?mb" "keys s1 = keys s" "am_is_running s1" "am_pending_reload s1 = am_pending_reload s"
    "am_pending_stop s1 = am_pending_stop s"
    using s1(4) k(3) by (simp_all add: mgr_core_def keys_def)
  have wf1: "mgr_wf s1" using mgr_wf_core [OF s1(4)] wf by simp
  have kk: "k \<in> keys s" using find_child_keys k(1) by blast
  obtain s2 where s2: "event_round env s1 = Some (Inr (Some False, s2))"
    "accounts (env_frames env) (Suc b) ((contents[?mb := [c, e]])[?mb := [e]]) {#} s2"
    "mgr_core s2 = mgr_core (s1\<lparr>am_pending_restart := insert k (am_pending_restart s1)\<rparr>)"
    "store_le (am_store s1) (am_store s2)"
    using round_crash [OF s1(3) wf1, of c "[e]" k] core1 len s1(5) k kk by auto
  have "mgr_wf (s1\<lparr>am_pending_restart := insert k (am_pending_restart s1)\<rparr>)"
    using wf1 kk core1(2) by (auto simp: mgr_wf_def child_ok_def keys_def)
  then have wf2: "mgr_wf s2" using mgr_wf_core [OF s2(3)] by simp
  have core2: "am_mailbox s2 = ?mb" "am_childrens s2 = am_childrens s" "am_is_running s2" "am_pending_reload s2 = am_pending_reload s"
    "am_pending_stop s2 = am_pending_stop s" "am_pending_restart s2 = insert k (am_pending_restart s)"
    using s2(3) s1(4) k(3) by (simp_all add: mgr_core_def)
  have body: "letter (am_store s2) e = Some (kEventModuleExited, k)"
    using letters_kept [OF s1(3) s2(2,4), of ?mb "[e]" "[(kEventModuleExited, k)]"] s1(6) len by simp
  obtain s3 where s3: "event_round env s2 = Some (Inr (Some False, s3))"
    "accounts (env_frames env) b (((contents[?mb := [c, e]])[?mb := [e]])[?mb := []]) {#} s3"
    "mgr_core s3 = mgr_core (enqueue_tasks [call_creator creator (md_actor_id md) (md_mailbox md)]
         (s2\<lparr>am_pending_restart := am_pending_restart s2 - {k}\<rparr>))"
    using round_restart [OF s2(2) wf2, of e "[]" k md creator] core2 len body k by auto
  have "((contents[?mb := [c, e]])[?mb := [e]])[?mb := []] = contents" using empty by (metis list_update_id list_update_overwrite)
  then have "accounts (env_frames env) b contents {#} s3" using s3(2) by simp
  moreover have "md_actor_id md = k" using child by (simp add: child_ok_def)
  then have "mgr_core s3 = mgr_core (enqueue_tasks [?la] s)"
    using s3(3) s2(3) s1(4) k(6) by (simp add: mgr_core_def enqueue_tasks_def)
  ultimately show ?thesis using s1(1,2) s2(1) s3(1) by blast
qed

lemma demo_cycle_eval:
  "case demo_up of Some (Inr s) \<Rightarrow> am_is_running s \<and> am_pending_reload s = {} \<and> am_pending_stop s = {} \<and> am_pending_restart s = {}
     \<and> map_option (\<lambda>md. (md_mailbox md, md_creator md)) (find_child 1 (am_childrens s)) = Some (1, Some (la_module demo_launch))
     | _ \<Rightarrow> False"
  by code_simp

theorem gateway_restart_cycle_witness:
  "\<exists>s s1 eb1 s2 s3. demo_up = Some (Inr s)
     \<and> launch_actor demo_env 5 GateWayActor_vtable True demo_launch s event_bus_new = Some (Inr (True, s1, eb1))
     \<and> event_round demo_env s1 = Some (Inr (Some False, s2)) \<and> event_round demo_env s2 = Some (Inr (Some False, s3))
     \<and> am_enqueued s3 = [demo_launch, demo_launch]"
proof -
  obtain s where s: "demo_up = Some (Inr s)" "mgr_ok demo_env 4 {#} s" using demo_up_ok [of 4] by auto
  have e1: "am_enqueued s = [demo_launch]" "length (am_boxes s) = 2" "am_mailbox s = 0" "next_addr (am_store s) = 0"
    using demo_launch_eval unfolding s(1) by simp_all
  have e2: "am_is_running s" "am_pending_reload s = {}" "am_pending_stop s = {}" "am_pending_restart s = {}"
    "map_option (\<lambda>md. (md_mailbox md, md_creator md)) (find_child 1 (am_childrens s)) = Some (1, Some (la_module demo_launch))"
    using demo_cycle_eval unfolding s(1) by simp_all
  then obtain md where md: "find_child 1 (am_childrens s) = Some md" "md_mailbox md = 1" "md_creator md = Some (la_module demo_launch)"
    by auto
  obtain contents where acc: "accounts (env_frames demo_env) (4 + 0) contents {#} s" and wf: "mgr_wf s"
    using s(2) by (auto simp: mgr_ok_def)
  have "0 < length contents" using acc e1(2) by (simp add: accounts_def)
  then have empty: "contents ! am_mailbox s = []" using accounts_no_messages [OF acc e1(4), of 0] e1(3) by simp
  have la: "call_creator (la_module demo_launch) 1 (md_mailbox md) = demo_launch"
    using md(2) by (simp add: call_creator_def demo_launch_def)
  have none: "1 \<notin> am_pending_reload s" "1 \<notin> am_pending_stop s" "1 \<notin> am_pending_restart s" using e2 by simp_all
  obtain s1 eb1 s2 s3 where "launch_actor demo_env 5 GateWayActor_vtable True demo_launch s event_bus_new = Some (Inr (True, s1, eb1))"
    "event_round demo_env s1 = Some (Inr (Some False, s2))" "event_round demo_env s2 = Some (Inr (Some False, s3))"
    "mgr_core s3 = mgr_core (enqueue_tasks [demo_launch] s)"
    using gateway_restart_cycle [where n = 5 and eb = event_bus_new, OF acc wf empty md(1,3) e2(1) none] unfolding la by blast
  moreover have "am_enqueued s3 = [demo_launch, demo_launch]"
    using calculation(4) e1(1) by (simp add: mgr_core_def enqueue_tasks_def)
  ultimately show ?thesis using s(1) by blast
qed

end
